(* ===== verification/Prelude.thy ===== *)
theory Prelude
  imports Main "HOL-Library.Word"
begin

text \<open>
  Shared vocabulary of the development: the machine types the Go code uses, the error values
  it returns, the few functions of Go's \<^verbatim>\<open>strings\<close> package it calls, and the list and
  association-list lemmas that the component theories rely on.
\<close>

section \<open>Types and lemma collections\<close>

type_synonym byte = "8 word"
type_synonym u16 = "16 word"
type_synonym u32 = "32 word"

text \<open>Facts that keep a component's invariant, and the definitions of its small operations.\<close>

named_theorems inv_intros "preservation of the components' invariants"
named_theorems op_defs "definitions of the operations that the component lemmas unfold"

section \<open>Errors as values\<close>

text \<open>
  Every \<^verbatim>\<open>error\<close> the modelled code creates or compares with has a constructor. \<open>Errorf\<close> is
  \<^verbatim>\<open>fmt.Errorf\<close> with a \<^verbatim>\<open>%v\<close> of another error, \<open>NewError\<close> is \<^verbatim>\<open>errors.New\<close> (or
  \<^verbatim>\<open>fmt.Errorf\<close> without an error argument), \<open>CloseError\<close> is gorilla's close error with its
  code, and \<open>EnvError\<close> stands for an error that a system call or the peer produces.
\<close>

datatype gerror =
    ErrBrokenSIP003Args
  | ErrTooManyStreams
  | EOF
  | ErrClosedPipe
  | ErrShortWrite
  | ErrGoAway
  | ErrTimeout
  | ErrInvalidProtocol
  | CloseError nat
  | AddrError string string
  | NewError string
  | Errorf string gerror
  | EnvError string

type_synonym 'a res = "gerror + 'a"

text \<open>\<^verbatim>\<open>if err != nil { return nil, err }\<close>: the rest runs on the value.\<close>

definition and_then :: "'a res \<Rightarrow> ('a \<Rightarrow> 'b res) \<Rightarrow> 'b res" where
  "and_then r f = (case r of Inl e \<Rightarrow> Inl e | Inr x \<Rightarrow> f x)"

lemma and_then_Inr [simp]: "and_then (Inr x) f = f x"
  by (simp add: and_then_def)

lemma and_then_Inl [simp]: "and_then (Inl e) f = Inl e"
  by (simp add: and_then_def)

lemma and_then_eq_Inr: "and_then r f = Inr y \<longleftrightarrow> (\<exists>x. r = Inr x \<and> f x = Inr y)"
  by (cases r) simp_all

lemma and_then_eq_Inl: "and_then r f = Inl e \<longleftrightarrow> r = Inl e \<or> (\<exists>x. r = Inr x \<and> f x = Inl e)"
  by (cases r) simp_all

section \<open>Byte strings: what the code uses of Go's strings package\<close>

definition hasPrefix :: "string \<Rightarrow> string \<Rightarrow> bool" where
  "hasPrefix s p = (take (length p) s = p)"

text \<open>\<^verbatim>\<open>strings.Split(s, c)\<close> for a separator of one byte.\<close>

fun split_on :: "char \<Rightarrow> string \<Rightarrow> string list" where
  "split_on c [] = [[]]"
| "split_on c (x # xs) =
     (if x = c then [] # split_on c xs
      else (case split_on c xs of [] \<Rightarrow> [[x]] | w # ws \<Rightarrow> (x # w) # ws))"

text \<open>The inverse, \<^verbatim>\<open>strings.Join(ws, c)\<close>.\<close>

fun join_with :: "char \<Rightarrow> string list \<Rightarrow> string" where
  "join_with c [] = []"
| "join_with c [w] = w"
| "join_with c (w # v # ws) = w @ c # join_with c (v # ws)"

text \<open>\<^verbatim>\<open>bytealg.IndexByteString\<close> and \<^verbatim>\<open>last\<close> of package net: \<open>None\<close> is their \<open>-1\<close>.\<close>

fun index_byte :: "char \<Rightarrow> string \<Rightarrow> nat option" where
  "index_byte c [] = None"
| "index_byte c (x # xs) = (if x = c then Some 0 else map_option Suc (index_byte c xs))"

fun last_index_byte :: "char \<Rightarrow> string \<Rightarrow> nat option" where
  "last_index_byte c [] = None"
| "last_index_byte c (x # xs) =
     (case last_index_byte c xs of
        Some i \<Rightarrow> Some (Suc i)
      | None \<Rightarrow> if x = c then Some 0 else None)"

lemma hasPrefix_Nil [simp]: "hasPrefix s []"
  by (simp add: hasPrefix_def)

lemma hasPrefix_Cons [simp]:
  "hasPrefix (x # s) (y # p) \<longleftrightarrow> x = y \<and> hasPrefix s p"
  by (simp add: hasPrefix_def)

lemma hasPrefix_Nil_Cons [simp]: "\<not> hasPrefix [] (y # p)"
  by (simp add: hasPrefix_def)

lemma hasPrefix_append [simp]: "hasPrefix (p @ s) p"
  by (simp add: hasPrefix_def)

lemma split_on_not_Nil [simp]: "split_on c s \<noteq> []"
  by (induction s) (auto split: list.splits)

lemma join_split [simp]: "join_with c (split_on c s) = s"
proof (induction s)
  case (Cons x s)
  then show ?case
    by (cases "split_on c s"; cases "tl (split_on c s)") auto
qed simp

lemma split_on_free: "c \<notin> set s \<Longrightarrow> split_on c s = [s]"
  by (induction s) auto

lemma split_on_append: "c \<notin> set w \<Longrightarrow> split_on c (w @ c # s) = w # split_on c s"
  by (induction w) auto

lemma split_on_join:
  "ws \<noteq> [] \<Longrightarrow> \<forall>w \<in> set ws. c \<notin> set w \<Longrightarrow> split_on c (join_with c ws) = ws"
  by (induction c ws rule: join_with.induct) (auto simp: split_on_free split_on_append)

lemma split_on_pieces_free: "w \<in> set (split_on c s) \<Longrightarrow> c \<notin> set w"
proof (induction s arbitrary: w)
  case (Cons x s)
  then show ?case
    by (cases "split_on c s") (auto split: if_splits)
qed simp

lemma length_split_on: "length (split_on c s) = Suc (count_list s c)"
proof (induction s)
  case (Cons x s)
  then show ?case
    by (cases "split_on c s") auto
qed simp

lemma index_byte_None [simp]: "index_byte c s = None \<longleftrightarrow> c \<notin> set s"
  by (induction s) auto

lemma index_byte_append: "c \<notin> set s \<Longrightarrow> index_byte c (s @ c # t) = Some (length s)"
  by (induction s) auto

lemma last_index_byte_None [simp]: "last_index_byte c s = None \<longleftrightarrow> c \<notin> set s"
  by (induction s) (auto split: option.splits)

lemma last_index_byte_append: "c \<notin> set t \<Longrightarrow> last_index_byte c (s @ c # t) = Some (length s)"
proof (induction s)
  case Nil
  then have "last_index_byte c t = None" by (simp only: last_index_byte_None not_False_eq_True)
  then show ?case by (simp del: last_index_byte_None)
next
  case (Cons x s)
  then show ?case by simp
qed

lemma last_index_byte_Some_split:
  "last_index_byte c s = Some i \<Longrightarrow>
     s = take i s @ c # drop (Suc i) s \<and> c \<notin> set (drop (Suc i) s) \<and> i < length s"
proof (induction s arbitrary: i)
  case (Cons x s)
  show ?case
  proof (cases "last_index_byte c s")
    case None
    with Cons.prems show ?thesis by (auto split: if_splits)
  next
    case (Some j)
    with Cons show ?thesis by (auto split: if_splits)
  qed
qed simp

section \<open>Association lists with distinct keys, as finite maps\<close>

text \<open>
  A Go \<^verbatim>\<open>map\<close> is an association list without repeated keys: \<open>length\<close> is then the code's
  \<^verbatim>\<open>len\<close>, and evaluation needs no quantifier. \<open>alist_put\<close> is \<^verbatim>\<open>m[k] = v\<close> and \<open>alist_del\<close>
  is \<^verbatim>\<open>delete(m, k)\<close>.
\<close>

fun alist_put :: "'k \<Rightarrow> 'v \<Rightarrow> ('k \<times> 'v) list \<Rightarrow> ('k \<times> 'v) list" where
  "alist_put k v [] = [(k, v)]"
| "alist_put k v ((k', v') # m) =
     (if k' = k then (k, v) # m else (k', v') # alist_put k v m)"

definition alist_del :: "'k \<Rightarrow> ('k \<times> 'v) list \<Rightarrow> ('k \<times> 'v) list" where
  "alist_del k m = filter (\<lambda>p. fst p \<noteq> k) m"

abbreviation keys_distinct :: "('k \<times> 'v) list \<Rightarrow> bool" where
  "keys_distinct m \<equiv> distinct (map fst m)"

lemma map_of_alist_put [simp]: "map_of (alist_put k v m) = (map_of m)(k \<mapsto> v)"
  by (induction k v m rule: alist_put.induct) (auto simp: fun_eq_iff)

lemma map_of_alist_del [simp]: "map_of (alist_del k m) = (map_of m)(k := None)"
  by (induction m) (auto simp: alist_del_def fun_eq_iff)

lemma fst_set_alist_put [simp]: "fst ` set (alist_put k v m) = insert k (fst ` set m)"
  by (induction k v m rule: alist_put.induct) auto

lemma fst_set_alist_del [simp]: "fst ` set (alist_del k m) = fst ` set m - {k}"
  by (auto simp: alist_del_def)

lemma keys_distinct_put [simp, inv_intros]:
  "keys_distinct m \<Longrightarrow> keys_distinct (alist_put k v m)"
proof (induction k v m rule: alist_put.induct)
  case (2 k v k' v' m)
  then show ?case using fst_set_alist_put [of k v m] by auto
qed simp

lemma keys_distinct_del [simp, inv_intros]:
  "keys_distinct m \<Longrightarrow> keys_distinct (alist_del k m)"
  by (induction m) (auto simp: alist_del_def)

lemma length_alist_put:
  "length (alist_put k v m) = (if k \<in> fst ` set m then length m else Suc (length m))"
  by (induction k v m rule: alist_put.induct) auto

lemma length_alist_del_le: "length (alist_del k m) \<le> length m"
  by (simp add: alist_del_def)

lemma length_alist_del:
  "keys_distinct m \<Longrightarrow> k \<in> fst ` set m \<Longrightarrow> Suc (length (alist_del k m)) = length m"
proof (induction m)
  case (Cons p m)
  show ?case
  proof (cases "fst p = k")
    case True
    with Cons.prems have "\<forall>q \<in> set m. fst q \<noteq> k"
      by (metis distinct.simps(2) imageI list.set_map list.simps(9))
    then have "alist_del k m = m" by (simp add: alist_del_def)
    with True show ?thesis by (simp add: alist_del_def)
  next
    case False
    with Cons show ?thesis by (auto simp: alist_del_def)
  qed
qed simp

lemma alist_put_new: "k \<notin> fst ` set m \<Longrightarrow> alist_put k v m = m @ [(k, v)]"
  by (induction k v m rule: alist_put.induct) auto

lemma length_alist_card_dom: "keys_distinct m \<Longrightarrow> length m = card (dom (map_of m))"
  by (metis distinct_card dom_map_of_conv_image_fst length_map list.set_map)

end
