(* ===== verification/SmuxFrame.thy ===== *)
theory SmuxFrame
  imports Prelude
begin

text \<open>
  Frames of the multiplexing protocol, \<^verbatim>\<open>src/vendor/github.com/xtaci/smux/frame.go\<close>, and their
  bytes on the connection as \<^verbatim>\<open>sendLoop\<close> of \<^verbatim>\<open>session.go\<close> writes them and \<^verbatim>\<open>rawHeader\<close> reads
  them. The program uses protocol version 1.
\<close>

unbundle bit_operations_syntax

section \<open>Little-endian integers\<close>

definition PutUint16 :: "u16 \<Rightarrow> byte list" where
  "PutUint16 v = [ucast v, ucast (drop_bit 8 v)]"

definition PutUint32 :: "u32 \<Rightarrow> byte list" where
  "PutUint32 v = [ucast v, ucast (drop_bit 8 v), ucast (drop_bit 16 v), ucast (drop_bit 24 v)]"

definition Uint16 :: "byte \<Rightarrow> byte \<Rightarrow> u16" where
  "Uint16 b0 b1 = ucast b0 OR push_bit 8 (ucast b1)"

definition Uint32 :: "byte \<Rightarrow> byte \<Rightarrow> byte \<Rightarrow> byte \<Rightarrow> u32" where
  "Uint32 b0 b1 b2 b3 =
     ucast b0 OR push_bit 8 (ucast b1) OR push_bit 16 (ucast b2) OR push_bit 24 (ucast b3)"

lemma Uint16_Put: "Uint16 (ucast v) (ucast (drop_bit 8 v)) = v"
  unfolding Uint16_def
  by (rule bit_word_eqI) (auto simp: bit_simps)

lemma Uint32_Put:
  "Uint32 (ucast v) (ucast (drop_bit 8 v)) (ucast (drop_bit 16 v)) (ucast (drop_bit 24 v)) = v"
proof (rule bit_word_eqI)
  fix n assume "n < LENGTH(32)"
  then show "bit (Uint32 (ucast v) (ucast (drop_bit 8 v)) (ucast (drop_bit 16 v))
      (ucast (drop_bit 24 v))) n = bit v n"
    by (cases "n < 8"; cases "n < 16"; cases "n < 24") (auto simp: Uint32_def bit_simps)
qed

section \<open>Frames\<close>

definition cmdSYN :: byte where "cmdSYN = 0"
definition cmdFIN :: byte where "cmdFIN = 1"
definition cmdPSH :: byte where "cmdPSH = 2"
definition cmdNOP :: byte where "cmdNOP = 3"
definition cmdUPD :: byte where "cmdUPD = 4"

lemmas cmd_defs = cmdSYN_def cmdFIN_def cmdPSH_def cmdNOP_def cmdUPD_def

definition headerSize :: nat where "headerSize = 8"
definition szCmdUPD :: nat where "szCmdUPD = 8"

record Frame =
  ver :: byte
  cmd :: byte
  sid :: u32
  data :: "byte list"

definition newFrame :: "byte \<Rightarrow> byte \<Rightarrow> u32 \<Rightarrow> Frame" where
  "newFrame version c s = \<lparr>ver = version, cmd = c, sid = s, data = []\<rparr>"

text \<open>What \<^verbatim>\<open>sendLoop\<close> passes to one \<^verbatim>\<open>conn.Write\<close>: the header and the payload.\<close>

definition frame_bytes :: "Frame \<Rightarrow> byte list" where
  "frame_bytes f =
     [ver f, cmd f] @ PutUint16 (of_nat (length (data f))) @ PutUint32 (sid f) @ data f"

text \<open>The accessors of \<^verbatim>\<open>rawHeader\<close>, on a list of at least \<^verbatim>\<open>headerSize\<close> bytes.\<close>

definition hdr_Version :: "byte list \<Rightarrow> byte" where "hdr_Version h = h ! 0"
definition hdr_Cmd :: "byte list \<Rightarrow> byte" where "hdr_Cmd h = h ! 1"
definition hdr_Length :: "byte list \<Rightarrow> u16" where "hdr_Length h = Uint16 (h ! 2) (h ! 3)"
definition hdr_StreamID :: "byte list \<Rightarrow> u32" where
  "hdr_StreamID h = Uint32 (h ! 4) (h ! 5) (h ! 6) (h ! 7)"

lemmas hdr_defs = hdr_Version_def hdr_Cmd_def hdr_Length_def hdr_StreamID_def

lemma length_frame_bytes: "length (frame_bytes f) = headerSize + length (data f)"
  by (simp add: frame_bytes_def PutUint16_def PutUint32_def headerSize_def)

lemma hdr_frame_bytes:
  "hdr_Version (frame_bytes f @ rest) = ver f"
  "hdr_Cmd (frame_bytes f @ rest) = cmd f"
  "hdr_Length (frame_bytes f @ rest) = of_nat (length (data f))"
  "hdr_StreamID (frame_bytes f @ rest) = sid f"
  by (simp_all add: hdr_defs frame_bytes_def PutUint16_def PutUint32_def Uint16_Put Uint32_Put
      nth_append)

lemma hdr_Length_small:
  "length (data f) \<le> 65535 \<Longrightarrow> unat (hdr_Length (frame_bytes f @ rest)) = length (data f)"
  by (simp add: hdr_frame_bytes unat_of_nat take_bit_nat_eq_self)

lemma drop_headerSize_frame_bytes [simp]: "drop headerSize (frame_bytes f @ rest) = data f @ rest"
  by (simp add: frame_bytes_def PutUint16_def PutUint32_def headerSize_def)

end
