(* ===== verification/NetConn.thy ===== *)
theory NetConn
  imports Prelude
begin

text \<open>
  The interface \<^verbatim>\<open>net.Conn\<close> as the tunnel uses it. \<open>conn_ops\<close> is the method table, the locale
  \<open>net_conn\<close> the contract its users rely on, and \<open>tcp_conn\<close> the first provider: a socket of
  Go's package \<^verbatim>\<open>net\<close>. Times are nanoseconds.

  A call may block and its result may depend on the scheduler, so \<open>c_read\<close>, \<open>c_write\<close> and
  \<open>c_close\<close> give the list of results the call may return now; the empty list is a call that blocks.
\<close>

section \<open>The method table\<close>

record 'c conn_ops =
  c_read :: "int \<Rightarrow> nat \<Rightarrow> 'c \<Rightarrow> ((byte list \<times> gerror option) \<times> 'c) list"
  c_write :: "int \<Rightarrow> byte list \<Rightarrow> 'c \<Rightarrow> ((nat \<times> gerror option) \<times> 'c) list"
  c_close :: "'c \<Rightarrow> (gerror option \<times> 'c) list"
  c_set_deadline :: "int \<Rightarrow> 'c \<Rightarrow> 'c"
  c_set_read_deadline :: "int \<Rightarrow> 'c \<Rightarrow> 'c"
  c_set_write_deadline :: "int \<Rightarrow> 'c \<Rightarrow> 'c"

section \<open>The contract\<close>

text \<open>
  \<open>closed\<close> holds of a connection on which \<^verbatim>\<open>Close\<close> was called, \<open>valid\<close> is the provider's own
  invariant, and \<open>env\<close> is what the peer, the kernel and other goroutines may do to a connection
  between two calls. What the tunnel relies on: a read returns at most the bytes asked for, a
  write accepts at most the bytes given, a closed connection stays closed, and on a closed
  connection a read neither blocks nor returns nothing without an error, and a write neither
  blocks nor succeeds. \<^verbatim>\<open>Close\<close> never blocks.
\<close>

locale net_conn =
  fixes ops :: "'c conn_ops"
    and closed :: "'c \<Rightarrow> bool"
    and valid :: "'c \<Rightarrow> bool"
    and env :: "'c \<Rightarrow> 'c \<Rightarrow> bool"
  assumes read_len: "((bs, er), c') \<in> set (c_read ops now n c) \<Longrightarrow> valid c \<Longrightarrow> length bs \<le> n"
    and write_len: "((nw, ew), c') \<in> set (c_write ops now bs c) \<Longrightarrow> valid c \<Longrightarrow> nw \<le> length bs"
    and valid_read: "((bs, er), c') \<in> set (c_read ops now n c) \<Longrightarrow> valid c \<Longrightarrow> valid c'"
    and valid_write: "((nw, ew), c') \<in> set (c_write ops now bs c) \<Longrightarrow> valid c \<Longrightarrow> valid c'"
    and valid_close: "(er, c') \<in> set (c_close ops c) \<Longrightarrow> valid c \<Longrightarrow> valid c'"
    and close_returns: "valid c \<Longrightarrow> c_close ops c \<noteq> []"
    and valid_deadline: "valid c \<Longrightarrow> valid (c_set_deadline ops dl c)"
    and valid_read_deadline: "valid c \<Longrightarrow> valid (c_set_read_deadline ops dl c)"
    and valid_write_deadline: "valid c \<Longrightarrow> valid (c_set_write_deadline ops dl c)"
    and valid_env: "env c c' \<Longrightarrow> valid c \<Longrightarrow> valid c'"
    and close_closed: "(er, c') \<in> set (c_close ops c) \<Longrightarrow> valid c \<Longrightarrow> closed c'"
    and closed_read_stays:
      "((bs, er), c') \<in> set (c_read ops now n c) \<Longrightarrow> valid c \<Longrightarrow> closed c \<Longrightarrow> closed c'"
    and closed_write_stays:
      "((nw, ew), c') \<in> set (c_write ops now bs c) \<Longrightarrow> valid c \<Longrightarrow> closed c \<Longrightarrow> closed c'"
    and closed_deadline: "valid c \<Longrightarrow> closed c \<Longrightarrow> closed (c_set_deadline ops dl c)"
    and closed_read_deadline: "valid c \<Longrightarrow> closed c \<Longrightarrow> closed (c_set_read_deadline ops dl c)"
    and closed_write_deadline: "valid c \<Longrightarrow> closed c \<Longrightarrow> closed (c_set_write_deadline ops dl c)"
    and closed_env: "env c c' \<Longrightarrow> valid c \<Longrightarrow> closed c \<Longrightarrow> closed c'"
    and closed_read: "valid c \<Longrightarrow> closed c \<Longrightarrow> 0 < n \<Longrightarrow> c_read ops now n c \<noteq> [] \<and>
      (\<forall>((bs, er), c') \<in> set (c_read ops now n c). bs \<noteq> [] \<or> er \<noteq> None)"
    and closed_write: "valid c \<Longrightarrow> closed c \<Longrightarrow> bs \<noteq> [] \<Longrightarrow> c_write ops now bs c \<noteq> [] \<and>
      (\<forall>((nw, ew), c') \<in> set (c_write ops now bs c). ew \<noteq> None)"
begin

lemma closed_read_error:
  "(([], er), c') \<in> set (c_read ops now n c) \<Longrightarrow> valid c \<Longrightarrow> closed c \<Longrightarrow> 0 < n \<Longrightarrow> \<exists>e. er = Some e"
  using closed_read [of c n now] by fastforce

lemma closed_write_error:
  "((nw, ew), c') \<in> set (c_write ops now bs c) \<Longrightarrow> valid c \<Longrightarrow> closed c \<Longrightarrow> bs \<noteq> []
     \<Longrightarrow> \<exists>e. ew = Some e"
  using closed_write [of c bs now] by fastforce

lemmas closed_stays = closed_read_stays closed_write_stays closed_deadline closed_read_deadline
  closed_write_deadline closed_env close_closed

lemmas valid_stays = valid_read valid_write valid_close valid_deadline valid_read_deadline valid_write_deadline valid_env

end

text \<open>
  A provider that records its traffic: \<open>taken\<close> is everything its reads returned so far, \<open>wrote\<close>
  everything its writes accepted. Nothing but a read or a write changes them.
\<close>

locale recording_conn = net_conn ops closed valid env
  for ops :: "'c conn_ops" and closed valid env +
  fixes taken :: "'c \<Rightarrow> byte list"
    and wrote :: "'c \<Rightarrow> byte list"
  assumes taken_read: "((bs, er), c') \<in> set (c_read ops now n c) \<Longrightarrow> valid c \<Longrightarrow> taken c' = taken c @ bs"
    and wrote_read: "((bs, er), c') \<in> set (c_read ops now n c) \<Longrightarrow> valid c \<Longrightarrow> wrote c' = wrote c"
    and taken_write: "((nw, ew), c') \<in> set (c_write ops now bs c) \<Longrightarrow> valid c \<Longrightarrow> taken c' = taken c"
    and wrote_write: "((nw, ew), c') \<in> set (c_write ops now bs c) \<Longrightarrow> valid c \<Longrightarrow> wrote c' = wrote c @ take nw bs"
    and traffic_close: "(er, c') \<in> set (c_close ops c) \<Longrightarrow> valid c \<Longrightarrow> taken c' = taken c"
      "(er, c') \<in> set (c_close ops c) \<Longrightarrow> valid c \<Longrightarrow> wrote c' = wrote c"
    and traffic_deadline: "valid c \<Longrightarrow> taken (c_set_deadline ops dl c) = taken c"
      "valid c \<Longrightarrow> wrote (c_set_deadline ops dl c) = wrote c"
    and traffic_read_deadline: "valid c \<Longrightarrow> taken (c_set_read_deadline ops dl c) = taken c"
      "valid c \<Longrightarrow> wrote (c_set_read_deadline ops dl c) = wrote c"
    and traffic_write_deadline: "valid c \<Longrightarrow> taken (c_set_write_deadline ops dl c) = taken c"
      "valid c \<Longrightarrow> wrote (c_set_write_deadline ops dl c) = wrote c"
    and taken_env: "env c c' \<Longrightarrow> valid c \<Longrightarrow> taken c' = taken c"
    and wrote_env: "env c c' \<Longrightarrow> valid c \<Longrightarrow> wrote c' = wrote c"
begin

lemmas traffic_same = traffic_close traffic_deadline traffic_read_deadline traffic_write_deadline

end

section \<open>A socket of package net\<close>

text \<open>
  Received bytes wait in \<open>inq\<close>; when they are read, \<open>in_end\<close> is what the next read reports
  (\<open>EOF\<close> after the peer's FIN, another error after a reset). \<open>room\<close> is the free space of the send
  buffer, \<open>out_err\<close> an error a write runs into. History: \<open>tcp_recvd\<close> is what reads returned, \<open>tcp_sent\<close>
  all bytes the kernel accepted.
\<close>

record tcp_conn =
  inq :: "byte list"
  in_end :: "gerror option"
  room :: nat
  out_err :: "gerror option"
  tcp_recvd :: "byte list"
  tcp_sent :: "byte list"
  tclosed :: bool
  rdl :: "int option"
  wdl :: "int option"

definition expired :: "int option \<Rightarrow> int \<Rightarrow> bool" where
  "expired dl now = (case dl of None \<Rightarrow> False | Some d \<Rightarrow> d \<le> now)"

definition useOfClosed :: gerror where
  "useOfClosed = EnvError ''use of closed network connection''"

definition ioTimeout :: gerror where
  "ioTimeout = EnvError ''i/o timeout''"

definition tcp_read :: "int \<Rightarrow> nat \<Rightarrow> tcp_conn \<Rightarrow> ((byte list \<times> gerror option) \<times> tcp_conn) list" where
  "tcp_read now n c =
     (if tclosed c then [(([], Some useOfClosed), c)]
      else if n = 0 then [(([], None), c)]
      else if expired (rdl c) now then [(([], Some ioTimeout), c)]
      else if inq c \<noteq> [] then 
        [((take n (inq c), None), c\<lparr>inq := drop n (inq c), tcp_recvd := tcp_recvd c @ take n (inq c)\<rparr>)]
      else (case in_end c of None \<Rightarrow> [] | Some e \<Rightarrow> [(([], Some e), c)]))"

definition tcp_accept :: "nat \<Rightarrow> byte list \<Rightarrow> tcp_conn \<Rightarrow> tcp_conn" where
  "tcp_accept k bs c = c\<lparr>tcp_sent := tcp_sent c @ take k bs, room := room c - k\<rparr>"

text \<open>
  A write returns when all bytes are accepted; when its deadline passes it reports how many
  were (any number that fits, since the deadline may pass at any moment of the transfer).
\<close>

definition tcp_write :: "int \<Rightarrow> byte list \<Rightarrow> tcp_conn \<Rightarrow> ((nat \<times> gerror option) \<times> tcp_conn) list" where
  "tcp_write now bs c =
     (if tclosed c then [((0, Some useOfClosed), c)]
      else if expired (wdl c) now then
        map (\<lambda>k. ((k, Some ioTimeout), tcp_accept k bs c)) [0..<min (Suc (room c)) (Suc (length bs))]
      else (case out_err c of
          Some e \<Rightarrow> [((0, Some e), c)]
        | None \<Rightarrow> if length bs \<le> room c
                   then [((length bs, None), tcp_accept (length bs) bs c)] else []))"

definition tcp_close :: "tcp_conn \<Rightarrow> (gerror option \<times> tcp_conn) list" where
  "tcp_close c = [((if tclosed c then Some useOfClosed else None), c\<lparr>tclosed := True\<rparr>)]"

definition tcp_ops :: "tcp_conn conn_ops" where
  "tcp_ops = \<lparr>c_read = tcp_read, c_write = tcp_write, c_close = tcp_close,
     c_set_deadline = (\<lambda>dl c. c\<lparr>rdl := Some dl, wdl := Some dl\<rparr>),
     c_set_read_deadline = (\<lambda>dl c. c\<lparr>rdl := Some dl\<rparr>),
     c_set_write_deadline = (\<lambda>dl c. c\<lparr>wdl := Some dl\<rparr>)\<rparr>"

text \<open>The network delivers bytes, ends the stream, drains the send buffer or breaks.\<close>

inductive tcp_env :: "tcp_conn \<Rightarrow> tcp_conn \<Rightarrow> bool" where
  deliver: "in_end c = None \<Longrightarrow> tcp_env c (c\<lparr>inq := inq c @ bs\<rparr>)"
| finish: "in_end c = None \<Longrightarrow> tcp_env c (c\<lparr>in_end := Some e\<rparr>)"
| drain: "tcp_env c (c\<lparr>room := room c + k\<rparr>)"
| break: "tcp_env c (c\<lparr>out_err := Some e\<rparr>)"

inductive_cases tcp_envE: "tcp_env c c'"

lemmas tcp_op_defs = tcp_ops_def tcp_read_def tcp_write_def tcp_close_def tcp_accept_def

interpretation tcp: recording_conn tcp_ops tclosed "\<lambda>_. True" tcp_env tcp_recvd tcp_sent
  by unfold_locales
    (auto simp: tcp_op_defs elim!: tcp_envE split: if_splits option.splits)

section \<open>Connections of two kinds\<close>

text \<open>
  A tunnel joins connections of different kinds (a socket and a stream, say). Go dispatches on
  the dynamic type; here a connection is one of the two kinds and each method is the kind's own.
\<close>

definition map_result :: "('a \<Rightarrow> 'b) \<Rightarrow> ('r \<times> 'a) list \<Rightarrow> ('r \<times> 'b) list" where
  "map_result f rs = map (\<lambda>(r, c). (r, f c)) rs"

lemma set_map_result: "(r, c') \<in> set (map_result f rs) \<longleftrightarrow> (\<exists>c. c' = f c \<and> (r, c) \<in> set rs)"
  by (auto simp: map_result_def)

lemma map_result_Nil [simp]: "map_result f rs = [] \<longleftrightarrow> rs = []"
  by (simp add: map_result_def)

definition sum_ops :: "'a conn_ops \<Rightarrow> 'b conn_ops \<Rightarrow> ('a + 'b) conn_ops" where
  "sum_ops A B =
     \<lparr>c_read = (\<lambda>now n c. case c of Inl a \<Rightarrow> map_result Inl (c_read A now n a)
                               | Inr b \<Rightarrow> map_result Inr (c_read B now n b)),
      c_write = (\<lambda>now bs c. case c of Inl a \<Rightarrow> map_result Inl (c_write A now bs a)
                                | Inr b \<Rightarrow> map_result Inr (c_write B now bs b)),
      c_close = (\<lambda>c. case c of Inl a \<Rightarrow> map_result Inl (c_close A a)
                          | Inr b \<Rightarrow> map_result Inr (c_close B b)),
      c_set_deadline = (\<lambda>dl. map_sum (c_set_deadline A dl) (c_set_deadline B dl)),
      c_set_read_deadline = (\<lambda>dl. map_sum (c_set_read_deadline A dl) (c_set_read_deadline B dl)),
      c_set_write_deadline = (\<lambda>dl. map_sum (c_set_write_deadline A dl) (c_set_write_deadline B dl))\<rparr>"

inductive sum_env :: "('a \<Rightarrow> 'a \<Rightarrow> bool) \<Rightarrow> ('b \<Rightarrow> 'b \<Rightarrow> bool) \<Rightarrow> 'a + 'b \<Rightarrow> 'a + 'b \<Rightarrow> bool"
  for eA eB where
  left: "eA a a' \<Longrightarrow> sum_env eA eB (Inl a) (Inl a')"
| right: "eB b b' \<Longrightarrow> sum_env eA eB (Inr b) (Inr b')"

inductive_cases sum_envE: "sum_env eA eB c c'"

locale two_conns = A: recording_conn opsA closedA validA envA takenA wroteA
  + B: recording_conn opsB closedB validB envB takenB wroteB
  for opsA :: "'a conn_ops" and closedA validA envA takenA wroteA
    and opsB :: "'b conn_ops" and closedB validB envB takenB wroteB

sublocale two_conns < either: recording_conn "sum_ops opsA opsB" "case_sum closedA closedB"
    "case_sum validA validB" "sum_env envA envB" "case_sum takenA takenB" "case_sum wroteA wroteB"
proof -
  note laws = A.read_len B.read_len A.write_len B.write_len A.valid_stays B.valid_stays
    A.closed_stays B.closed_stays A.traffic_same B.traffic_same A.taken_read B.taken_read
    A.wrote_read B.wrote_read A.taken_write B.taken_write A.wrote_write B.wrote_write
    A.taken_env B.taken_env A.wrote_env B.wrote_env
  note returns = A.closed_read B.closed_read A.closed_write B.closed_write
    A.close_returns B.close_returns
  show "recording_conn (sum_ops opsA opsB) (case_sum closedA closedB) (case_sum validA validB)
      (sum_env envA envB) (case_sum takenA takenB) (case_sum wroteA wroteB)"
    by unfold_locales
      (auto simp: sum_ops_def set_map_result elim!: sum_envE split: sum.splits dest: laws
        A.closed_read_error B.closed_read_error A.closed_write_error B.closed_write_error
        simp: returns laws)
qed

end
