(* ===== verification/SmuxSession.thy ===== *)
theory SmuxSession
  imports SmuxFrame NetConn
begin

text \<open>
  The multiplexing sessions and streams the program opens, from the vendored
  \<^verbatim>\<open>src/vendor/github.com/xtaci/smux/session.go\<close> and \<^verbatim>\<open>stream.go\<close>, for protocol version 1.
  Every critical section and every channel operation is one atomic transition; an operation that
  \<^verbatim>\<open>select\<close>s among ready channels has one result per ready channel, and none when it blocks.
  A frame handed to \<^verbatim>\<open>writeFrame\<close> is written to the connection in the step of its call, or never. That the goroutines between
  the two keep the frames of a caller whole and in order, as long as none of its writes fails, and what they do with a frame whose
  write timed out, is the subject of \<open>SmuxShaper\<close>.
\<close>

section \<open>Configuration\<close>

record Config =
  Version :: int
  KeepAliveInterval :: int
  KeepAliveTimeout :: int
  MaxFrameSize :: int
  MaxReceiveBuffer :: int
  MaxStreamBuffer :: int

definition VerifyConfig :: "Config \<Rightarrow> gerror option" where
  "VerifyConfig c =
     (if \<not> (Version c = 1 \<or> Version c = 2) then Some (NewError ''unsupported protocol version'')
      else if KeepAliveInterval c = 0 then Some (NewError ''keep-alive interval must be positive'')
      else if KeepAliveTimeout c < KeepAliveInterval c
      then Some (NewError ''keep-alive timeout must be larger than keep-alive interval'')
      else if MaxFrameSize c \<le> 0 then Some (NewError ''max frame size must be positive'')
      else if MaxFrameSize c > 65535
      then Some (NewError ''max frame size must not be larger than 65535'')
      else if MaxReceiveBuffer c \<le> 0 then Some (NewError ''max receive buffer must be positive'')
      else if MaxStreamBuffer c \<le> 0 then Some (NewError ''max stream buffer must be positive'')
      else if MaxStreamBuffer c > MaxReceiveBuffer c
      then Some (NewError ''max stream buffer must not be larger than max receive buffer'')
      else if MaxStreamBuffer c > 2147483647
      then Some (NewError ''max stream buffer cannot be larger than 2147483647'')
      else None)"

section \<open>State\<close>

text \<open>
  A stream object. \<open>sdie\<close> and \<open>finEvent\<close> are its closed channels \<^verbatim>\<open>die\<close> and \<^verbatim>\<open>chFinEvent\<close>,
  \<open>readEvent\<close> the token in \<^verbatim>\<open>chReadEvent\<close>; \<open>parked\<close> holds while a \<^verbatim>\<open>Read\<close> has found no data and
  is in \<^verbatim>\<open>waitRead\<close>. History: the bytes its reads returned, and those its writes sent.
\<close>

record smux_stream =
  stid :: u32
  buffers :: "byte list list"
  sdie :: bool
  finEvent :: bool
  readEvent :: bool
  parked :: bool
  readDeadline :: "int option"
  writeDeadline :: "int option"
  numWritten :: u32
  read_log :: "byte list"
  write_log :: "byte list"

text \<open>
  A session. \<open>streams\<close> is the map from stream ids to streams, which are shared objects: \<open>objs\<close>
  holds every stream object ever created, and the map, the accept queue and the callers refer to
  them by index. A closed error channel is an error that is present. \<open>inbuf\<close>, \<open>conn_end\<close>,
  \<open>conn_fail\<close>, \<open>outbox\<close> and \<open>conn_closed\<close> describe the underlying connection: bytes that arrived,
  how its input ends, whether writes fail, the frames written, and whether it was closed (with
  \<open>close_err\<close> as the result). \<open>recv_done\<close>: \<^verbatim>\<open>recvLoop\<close> has returned. \<open>panicked\<close>: a nil stream was
  dereferenced.
\<close>

record session =
  client :: bool
  config :: Config
  nextStreamID :: u32
  bucket :: int
  streams :: "(u32 \<times> nat) list"
  objs :: "smux_stream list"
  die :: bool
  readError :: "gerror option"
  writeError :: "gerror option"
  protoError :: "gerror option"
  chAccepts :: "nat list"
  dataReady :: bool
  goAway :: bool
  recv_done :: bool
  panicked :: bool
  inbuf :: "byte list"
  conn_end :: "gerror option"
  conn_fail :: "gerror option"
  conn_closed :: bool
  close_err :: "gerror option"
  outbox :: "Frame list"

definition defaultAcceptBacklog :: nat where
  "defaultAcceptBacklog = 1024"

definition newSession :: "Config \<Rightarrow> bool \<Rightarrow> session" where
  "newSession c cl =
     \<lparr>client = cl, config = c, nextStreamID = (if cl then 1 else 0), bucket = MaxReceiveBuffer c,
      streams = [], objs = [], die = False, readError = None, writeError = None,
      protoError = None, chAccepts = [], dataReady = False, goAway = False, recv_done = False,
      panicked = False, inbuf = [], conn_end = None, conn_fail = None, conn_closed = False,
      close_err = None, outbox = []\<rparr>"

definition newStream :: "u32 \<Rightarrow> smux_stream" where
  "newStream i =
     \<lparr>stid = i, buffers = [], sdie = False, finEvent = False, readEvent = False, parked = False,
      readDeadline = None, writeDeadline = None, numWritten = 0, read_log = [], write_log = []\<rparr>"

text \<open>\<^verbatim>\<open>smux.Client\<close> and \<^verbatim>\<open>smux.Server\<close>.\<close>

definition smux_Client :: "Config \<Rightarrow> session res" where
  "smux_Client c = (case VerifyConfig c of Some e \<Rightarrow> Inl e | None \<Rightarrow> Inr (newSession c True))"

definition smux_Server :: "Config \<Rightarrow> session res" where
  "smux_Server c = (case VerifyConfig c of Some e \<Rightarrow> Inl e | None \<Rightarrow> Inr (newSession c False))"

definition upd_obj :: "nat \<Rightarrow> (smux_stream \<Rightarrow> smux_stream) \<Rightarrow> session \<Rightarrow> session" where
  "upd_obj i f s = s\<lparr>objs := (objs s)[i := f (objs s ! i)]\<rparr>"

section \<open>Small session operations\<close>

definition IsClosed :: "session \<Rightarrow> bool" where
  "IsClosed s = die s"

definition NumStreams :: "session \<Rightarrow> nat" where
  "NumStreams s = (if IsClosed s then 0 else length (streams s))"

definition notifyReadError :: "gerror \<Rightarrow> session \<Rightarrow> session" where
  "notifyReadError e s = (if readError s = None then s\<lparr>readError := Some e\<rparr> else s)"

definition notifyWriteError :: "gerror \<Rightarrow> session \<Rightarrow> session" where
  "notifyWriteError e s = (if writeError s = None then s\<lparr>writeError := Some e\<rparr> else s)"

definition notifyProtoError :: "gerror \<Rightarrow> session \<Rightarrow> session" where
  "notifyProtoError e s = (if protoError s = None then s\<lparr>protoError := Some e\<rparr> else s)"

definition returnTokens :: "nat \<Rightarrow> session \<Rightarrow> session" where
  "returnTokens n s = s\<lparr>bucket := bucket s + int n\<rparr>"

definition opt_list :: "'a option \<Rightarrow> 'a list" where
  "opt_list x = (case x of None \<Rightarrow> [] | Some y \<Rightarrow> [y])"

lemma set_opt_list [simp]: "y \<in> set (opt_list x) \<longleftrightarrow> x = Some y"
  by (cases x) (auto simp: opt_list_def)

text \<open>
  \<^verbatim>\<open>writeFrameInternal\<close>: the number of payload bytes written and the error. On a dead session or
  after a write error it fails; otherwise the frame reaches the connection, unless the
  connection fails. When its deadline has passed it may report the timeout instead, with the
  frame written or never to be written; \<open>SmuxShaper\<close> has the third case, a frame that is written later.
\<close>

definition writeFrame_now :: "Frame \<Rightarrow> session \<Rightarrow> ((nat \<times> gerror option) \<times> session) list" where
  "writeFrame_now f s =
     (let dead = (if die s then [ErrClosedPipe] else []) @ opt_list (writeError s) in
      if dead \<noteq> [] then map (\<lambda>e. ((0, Some e), s)) dead
      else (case conn_fail s of
          Some e \<Rightarrow> [((0, Some e), notifyWriteError e s)]
        | None \<Rightarrow> [((length (data f), None), s\<lparr>outbox := outbox s @ [f]\<rparr>)]))"

definition writeFrameInternal ::
  "Frame \<Rightarrow> bool \<Rightarrow> session \<Rightarrow> ((nat \<times> gerror option) \<times> session) list" where
  "writeFrameInternal f late s =
     writeFrame_now f s
     @ (if late then ((0, Some ErrTimeout), s)
          # map (\<lambda>r. ((0, Some ErrTimeout), snd r)) (writeFrame_now f s) else [])"

definition writeFrame :: "Frame \<Rightarrow> session \<Rightarrow> ((nat \<times> gerror option) \<times> session) list" where
  "writeFrame f s = writeFrameInternal f False s"

definition ver_byte :: "session \<Rightarrow> byte" where
  "ver_byte s = of_int (Version (config s))"

section \<open>Opening, accepting, closing\<close>

text \<open>
  The last \<^verbatim>\<open>select\<close> of \<^verbatim>\<open>OpenStream\<close>: any error that is present, else the new stream enters the
  map.
\<close>

definition register_stream :: "u32 \<Rightarrow> session \<Rightarrow> (nat res \<times> session) list" where
  "register_stream i s =
     (let errs = opt_list (readError s) @ opt_list (writeError s)
                 @ (if die s then [ErrClosedPipe] else []) in
      if errs \<noteq> [] then map (\<lambda>e. (Inl e, s)) errs
      else [(Inr (length (objs s)),
             s\<lparr>objs := objs s @ [newStream i], streams := alist_put i (length (objs s)) (streams s)\<rparr>)])"

definition OpenStream :: "session \<Rightarrow> (nat res \<times> session) list" where
  "OpenStream s =
     (if IsClosed s then [(Inl ErrClosedPipe, s)]
      else if goAway s then [(Inl ErrGoAway, s)]
      else let i = nextStreamID s + 2; s1 = s\<lparr>nextStreamID := i\<rparr> in
        (if i = i mod 2 then [(Inl ErrGoAway, s1\<lparr>goAway := True\<rparr>)]
         else concat (map (\<lambda>((n, e), s2).
                (case e of Some x \<Rightarrow> [(Inl x, s2)] | None \<Rightarrow> register_stream i s2))
              (writeFrame (newFrame (ver_byte s) cmdSYN i) s1))))"

definition AcceptStream :: "session \<Rightarrow> (nat res \<times> session) list" where
  "AcceptStream s =
     (case chAccepts s of [] \<Rightarrow> [] | i # q \<Rightarrow> [(Inr i, s\<lparr>chAccepts := q\<rparr>)])
     @ map (\<lambda>e. (Inl e, s))
         (opt_list (readError s) @ opt_list (protoError s)
          @ (if die s then [ErrClosedPipe] else []))"

text \<open>\<^verbatim>\<open>Session.Close\<close> closes every stream of the map, then the connection.\<close>

definition close_objs :: "nat list \<Rightarrow> smux_stream list \<Rightarrow> smux_stream list" where
  "close_objs is os = foldl (\<lambda>os i. os[i := (os ! i)\<lparr>sdie := True\<rparr>]) os is"

definition Session_Close :: "session \<Rightarrow> gerror option \<times> session" where
  "Session_Close s =
     (if die s then (Some ErrClosedPipe, s)
      else (close_err s,
            s\<lparr>die := True, objs := close_objs (map snd (streams s)) (objs s), conn_closed := True\<rparr>))"

definition buffered :: "smux_stream \<Rightarrow> nat" where
  "buffered st = sum_list (map length (buffers st))"

definition streamClosed :: "u32 \<Rightarrow> session \<Rightarrow> session" where
  "streamClosed i s =
     (case map_of (streams s) i of
        None \<Rightarrow> s\<lparr>panicked := True\<rparr>
      | Some k \<Rightarrow>
          (let n = buffered (objs s ! k);
               s1 = upd_obj k (\<lambda>st. st\<lparr>buffers := []\<rparr>) s;
               s2 = (if n > 0 then s1\<lparr>bucket := bucket s1 + int n\<rparr> else s1)
           in s2\<lparr>streams := alist_del i (streams s2)\<rparr>))"

definition Stream_Close :: "nat \<Rightarrow> session \<Rightarrow> (gerror option \<times> session) list" where
  "Stream_Close k s =
     (if sdie (objs s ! k) then [(Some ErrClosedPipe, s)]
      else let s1 = upd_obj k (\<lambda>st. st\<lparr>sdie := True\<rparr>) s; i = stid (objs s ! k) in
        map (\<lambda>((n, e), s2). (e, streamClosed i s2))
          (writeFrame (newFrame (ver_byte s) cmdFIN i) s1))"

section \<open>The receive loop and the keep-alive timer\<close>

definition notify_stream :: "smux_stream \<Rightarrow> smux_stream" where
  "notify_stream st = st\<lparr>readEvent := True\<rparr>"

text \<open>
  What a round of the loop does with the bytes that have arrived: it needs more of them, it blocks
  on the full accept queue, or it goes on in a new state.
\<close>

datatype received = Incomplete | Blocked | Next session

definition recv_syn :: "u32 \<Rightarrow> session \<Rightarrow> received" where
  "recv_syn i s =
     (case map_of (streams s) i of
        Some k \<Rightarrow> Next s
      | None \<Rightarrow>
          (let k = length (objs s);
               s1 = s\<lparr>objs := objs s @ [newStream i], streams := alist_put i k (streams s)\<rparr> in
           if length (chAccepts s) < defaultAcceptBacklog
           then Next (s1\<lparr>chAccepts := chAccepts s1 @ [k]\<rparr>)
           else if die s then Next s1 else Blocked))"

definition recv_fin :: "u32 \<Rightarrow> session \<Rightarrow> session" where
  "recv_fin i s =
     (case map_of (streams s) i of
        None \<Rightarrow> s
      | Some k \<Rightarrow> upd_obj k (\<lambda>st. notify_stream (st\<lparr>finEvent := True\<rparr>)) s)"

definition recv_psh :: "u32 \<Rightarrow> byte list \<Rightarrow> session \<Rightarrow> session" where
  "recv_psh i bs s =
     (case map_of (streams s) i of
        None \<Rightarrow> s
      | Some k \<Rightarrow>
          (upd_obj k (\<lambda>st. notify_stream (st\<lparr>buffers := buffers st @ [bs]\<rparr>)) s)
            \<lparr>bucket := bucket s - int (length bs)\<rparr>)"

definition recv_stop :: "session \<Rightarrow> session" where
  "recv_stop s = s\<lparr>recv_done := True\<rparr>"

text \<open>
  One round of \<^verbatim>\<open>recvLoop\<close> on a complete frame: the header and, for \<^verbatim>\<open>cmdPSH\<close> and \<^verbatim>\<open>cmdUPD\<close>, what
  follows it.
\<close>

definition recv_frame :: "session \<Rightarrow> received" where
  "recv_frame s =
     (let hdr = inbuf s; rest = drop headerSize hdr; i = hdr_StreamID hdr;
          s1 = s\<lparr>inbuf := rest, dataReady := True\<rparr>; n = unat (hdr_Length hdr) in
      if length hdr < headerSize then Incomplete
      else if hdr_Version hdr \<noteq> ver_byte s
      then Next (recv_stop (notifyProtoError ErrInvalidProtocol s1))
      else if hdr_Cmd hdr = cmdNOP then Next s1
      else if hdr_Cmd hdr = cmdSYN then recv_syn i s1
      else if hdr_Cmd hdr = cmdFIN then Next (recv_fin i s1)
      else if hdr_Cmd hdr = cmdPSH then
        (if n > 0 then
           (if length rest < n then Incomplete
            else Next (recv_psh i (take n rest) (s1\<lparr>inbuf := drop n rest\<rparr>)))
         else Next s1)
      else if hdr_Cmd hdr = cmdUPD then
        (if length rest < szCmdUPD then Incomplete else Next (s1\<lparr>inbuf := drop szCmdUPD rest\<rparr>))
      else Next (recv_stop (notifyProtoError ErrInvalidProtocol s1)))"

text \<open>
  The loop blocks while its token bucket is empty on a live session; on a closed one it may
  return there. When the connection's input ends (or the connection was closed) it reports the
  error and returns.
\<close>

definition recv_error :: "session \<Rightarrow> gerror list" where
  "recv_error s = opt_list (conn_end s) @ (if conn_closed s then [useOfClosed] else [])"

definition recv_step :: "session \<Rightarrow> session list" where
  "recv_step s =
     (if recv_done s then []
      else if bucket s \<le> 0 \<and> \<not> die s then []
      else (if bucket s \<le> 0 then [recv_stop s] else [])
        @ (case recv_frame s of Next s' \<Rightarrow> [s'] | _ \<Rightarrow> [])
        @ (if recv_frame s = Incomplete \<or> (conn_closed s \<and> recv_frame s \<noteq> Blocked)
           then map (\<lambda>e. recv_stop (notifyReadError e s)) (recv_error s) else []))"

text \<open>The two ticks of \<^verbatim>\<open>keepalive\<close>.\<close>

definition keepalive_ping :: "bool \<Rightarrow> session \<Rightarrow> session list" where
  "keepalive_ping late s =
     (if die s then [] else map snd (writeFrameInternal (newFrame (ver_byte s) cmdNOP 0) late s))"

definition keepalive_timeout :: "session \<Rightarrow> session list" where
  "keepalive_timeout s =
     (if die s then []
      else if dataReady s then [s\<lparr>dataReady := False\<rparr>] else [snd (Session_Close s)])"

end
