(* ===== verification/SmuxStream.thy ===== *)
theory SmuxStream
  imports SmuxSession
begin

text \<open>
  Reading, writing and the deadlines of a stream (\<^verbatim>\<open>smux/stream.go\<close>, protocol version 1), all
  transitions of a session as one step relation, its invariant, and the stream as a provider of
  the interface \<open>net_conn\<close>. A stream is referred to by its index in \<open>objs\<close>.
\<close>

section \<open>Read\<close>

text \<open>
  \<^verbatim>\<open>tryRead\<close> on a non-empty buffer: the first buffered block, or as much of it as fits, and the
  tokens go back to the session.
\<close>

definition take_block :: "nat \<Rightarrow> smux_stream \<Rightarrow> byte list \<times> smux_stream" where
  "take_block n st =
     (case buffers st of
        [] \<Rightarrow> ([], st)
      | b # bs \<Rightarrow>
          (take n b,
           st\<lparr>buffers := (if drop n b = [] then bs else drop n b # bs),
              read_log := read_log st @ take n b\<rparr>))"

definition read_block ::
  "nat \<Rightarrow> nat \<Rightarrow> session \<Rightarrow> (byte list \<times> gerror option) \<times> session" where
  "read_block n k s =
     (let bs = fst (take_block n (objs s ! k)) in
      ((bs, None),
       returnTokens (length bs)
         (upd_obj k (\<lambda>st. (snd (take_block n st))\<lparr>parked := False\<rparr>) s)))"

definition unpark :: "nat \<Rightarrow> session \<Rightarrow> session" where
  "unpark k s = upd_obj k (\<lambda>st. st\<lparr>parked := False\<rparr>) s"

text \<open>The ready channels of \<^verbatim>\<open>waitRead\<close>, other than the read event, as the errors it returns.\<close>

definition wait_errors :: "int \<Rightarrow> nat \<Rightarrow> session \<Rightarrow> gerror list" where
  "wait_errors now k s =
     (let st = objs s ! k in
      (if finEvent st then [EOF] else [])
      @ opt_list (readError s) @ opt_list (protoError s)
      @ (if expired (readDeadline st) now then [ErrTimeout] else [])
      @ (if sdie st then [ErrClosedPipe] else []))"

text \<open>
  \<^verbatim>\<open>Stream.Read\<close>. A reader that is not parked runs \<^verbatim>\<open>tryRead\<close>: data, or \<^verbatim>\<open>EOF\<close> on a closed stream,
  else it would block. A parked one is in \<^verbatim>\<open>waitRead\<close>: it may return the error of any ready
  channel, or take a read event and run \<^verbatim>\<open>tryRead\<close> again.
\<close>

definition try_read ::
  "nat \<Rightarrow> nat \<Rightarrow> session \<Rightarrow> ((byte list \<times> gerror option) \<times> session) list" where
  "try_read n k s =
     (if n = 0 then [(([], None), unpark k s)]
      else if buffers (objs s ! k) \<noteq> [] then [read_block n k s]
      else if sdie (objs s ! k) then [(([], Some EOF), unpark k s)]
      else [])"

definition stream_read ::
  "int \<Rightarrow> nat \<Rightarrow> nat \<Rightarrow> session \<Rightarrow> ((byte list \<times> gerror option) \<times> session) list" where
  "stream_read now n k s =
     (if parked (objs s ! k) then
        map (\<lambda>e. (([], Some e), unpark k s)) (wait_errors now k s)
        @ (if readEvent (objs s ! k)
           then try_read n k (upd_obj k (\<lambda>st. st\<lparr>readEvent := False\<rparr>) s) else [])
      else try_read n k s)"

text \<open>
  The transitions of a blocked read: it parks when \<^verbatim>\<open>tryRead\<close> finds nothing, and a read event
  with nothing to read sends it round the loop, back to \<^verbatim>\<open>waitRead\<close>.
\<close>

definition read_parks :: "nat \<Rightarrow> session \<Rightarrow> bool" where
  "read_parks k s \<longleftrightarrow> buffers (objs s ! k) = [] \<and> \<not> sdie (objs s ! k)"

definition park :: "nat \<Rightarrow> session \<Rightarrow> session" where
  "park k s = upd_obj k (\<lambda>st. st\<lparr>readEvent := (readEvent st \<and> \<not> parked st), parked := True\<rparr>) s"

section \<open>Write, Close and the deadlines\<close>

text \<open>
  \<open>chunks sz b\<close> is how \<^verbatim>\<open>Write\<close> splits its argument: blocks of \<^verbatim>\<open>frameSize\<close> bytes.
\<close>

function chunks :: "nat \<Rightarrow> byte list \<Rightarrow> byte list list" where
  "chunks sz b = (if b = [] \<or> sz = 0 then [] else take sz b # chunks sz (drop sz b))"
  by pat_completeness auto
termination
  by (relation "measure (\<lambda>(sz, b). length b)") auto

declare chunks.simps [simp del]

fun write_chunks ::
  "bool \<Rightarrow> nat \<Rightarrow> nat \<Rightarrow> byte list list \<Rightarrow> session \<Rightarrow> ((nat \<times> gerror option) \<times> session) list" where
  "write_chunks late k sent [] s = [((sent, None), s)]"
| "write_chunks late k sent (b # bs) s =
     concat (map (\<lambda>((n, e), s1).
         let s2 = upd_obj k (\<lambda>st. st\<lparr>numWritten := numWritten st + 1,
                                     write_log := write_log st @ take n b\<rparr>) s1 in
         (case e of
            Some x \<Rightarrow> [((sent + n, Some x), s2)]
          | None \<Rightarrow> write_chunks late k (sent + n) bs s2))
       (writeFrameInternal
          ((newFrame (ver_byte s) cmdPSH (stid (objs s ! k)))\<lparr>data := b\<rparr>) late s))"

definition stream_write ::
  "int \<Rightarrow> byte list \<Rightarrow> nat \<Rightarrow> session \<Rightarrow> ((nat \<times> gerror option) \<times> session) list" where
  "stream_write now b k s =
     (if sdie (objs s ! k) then [((0, Some ErrClosedPipe), s)]
      else write_chunks (expired (writeDeadline (objs s ! k)) now) k 0
             (chunks (nat (MaxFrameSize (config s))) b) s)"

definition SetReadDeadline :: "int \<Rightarrow> nat \<Rightarrow> session \<Rightarrow> session" where
  "SetReadDeadline t k s = upd_obj k (\<lambda>st. notify_stream (st\<lparr>readDeadline := Some t\<rparr>)) s"

definition SetWriteDeadline :: "int \<Rightarrow> nat \<Rightarrow> session \<Rightarrow> session" where
  "SetWriteDeadline t k s = upd_obj k (\<lambda>st. st\<lparr>writeDeadline := Some t\<rparr>) s"

definition SetDeadline :: "int \<Rightarrow> nat \<Rightarrow> session \<Rightarrow> session" where
  "SetDeadline t k s = SetWriteDeadline t k (SetReadDeadline t k s)"

section \<open>All transitions of a session\<close>

text \<open>
  What the connection does: bytes arrive, its input ends, its writes begin to fail.
\<close>

inductive conn_step :: "session \<Rightarrow> session \<Rightarrow> bool" where
  arrive: "conn_end s = None \<Longrightarrow> conn_step s (s\<lparr>inbuf := inbuf s @ bs\<rparr>)"
| input_ends: "conn_end s = None \<Longrightarrow> conn_step s (s\<lparr>conn_end := Some e\<rparr>)"
| writes_fail: "conn_step s (s\<lparr>conn_fail := Some e\<rparr>)"

text \<open>
  The program's clients only open streams and its servers only accept them; \<open>syn_next\<close> tells
  that the next frame to receive opens a stream, which a server of the program never sends to a
  client.
\<close>

definition syn_next :: "session \<Rightarrow> bool" where
  "syn_next s \<longleftrightarrow> headerSize \<le> length (inbuf s) \<and> hdr_Cmd (inbuf s) = cmdSYN"

inductive session_step :: "session \<Rightarrow> session \<Rightarrow> bool" where
  connection: "conn_step s s' \<Longrightarrow> session_step s s'"
| open_stream: "client s \<Longrightarrow> (r, s') \<in> set (OpenStream s) \<Longrightarrow> session_step s s'"
| accept_stream: "(r, s') \<in> set (AcceptStream s) \<Longrightarrow> session_step s s'"
| receive: "client s \<longrightarrow> \<not> syn_next s \<Longrightarrow> s' \<in> set (recv_step s) \<Longrightarrow> session_step s s'"
| ping: "s' \<in> set (keepalive_ping late s) \<Longrightarrow> session_step s s'"
| timeout: "s' \<in> set (keepalive_timeout s) \<Longrightarrow> session_step s s'"
| close_session: "Session_Close s = (e, s') \<Longrightarrow> session_step s s'"
| close_stream: "k < length (objs s) \<Longrightarrow> (e, s') \<in> set (Stream_Close k s) \<Longrightarrow> session_step s s'"
| reads: "k < length (objs s) \<Longrightarrow> (r, s') \<in> set (stream_read now n k s) \<Longrightarrow> session_step s s'"
| read_waits: "k < length (objs s) \<Longrightarrow> read_parks k s \<Longrightarrow> session_step s (park k s)"
| writes: "k < length (objs s) \<Longrightarrow> (r, s') \<in> set (stream_write now b k s) \<Longrightarrow> session_step s s'"
| read_deadline: "k < length (objs s) \<Longrightarrow> session_step s (SetReadDeadline t k s)"
| write_deadline: "k < length (objs s) \<Longrightarrow> session_step s (SetWriteDeadline t k s)"

end
