(* ===== verification/SmuxInvariant.thy ===== *)
theory SmuxInvariant
  imports SmuxStream
begin

text \<open>
  The invariant of a multiplexing session and its preservation by every transition: the stream
  map is a map to distinct live objects, buffered bytes and tokens balance, the bucket stays
  within one frame of zero, stream ids are never reused, and no nil stream is dereferenced.
\<close>

section \<open>The invariant\<close>

definition map_ok :: "session \<Rightarrow> bool" where
  "map_ok s \<longleftrightarrow> keys_distinct (streams s) \<and> distinct (map snd (streams s))
     \<and> (\<forall>(i, k) \<in> set (streams s). k < length (objs s) \<and> stid (objs s ! k) = i)
     \<and> (\<forall>k < length (objs s). \<not> sdie (objs s ! k) \<longrightarrow> (stid (objs s ! k), k) \<in> set (streams s))"

definition buffers_ok :: "session \<Rightarrow> bool" where
  "buffers_ok s \<longleftrightarrow> (\<forall>st \<in> set (objs s). [] \<notin> set (buffers st))"

definition held :: "session \<Rightarrow> nat" where
  "held s = sum_list (map buffered (objs s))"

definition tokens_ok :: "session \<Rightarrow> bool" where
  "tokens_ok s \<longleftrightarrow> bucket s + int (held s) = MaxReceiveBuffer (config s)
     \<and> (die s \<or> -65535 < bucket s)"

text \<open>The ids of all streams ever created, oldest first. A client creates them with rising ids.\<close>

definition used :: "session \<Rightarrow> u32 list" where
  "used s = map stid (objs s)"

definition ids_ok :: "session \<Rightarrow> bool" where
  "ids_ok s \<longleftrightarrow> client s \<longrightarrow> odd (unat (nextStreamID s)) \<and> sorted_wrt (<) (used s)
     \<and> (goAway s \<or> (\<forall>i \<in> set (used s). i \<le> nextStreamID s))"

definition session_inv :: "session \<Rightarrow> bool" where
  "session_inv s \<longleftrightarrow> map_ok s \<and> buffers_ok s \<and> tokens_ok s \<and> ids_ok s
     \<and> set (chAccepts s) \<subseteq> {..<length (objs s)} \<and> \<not> panicked s"

lemmas inv_defs = session_inv_def map_ok_def buffers_ok_def held_def tokens_ok_def ids_ok_def used_def

text \<open>Only these fields matter to the invariant.\<close>

definition same_core :: "session \<Rightarrow> session \<Rightarrow> bool" where
  "same_core s s' \<longleftrightarrow> client s' = client s \<and> config s' = config s \<and> nextStreamID s' = nextStreamID s
     \<and> bucket s' = bucket s \<and> streams s' = streams s \<and> objs s' = objs s \<and> die s' = die s
     \<and> chAccepts s' = chAccepts s \<and> goAway s' = goAway s \<and> panicked s' = panicked s"

lemma same_core_inv: "same_core s s' \<Longrightarrow> session_inv s' = session_inv s"
  by (simp add: same_core_def inv_defs)

lemma newSession_inv: "0 < MaxReceiveBuffer c \<Longrightarrow> session_inv (newSession c cl)"
  by (simp add: inv_defs newSession_def)

section \<open>Updating one stream object\<close>

lemma held_update:
  "k < length (objs s) \<Longrightarrow>
     held (upd_obj k f s) + buffered (objs s ! k) = held s + buffered (f (objs s ! k))"
  using elem_le_sum_list [of k "map buffered (objs s)"]
  by (simp add: held_def upd_obj_def map_update sum_list_update)

lemma upd_obj_simps [simp]:
  "streams (upd_obj k f s) = streams s" "client (upd_obj k f s) = client s"
  "config (upd_obj k f s) = config s" "nextStreamID (upd_obj k f s) = nextStreamID s"
  "bucket (upd_obj k f s) = bucket s" "die (upd_obj k f s) = die s"
  "chAccepts (upd_obj k f s) = chAccepts s" "goAway (upd_obj k f s) = goAway s"
  "panicked (upd_obj k f s) = panicked s" "length (objs (upd_obj k f s)) = length (objs s)"
  "k < length (objs s) \<Longrightarrow> objs (upd_obj k f s) ! k = f (objs s ! k)"
  "j \<noteq> k \<Longrightarrow> objs (upd_obj k f s) ! j = objs s ! j"
  by (simp_all add: upd_obj_def)

lemma upd_obj_nth_cases:
  "j < length (objs s) \<Longrightarrow> objs (upd_obj k f s) ! j = objs s ! j \<or> objs (upd_obj k f s) ! j = f (objs s ! j)"
  by (cases "j = k") simp_all

lemma used_update:
  "k < length (objs s) \<Longrightarrow> stid (f (objs s ! k)) = stid (objs s ! k) \<Longrightarrow> used (upd_obj k f s) = used s"
  by (simp add: used_def upd_obj_def map_update list_update_same_conv)

lemma map_ok_update:
  assumes "map_ok s" "k < length (objs s)" "stid (f (objs s ! k)) = stid (objs s ! k)"
    and "sdie (objs s ! k) \<Longrightarrow> sdie (f (objs s ! k))"
  shows "map_ok (upd_obj k f s)"
proof -
  have "stid (objs (upd_obj k f s) ! j) = stid (objs s ! j)" for j
    using assms(2,3) by (cases "j = k") auto
  moreover have "\<not> sdie (objs (upd_obj k f s) ! j) \<Longrightarrow> \<not> sdie (objs s ! j)" for j
    using assms(2,4) by (cases "j = k") auto
  ultimately show ?thesis using assms(1) unfolding map_ok_def by simp
qed

lemma buffers_ok_update:
  "buffers_ok s \<Longrightarrow> [] \<notin> set (buffers (f (objs s ! k))) \<Longrightarrow> buffers_ok (upd_obj k f s)"
  using set_update_subset_insert [of "objs s" k] by (auto simp: buffers_ok_def upd_obj_def)

lemma session_inv_update:
  assumes inv: "session_inv s" and k: "k < length (objs s)"
    and f: "stid (f (objs s ! k)) = stid (objs s ! k)"
      "sdie (objs s ! k) \<Longrightarrow> sdie (f (objs s ! k))"
      "buffers (f (objs s ! k)) = buffers (objs s ! k)"
  shows "session_inv (upd_obj k f s)"
proof -
  from inv k have "[] \<notin> set (buffers (objs s ! k))"
    by (auto simp: session_inv_def buffers_ok_def)
  moreover have "held (upd_obj k f s) = held s"
    using held_update [OF k, of f] f(3) by (simp add: buffered_def)
  moreover note used_update [OF k, of f, OF f(1)]
  ultimately show ?thesis
    using inv k f by (auto simp: session_inv_def tokens_ok_def ids_ok_def
        intro: map_ok_update buffers_ok_update)
qed

section \<open>Frames written\<close>

lemma writeFrame_now_core:
  "(r, s') \<in> set (writeFrame_now f s) \<Longrightarrow> same_core s s'"
  by (auto simp: writeFrame_now_def Let_def notifyWriteError_def same_core_def
      split: option.splits if_splits)

lemma writeFrameInternal_core:
  "(r, s') \<in> set (writeFrameInternal f late s) \<Longrightarrow> same_core s s'"
  by (auto simp: writeFrameInternal_def same_core_def [of s s] dest: writeFrame_now_core
      split: if_splits)

lemma writeFrame_core: "(r, s') \<in> set (writeFrame f s) \<Longrightarrow> same_core s s'"
  by (simp add: writeFrame_def writeFrameInternal_core)

lemma writeFrame_now_nonempty: "writeFrame_now f s \<noteq> []"
  by (auto simp: writeFrame_now_def Let_def split: option.splits)

lemma writeFrame_nonempty: "writeFrame f s \<noteq> []"
  by (simp add: writeFrame_def writeFrameInternal_def writeFrame_now_nonempty)

section \<open>New streams\<close>

definition add_stream :: "u32 \<Rightarrow> session \<Rightarrow> session" where
  "add_stream i s =
     s\<lparr>objs := objs s @ [newStream i], streams := alist_put i (length (objs s)) (streams s)\<rparr>"

lemma add_stream_inv:
  assumes inv: "session_inv s" and new: "i \<notin> fst ` set (streams s)"
    and ids: "client s \<longrightarrow> i \<le> nextStreamID s \<and> (\<forall>j \<in> set (used s). j < i)"
  shows "session_inv (add_stream i s)"
proof -
  from inv have M: "map_ok s" by (simp add: session_inv_def)
  have small: "k < length (objs s)" if "(j, k) \<in> set (streams s)" for j k
    using M that by (auto simp: map_ok_def)
  have "map_ok (add_stream i s)"
    using M new small unfolding map_ok_def add_stream_def
    by (fastforce simp: alist_put_new nth_append less_Suc_eq newStream_def image_iff)
  moreover have "held (add_stream i s) = held s"
    by (simp add: held_def add_stream_def newStream_def buffered_def)
  moreover have "buffers_ok (add_stream i s)"
    using inv by (simp add: session_inv_def buffers_ok_def add_stream_def newStream_def)
  moreover have "ids_ok (add_stream i s)"
    using inv ids
    by (auto simp: session_inv_def ids_ok_def add_stream_def used_def sorted_wrt_append newStream_def)
  moreover have "set (chAccepts s) \<subseteq> {..<length (objs (add_stream i s))}"
    using inv by (auto simp: session_inv_def add_stream_def)
  ultimately show ?thesis
    using inv by (simp add: session_inv_def tokens_ok_def) (simp add: add_stream_def)
qed

text \<open>The next id of a client that has not run out of ids is larger than all it has used.\<close>

lemma next_id_larger:
  assumes "odd (unat (x :: u32))" "x + 2 \<noteq> (x + 2) mod 2"
  shows "x < x + 2 \<and> odd (unat (x + 2))"
proof -
  have "unat x < 2 ^ 32" using unsigned_less [of x, where ?'a = nat] by simp
  have nowrap: "unat x + 2 < 2 ^ 32"
  proof (rule ccontr)
    assume "\<not> unat x + 2 < 2 ^ 32"
    with \<open>unat x < 2 ^ 32\<close> have "unat x = 4294967294 \<or> unat x = 4294967295" by auto
    with assms(1) have "unat x = 2 ^ 32 - 1" by auto
    then have "unat x = unat (- 1 :: u32)" by (simp add: unsigned_minus_1_eq_mask mask_eq_exp_minus_1)
    then have "x = - 1" by (simp only: word_unat_eq_iff)
    with assms(2) show False by simp
  qed
  then have "unat (x + 2) = unat x + 2"
    by (simp add: unat_word_ariths)
  with assms(1) show ?thesis by (simp add: word_less_nat_alt)
qed

section \<open>Every operation keeps the invariant\<close>

lemma register_stream_inv:
  assumes "(r, s') \<in> set (register_stream i s)" "session_inv s"
    and "i \<notin> fst ` set (streams s)" "i \<le> nextStreamID s \<and> (\<forall>j \<in> set (used s). j < i)"
  shows "session_inv s'"
  using assms add_stream_inv [OF assms(2,3)] assms(4)
  by (auto simp: register_stream_def Let_def add_stream_def split: if_splits)

lemma OpenStream_inv:
  assumes st: "(r, s') \<in> set (OpenStream s)" and inv: "session_inv s" and cl: "client s"
  shows "session_inv s'"
proof (cases "die s \<or> goAway s")
  case True
  with st inv show ?thesis by (auto simp: OpenStream_def IsClosed_def split: if_splits)
next
  case False
  define i where "i = nextStreamID s + 2"
  define s1 where "s1 = s\<lparr>nextStreamID := i\<rparr>"
  show ?thesis
  proof (cases "i = i mod 2")
    case True
    from inv cl have "odd (unat (nextStreamID s))" by (simp add: session_inv_def ids_ok_def)
    then have "odd (unat i)" by (simp add: i_def unat_word_ariths dvd_mod_iff)
    moreover have "s' = s\<lparr>nextStreamID := i, goAway := True\<rparr>"
      using st False True
      by (simp add: OpenStream_def IsClosed_def Let_def flip: i_def)
    ultimately show ?thesis using inv by (simp add: inv_defs)
  next
    case ovf: False
    have ids: "ids_ok s" using inv by (simp add: session_inv_def)
    with cl False have odd: "odd (unat (nextStreamID s))"
      and le: "\<forall>j \<in> set (used s). j \<le> nextStreamID s" by (auto simp: ids_ok_def)
    have keys: "fst ` set (streams s) \<subseteq> set (used s)"
      using inv by (force simp: session_inv_def map_ok_def used_def)
    from next_id_larger [OF odd] ovf have lt: "nextStreamID s < i" and oi: "odd (unat i)"
      by (simp_all add: i_def)
    have inv1: "session_inv s1"
      using inv le lt oi by (fastforce simp: inv_defs s1_def)
    have lt_i: "\<forall>j \<in> set (used s1). j < i" using le lt by (force simp: s1_def used_def)
    have new: "i \<notin> fst ` set (streams s1)" using keys lt_i by (force simp: s1_def used_def)
    from st False ovf obtain n e s2 where w: "((n, e), s2) \<in> set (writeFrame (newFrame (ver_byte s) cmdSYN i) s1)"
      and r: "(r, s') \<in> set (case e of Some x \<Rightarrow> [(Inl x, s2)] | None \<Rightarrow> register_stream i s2)"
      by (auto simp: OpenStream_def IsClosed_def Let_def s1_def simp flip: i_def)
    note core = writeFrame_core [OF w]
    have inv2: "session_inv s2" using same_core_inv [OF core] inv1 by simp
    have "i \<notin> fst ` set (streams s2)" "i \<le> nextStreamID s2 \<and> (\<forall>j \<in> set (used s2). j < i)"
      using core new lt_i by (simp_all add: same_core_def s1_def used_def)
    with r inv2 show ?thesis
      by (auto split: option.splits intro: register_stream_inv)
  qed
qed

lemma AcceptStream_inv:
  assumes "(r, s') \<in> set (AcceptStream s)" and inv: "session_inv s"
  shows "session_inv s'"
proof -
  have "s' = s \<or> s' = s\<lparr>chAccepts := tl (chAccepts s)\<rparr>"
    using assms(1) by (cases "chAccepts s") (auto simp: AcceptStream_def)
  moreover have "session_inv (s\<lparr>chAccepts := tl (chAccepts s)\<rparr>)"
    using inv by (cases "chAccepts s") (simp_all add: inv_defs)
  ultimately show ?thesis using inv by auto
qed

lemma close_objs_nth:
  "\<forall>i \<in> set is. i < length os \<Longrightarrow> length (close_objs is os) = length os
     \<and> (\<forall>j < length os. close_objs is os ! j =
          (if j \<in> set is then (os ! j)\<lparr>sdie := True\<rparr> else os ! j))"
proof (induction "is" arbitrary: os)
  case (Cons i "is")
  have "close_objs (i # is) os = close_objs is (os[i := (os ! i)\<lparr>sdie := True\<rparr>])"
    by (simp add: close_objs_def)
  with Cons show ?case by (auto simp: nth_list_update)
qed (simp add: close_objs_def)

lemma Session_Close_inv:
  assumes "Session_Close s = (e, s')" and inv: "session_inv s"
  shows "session_inv s'"
proof (cases "die s")
  case True
  with assms show ?thesis by (simp add: Session_Close_def)
next
  case False
  let ?os = "close_objs (map snd (streams s)) (objs s)"
  have s': "s' = s\<lparr>die := True, objs := ?os, conn_closed := True\<rparr>"
    using assms(1) False by (simp add: Session_Close_def)
  have rng: "\<forall>k \<in> set (map snd (streams s)). k < length (objs s)"
    using inv by (auto simp: session_inv_def map_ok_def)
  note C = close_objs_nth [OF rng]
  have same: "stid (?os ! j) = stid (objs s ! j)" "buffers (?os ! j) = buffers (objs s ! j)"
    if "j < length (objs s)" for j using C that by auto
  have "map_ok s'"
    using inv C same unfolding session_inv_def map_ok_def s' by (force simp: image_iff)
  moreover have "held s' = held s"
    using C same by (auto simp: held_def s' buffered_def intro!: arg_cong [of _ _ sum_list] nth_equalityI)
  moreover have "buffers_ok s'"
    using inv C same unfolding session_inv_def buffers_ok_def s' all_set_conv_all_nth by simp
  moreover have "used s' = used s"
    using C same by (auto simp: used_def s' intro!: nth_equalityI)
  ultimately show ?thesis using inv C by (simp add: session_inv_def tokens_ok_def ids_ok_def s')
qed

lemma streamClosed_inv:
  assumes inv: "session_inv s" and k: "(i, k) \<in> set (streams s)"
  shows "session_inv (streamClosed i (upd_obj k (\<lambda>st. st\<lparr>sdie := True\<rparr>) s))"
proof -
  from inv have M: "map_ok s" by (simp add: session_inv_def)
  with k have klt: "k < length (objs s)" and kid: "stid (objs s ! k) = i"
    and kd: "keys_distinct (streams s)" by (auto simp: map_ok_def)
  from kd k have mo: "map_of (streams s) i = Some k" by simp
  let ?f = "\<lambda>st. st\<lparr>sdie := True, buffers := []\<rparr>"
  define t where "t = streamClosed i (upd_obj k (\<lambda>st. st\<lparr>sdie := True\<rparr>) s)"
  have t: "t = (upd_obj k ?f s)\<lparr>bucket := bucket s + int (buffered (objs s ! k)),
      streams := alist_del i (streams s)\<rparr>"
    using klt by (simp add: t_def streamClosed_def mo Let_def upd_obj_def buffered_def)
  have "map_ok (upd_obj k ?f s)" by (rule map_ok_update [OF M klt]) simp_all
  then have "map_ok t"
    using klt kid k kd unfolding map_ok_def t alist_del_def
    by (auto simp: distinct_map_filter dest: eq_key_imp_eq_value)
  moreover have "held t + buffered (objs s ! k) = held s"
    using held_update [OF klt, of ?f] by (simp add: t held_def buffered_def)
  moreover have "buffers_ok (upd_obj k ?f s)"
    using inv by (intro buffers_ok_update) (simp_all add: session_inv_def)
  then have "buffers_ok t" by (simp add: t buffers_ok_def)
  moreover have "used t = used s"
    using used_update [OF klt, of ?f] by (simp add: t used_def)
  ultimately have "session_inv t"
    using inv by (auto simp: session_inv_def tokens_ok_def ids_ok_def t)
  then show ?thesis by (simp add: t_def)
qed

lemma Stream_Close_inv:
  assumes st: "(e, s') \<in> set (Stream_Close k s)" and inv: "session_inv s"
    and k: "k < length (objs s)"
  shows "session_inv s'"
proof (cases "sdie (objs s ! k)")
  case True
  with st inv show ?thesis by (simp add: Stream_Close_def)
next
  case False
  let ?i = "stid (objs s ! k)"
  define f :: "smux_stream \<Rightarrow> smux_stream" where "f = (\<lambda>st. st\<lparr>sdie := True\<rparr>)"
  have mem: "(?i, k) \<in> set (streams s)"
    using inv k False by (auto simp: session_inv_def map_ok_def)
  from st False obtain r s2 where w: "(r, s2) \<in> set (writeFrame (newFrame (ver_byte s) cmdFIN ?i) (upd_obj k f s))"
    and s': "s' = streamClosed ?i s2"
    by (auto simp: Stream_Close_def Let_def f_def)
  have "same_core (upd_obj k f s) s2" by (rule writeFrame_core [OF w])
  then have "same_core (streamClosed ?i (upd_obj k f s)) (streamClosed ?i s2)"
    by (simp add: same_core_def streamClosed_def Let_def upd_obj_def split: option.split)
  with streamClosed_inv [OF inv mem] show ?thesis
    by (simp add: s' same_core_inv f_def)
qed

text \<open>The receive loop. A \<^verbatim>\<open>cmdSYN\<close> is only handled by servers, and only for an id not in use.\<close>

lemma recv_syn_inv:
  assumes "recv_syn i s = Next s'" and inv: "session_inv s" and "\<not> client s"
  shows "session_inv s'"
proof (cases "map_of (streams s) i")
  case None
  then have inv2: "session_inv (add_stream i s)"
    using add_stream_inv [OF inv] assms(3) by (simp add: map_of_eq_None_iff)
  moreover have "session_inv ((add_stream i s)\<lparr>chAccepts := chAccepts s @ [length (objs s)]\<rparr>)"
    using inv2 by (simp add: inv_defs) (simp add: add_stream_def)
  ultimately show ?thesis
    using assms(1) None by (auto simp: recv_syn_def Let_def add_stream_def split: if_splits)
qed (use assms in \<open>simp add: recv_syn_def\<close>)

lemma recv_fin_inv:
  assumes inv: "session_inv s"
  shows "session_inv (recv_fin i s)"
proof (cases "map_of (streams s) i")
  case (Some k)
  then have "k < length (objs s)"
    using inv by (auto simp: session_inv_def map_ok_def dest: map_of_SomeD)
  with Some show ?thesis
    unfolding recv_fin_def by (simp add: session_inv_update [OF inv] notify_stream_def)
qed (simp add: recv_fin_def inv)

lemma recv_psh_inv:
  assumes inv: "session_inv s" and bs: "bs \<noteq> []" "length bs \<le> 65535"
    and b: "die s \<or> 0 < bucket s"
  shows "session_inv (recv_psh i bs s)"
proof (cases "map_of (streams s) i")
  case (Some k)
  have M: "map_ok s" using inv by (simp add: session_inv_def)
  with Some have k: "k < length (objs s)" by (auto simp: map_ok_def dest: map_of_SomeD)
  let ?f = "\<lambda>st. notify_stream (st\<lparr>buffers := buffers st @ [bs]\<rparr>)"
  have r: "recv_psh i bs s = (upd_obj k ?f s)\<lparr>bucket := bucket s - int (length bs)\<rparr>"
    using Some by (simp add: recv_psh_def)
  have "map_ok (upd_obj k ?f s)" by (rule map_ok_update [OF M k]) (simp_all add: notify_stream_def)
  moreover have "held (upd_obj k ?f s) = held s + length bs"
    using held_update [OF k, of ?f] by (simp add: notify_stream_def buffered_def)
  moreover have "buffers_ok (upd_obj k ?f s)"
    using inv bs k by (intro buffers_ok_update) (auto simp: session_inv_def buffers_ok_def notify_stream_def)
  moreover have "used (upd_obj k ?f s) = used s"
    by (rule used_update [OF k]) (simp add: notify_stream_def)
  ultimately show ?thesis
    using inv bs b unfolding r
    by (auto simp: session_inv_def tokens_ok_def ids_ok_def map_ok_def buffers_ok_def held_def used_def)
qed (simp add: recv_psh_def inv)

lemma recv_frame_cases:
  assumes "recv_frame s = Next s'"
  defines "hdr \<equiv> inbuf s" and "rest \<equiv> drop headerSize (inbuf s)"
  defines "n \<equiv> unat (hdr_Length hdr)"
    and "s1 \<equiv> s\<lparr>inbuf := drop headerSize (inbuf s), dataReady := True\<rparr>"
  shows "s' = s1 \<or> s' = recv_stop (notifyProtoError ErrInvalidProtocol s1)
     \<or> syn_next s \<and> recv_syn (hdr_StreamID hdr) s1 = Next s'
     \<or> s' = recv_fin (hdr_StreamID hdr) s1
     \<or> 0 < n \<and> n \<le> length rest
        \<and> s' = recv_psh (hdr_StreamID hdr) (take n rest) (s1\<lparr>inbuf := drop n rest\<rparr>)
     \<or> s' = s1\<lparr>inbuf := drop szCmdUPD rest\<rparr>"
proof -
  note f = assms(1) [unfolded recv_frame_def Let_def, folded assms(2-5)]
  show ?thesis
    using f by (simp add: syn_next_def hdr_def n_def not_less split: if_splits) fastforce?
qed

lemma recv_frame_inv:
  assumes st: "recv_frame s = Next s'" and inv: "session_inv s"
    and syn: "client s \<longrightarrow> \<not> syn_next s" and b: "die s \<or> 0 < bucket s"
  shows "session_inv s'"
proof -
  let ?n = "unat (hdr_Length (inbuf s))"
  let ?rest = "drop headerSize (inbuf s)"
  have n: "?n \<le> 65535"
    using unsigned_less [of "hdr_Length (inbuf s)", where ?'a = nat] by simp
  define s1 where "s1 = s\<lparr>inbuf := ?rest, dataReady := True\<rparr>"
  have core: "same_core s s1" "\<And>x. same_core s (s1\<lparr>inbuf := x\<rparr>)"
    "\<And>e. same_core s (recv_stop (notifyProtoError e s1))"
    by (simp_all add: same_core_def s1_def recv_stop_def notifyProtoError_def)
  note inv1 = core [THEN same_core_inv, THEN iffD2, OF inv]
  have psh: "session_inv (recv_psh i (take ?n ?rest) (s1\<lparr>inbuf := drop ?n ?rest\<rparr>))"
    if "0 < ?n" "?n \<le> length ?rest" for i
    using that n b by (intro recv_psh_inv inv1) (auto simp: s1_def)
  have sy: "session_inv s'" if "syn_next s" "recv_syn i s1 = Next s'" for i
    using that syn by (intro recv_syn_inv [OF that(2) inv1(1)]) (simp add: s1_def)
  from recv_frame_cases [OF st, folded s1_def] show ?thesis
    using inv1 psh sy recv_fin_inv [OF inv1(1)] by metis
qed

lemma recv_step_inv:
  assumes st: "s' \<in> set (recv_step s)" and inv: "session_inv s"
    and syn: "client s \<longrightarrow> \<not> syn_next s"
  shows "session_inv s'"
proof -
  have "session_inv (recv_stop s)" "\<And>e. session_inv (recv_stop (notifyReadError e s))"
    using inv by (simp_all add: inv_defs recv_stop_def notifyReadError_def)
  then show ?thesis
    using st recv_frame_inv [OF _ inv syn]
    by (auto simp: recv_step_def split: if_splits received.splits)
qed

section \<open>Reads, writes and deadlines\<close>

lemma take_block_facts:
  "stid (snd (take_block n st)) = stid st" "sdie (snd (take_block n st)) = sdie st"
  "length (fst (take_block n st)) + buffered (snd (take_block n st)) = buffered st"
  "[] \<notin> set (buffers st) \<Longrightarrow> [] \<notin> set (buffers (snd (take_block n st)))"
  by (auto simp: take_block_def buffered_def split: list.split)

lemma read_block_inv:
  assumes inv: "session_inv s" and k: "k < length (objs s)"
  shows "session_inv (snd (read_block n k s))"
proof -
  let ?f = "\<lambda>st. (snd (take_block n st))\<lparr>parked := False\<rparr>"
  let ?m = "length (fst (take_block n (objs s ! k)))"
  have M: "map_ok s" and be: "[] \<notin> set (buffers (objs s ! k))"
    using inv k by (auto simp: session_inv_def buffers_ok_def)
  have r: "snd (read_block n k s) = (upd_obj k ?f s)\<lparr>bucket := bucket s + int ?m\<rparr>"
    by (simp add: read_block_def Let_def returnTokens_def)
  have "?m + buffered (?f (objs s ! k)) = buffered (objs s ! k)"
    using take_block_facts(3) [of n "objs s ! k"] by (simp add: buffered_def)
  then have "held (upd_obj k ?f s) + ?m = held s"
    using held_update [OF k, of ?f] by simp
  moreover have "map_ok (upd_obj k ?f s)"
    by (rule map_ok_update [OF M k]) (simp_all add: take_block_facts)
  moreover have "buffers_ok (upd_obj k ?f s)"
    using inv be by (intro buffers_ok_update) (auto simp: session_inv_def take_block_facts)
  moreover have "used (upd_obj k ?f s) = used s"
    by (rule used_update [OF k]) (simp add: take_block_facts)
  ultimately show ?thesis
    using inv unfolding r
    by (auto simp: session_inv_def tokens_ok_def ids_ok_def map_ok_def buffers_ok_def held_def used_def)
qed

lemma unpark_inv: "session_inv s \<Longrightarrow> k < length (objs s) \<Longrightarrow> session_inv (unpark k s)"
  by (simp add: unpark_def session_inv_update)

lemma try_read_inv:
  "(r, s') \<in> set (try_read n k s) \<Longrightarrow> session_inv s \<Longrightarrow> k < length (objs s) \<Longrightarrow> session_inv s'"
  using read_block_inv [of s k n]
  by (auto simp: try_read_def unpark_inv prod_eq_iff split: if_splits)

lemma stream_read_inv:
  assumes "(r, s') \<in> set (stream_read now n k s)" "session_inv s" "k < length (objs s)"
  shows "session_inv s'"
proof -
  let ?t = "upd_obj k (\<lambda>st. st\<lparr>readEvent := False\<rparr>) s"
  have "session_inv ?t" "k < length (objs ?t)" using assms(2,3) by (simp_all add: session_inv_update)
  with assms show ?thesis
    by (auto simp: stream_read_def unpark_inv intro: try_read_inv split: if_splits)
qed

lemma write_chunks_inv:
  assumes "(r, s') \<in> set (write_chunks late k sent bs s)" "session_inv s" "k < length (objs s)"
  shows "session_inv s' \<and> length (objs s') = length (objs s)"
  using assms
proof (induction bs arbitrary: sent s)
  case (Cons b bs)
  from Cons.prems(1) obtain n e s1 where
    w: "((n, e), s1) \<in> set (writeFrameInternal
          ((newFrame (ver_byte s) cmdPSH (stid (objs s ! k)))\<lparr>data := b\<rparr>) late s)"
    and r: "(r, s') \<in> set (let s2 = upd_obj k (\<lambda>st. st\<lparr>numWritten := numWritten st + 1,
          write_log := write_log st @ take n b\<rparr>) s1 in
        (case e of Some x \<Rightarrow> [((sent + n, Some x), s2)]
         | None \<Rightarrow> write_chunks late k (sent + n) bs s2))"
    by auto
  define s2 where "s2 = upd_obj k (\<lambda>st. st\<lparr>numWritten := numWritten st + 1,
          write_log := write_log st @ take n b\<rparr>) s1"
  note core = writeFrameInternal_core [OF w]
  have len: "length (objs s1) = length (objs s)" using core by (simp add: same_core_def)
  have "session_inv s1" using same_core_inv [OF core] Cons.prems(2) by simp
  then have "session_inv s2" "length (objs s2) = length (objs s)"
    using len Cons.prems(3) by (simp_all add: s2_def session_inv_update)
  with r Cons.prems(3) Cons.IH [of "sent + n" s2] show ?case
    by (auto simp: s2_def [symmetric] Let_def split: option.splits)
qed simp

lemma stream_write_inv:
  "(r, s') \<in> set (stream_write now b k s) \<Longrightarrow> session_inv s \<Longrightarrow> k < length (objs s)
     \<Longrightarrow> session_inv s'"
  by (auto simp: stream_write_def dest: write_chunks_inv split: if_splits)

section \<open>The invariant along a run\<close>

theorem session_step_inv: "session_step s s' \<Longrightarrow> session_inv s \<Longrightarrow> session_inv s'"
proof (induction rule: session_step.induct)
  case (connection s s')
  then have "same_core s s'"
    by cases (simp_all add: same_core_def)
  with connection show ?case by (simp add: same_core_inv)
next
  case (ping s' late s)
  then show ?case
    by (auto simp: keepalive_ping_def same_core_inv dest!: writeFrameInternal_core split: if_splits)
next
  case (timeout s' s)
  then show ?case
    using Session_Close_inv [of s] 
    by (auto simp: keepalive_timeout_def prod_eq_iff split: if_splits) (simp add: inv_defs)
qed (auto intro: OpenStream_inv AcceptStream_inv recv_step_inv Session_Close_inv Stream_Close_inv
    stream_read_inv stream_write_inv session_inv_update
    simp: park_def SetReadDeadline_def SetWriteDeadline_def notify_stream_def)

section \<open>What never changes or never comes back\<close>

text \<open>
  The role and the configuration of a session are fixed, stream objects are never removed, keep
  their id and, once closed, stay closed. When a session closes, all its streams do.
\<close>

definition evolves :: "session \<Rightarrow> session \<Rightarrow> bool" where
  "evolves s s' \<longleftrightarrow> client s' = client s \<and> config s' = config s \<and> (die s \<longrightarrow> die s')
     \<and> length (objs s) \<le> length (objs s')
     \<and> (\<forall>k < length (objs s). stid (objs s' ! k) = stid (objs s ! k)
          \<and> (sdie (objs s ! k) \<longrightarrow> sdie (objs s' ! k)))
     \<and> (die s' \<longrightarrow> die s \<or> (\<forall>k < length (objs s). sdie (objs s' ! k)))"

lemma evolves_refl [simp]: "evolves s s"
  by (simp add: evolves_def)

lemma evolves_trans: "evolves s s' \<Longrightarrow> evolves s' s'' \<Longrightarrow> evolves s s''"
  by (auto simp: evolves_def)

lemma same_core_evolves: "same_core s s' \<Longrightarrow> evolves s s'"
  by (simp add: same_core_def evolves_def)

lemma upd_obj_evolves:
  assumes "\<And>st. stid (f st) = stid st" "\<And>st. sdie st \<Longrightarrow> sdie (f st)"
  shows "evolves s (upd_obj k f s)"
proof -
  have "objs (upd_obj k f s) ! j = objs s ! j \<or> objs (upd_obj k f s) ! j = f (objs s ! j)"
    if "j < length (objs s)" for j
    using upd_obj_nth_cases [OF that] .
  with assms show ?thesis by (fastforce simp: evolves_def)
qed

lemma evolves_fields:
  "evolves s (s'\<lparr>bucket := b\<rparr>) = evolves s s'" "evolves s (s'\<lparr>streams := m\<rparr>) = evolves s s'"
  "evolves s (s'\<lparr>panicked := p\<rparr>) = evolves s s'" "evolves s (s'\<lparr>chAccepts := q\<rparr>) = evolves s s'"
  "evolves s (s'\<lparr>goAway := g\<rparr>) = evolves s s'" "evolves s (s'\<lparr>nextStreamID := i\<rparr>) = evolves s s'"
  "evolves s (s'\<lparr>inbuf := u\<rparr>) = evolves s s'" "evolves s (s'\<lparr>dataReady := d\<rparr>) = evolves s s'"
  "evolves s (s'\<lparr>recv_done := d\<rparr>) = evolves s s'" "evolves s (s'\<lparr>readError := e\<rparr>) = evolves s s'"
  "evolves s (s'\<lparr>protoError := e\<rparr>) = evolves s s'"
  by (simp_all add: evolves_def)

lemma add_stream_evolves: "evolves s (add_stream i s)"
  by (auto simp: evolves_def add_stream_def nth_append)

lemma OpenStream_evolves: "(r, s') \<in> set (OpenStream s) \<Longrightarrow> evolves s s'"
proof -
  have reg: "evolves s s'" if "(r, s') \<in> set (register_stream i s)" for r s' i and s :: session
    using that add_stream_evolves [of s i]
    by (auto simp: register_stream_def Let_def add_stream_def split: if_splits)
  have wr: "evolves s s'" if "(r, s') \<in> set (writeFrame f (s\<lparr>nextStreamID := i\<rparr>))" for r s' i f and s :: session
    using same_core_evolves [OF writeFrame_core [OF that]] by (simp add: evolves_def)
  assume "(r, s') \<in> set (OpenStream s)"
  then show ?thesis
    by (auto simp: OpenStream_def Let_def evolves_fields dest!: reg dest: wr evolves_trans split: if_splits option.splits)
qed

lemma Session_Close_evolves:
  assumes "Session_Close s = (e, s')" "session_inv s"
  shows "evolves s s'"
proof -
  have "\<forall>k \<in> set (map snd (streams s)). k < length (objs s)"
    using assms(2) by (auto simp: session_inv_def map_ok_def)
  note C = close_objs_nth [OF this]
  let ?os = "close_objs (map snd (streams s)) (objs s)"
  have "sdie (?os ! k)" if "k < length (objs s)" for k
    using C that assms(2) by (cases "sdie (objs s ! k)") (force simp: session_inv_def map_ok_def)+
  moreover have "length ?os = length (objs s)" "stid (?os ! k) = stid (objs s ! k)"
    if "k < length (objs s)" for k using C that by auto
  moreover have "length ?os = length (objs s)" using C by simp
  ultimately show ?thesis
    using assms(1) by (auto simp: Session_Close_def evolves_def split: if_splits)
qed

lemma streamClosed_evolves: "evolves s (streamClosed i s)"
  by (auto simp: streamClosed_def Let_def evolves_fields intro!: upd_obj_evolves split: option.split)

lemma Stream_Close_evolves:
  assumes "(e, s') \<in> set (Stream_Close k s)"
  shows "evolves s s'"
proof -
  have "evolves s (upd_obj k (\<lambda>st. st\<lparr>sdie := True\<rparr>) s)" by (rule upd_obj_evolves) simp_all
  with assms show ?thesis
    by (auto simp: Stream_Close_def Let_def dest!: writeFrame_core same_core_evolves split: if_splits
        intro: evolves_trans streamClosed_evolves)
qed

lemma recv_frame_evolves:
  assumes "recv_frame s = Next s'"
  shows "evolves s s'"
proof -
  define s1 where "s1 = s\<lparr>inbuf := drop headerSize (inbuf s), dataReady := True\<rparr>"
  have s1: "evolves s s1" by (simp add: s1_def evolves_fields)
  have "evolves s1 (recv_fin i s1)" for i
    by (auto simp: recv_fin_def notify_stream_def intro!: upd_obj_evolves split: option.split)
  note fin = evolves_trans [OF s1 this]
  have "evolves (s1\<lparr>inbuf := x\<rparr>) (recv_psh i bs (s1\<lparr>inbuf := x\<rparr>))" for i bs x
    by (auto simp: recv_psh_def notify_stream_def evolves_fields intro!: upd_obj_evolves
        split: option.split)
  then have psh: "evolves s (recv_psh i bs (s1\<lparr>inbuf := x\<rparr>))" for i bs x
    by (rule evolves_trans [rotated]) (simp add: s1 evolves_fields)
  have "evolves s1 s'" if "recv_syn i s1 = Next s'" for i
    using that add_stream_evolves [of s1 i]
    by (auto simp: recv_syn_def Let_def add_stream_def evolves_fields split: option.splits if_splits)
  note syn = evolves_trans [OF s1 this]
  have "evolves s (recv_stop (notifyProtoError e s1))" "evolves s (s1\<lparr>inbuf := x\<rparr>)" for e x
    using s1 by (simp_all add: recv_stop_def notifyProtoError_def evolves_fields)
  with recv_frame_cases [OF assms, folded s1_def] s1 fin psh syn show ?thesis by metis
qed

lemma recv_step_evolves: "s' \<in> set (recv_step s) \<Longrightarrow> evolves s s'"
  by (auto simp: recv_step_def recv_stop_def notifyReadError_def evolves_fields
      dest!: recv_frame_evolves [OF sym] split: if_splits received.splits)

lemma try_read_evolves: "(r, s') \<in> set (try_read n k s) \<Longrightarrow> evolves s s'"
  by (auto simp: try_read_def unpark_def read_block_def returnTokens_def Let_def evolves_fields
      take_block_facts intro!: upd_obj_evolves split: if_splits)

lemma stream_read_evolves: "(r, s') \<in> set (stream_read now n k s) \<Longrightarrow> evolves s s'"
proof -
  assume r: "(r, s') \<in> set (stream_read now n k s)"
  have "evolves s (upd_obj k (\<lambda>st. st\<lparr>readEvent := False\<rparr>) s)" "evolves s (unpark k s)"
    by (simp_all add: unpark_def upd_obj_evolves)
  with r show ?thesis
    by (auto simp: stream_read_def dest!: try_read_evolves intro: evolves_trans split: if_splits)
qed

lemma write_chunks_evolves:
  "(r, s') \<in> set (write_chunks late k sent bs s) \<Longrightarrow> evolves s s'"
proof (induction bs arbitrary: sent s)
  case (Cons b bs)
  have "evolves s (upd_obj k (\<lambda>st. st\<lparr>numWritten := numWritten st + 1,
      write_log := write_log st @ take n b\<rparr>) s1)" if "same_core s s1" for n s1
    by (rule evolves_trans [OF same_core_evolves [OF that]], rule upd_obj_evolves) simp_all
  with Cons show ?case
    by (fastforce simp: Let_def dest!: writeFrameInternal_core intro: evolves_trans
        split: option.splits)
qed simp

lemma stream_write_evolves: "(r, s') \<in> set (stream_write now b k s) \<Longrightarrow> evolves s s'"
  by (auto simp: stream_write_def dest: write_chunks_evolves split: if_splits)

theorem session_step_evolves: "session_step s s' \<Longrightarrow> session_inv s \<Longrightarrow> evolves s s'"
proof (induction rule: session_step.induct)
  case (connection s s')
  then show ?case
    by cases (simp_all add: evolves_def)
next
  case (accept_stream r s' s)
  then show ?case
    by (auto simp: AcceptStream_def evolves_fields split: list.splits if_splits)
next
  case (ping s' late s)
  then show ?case
    by (auto simp: keepalive_ping_def dest!: writeFrameInternal_core same_core_evolves split: if_splits)
next
  case (timeout s' s)
  then show ?case
    using Session_Close_evolves [of s]
    by (auto simp: keepalive_timeout_def prod_eq_iff evolves_fields split: if_splits)
qed (auto intro: OpenStream_evolves recv_step_evolves Session_Close_evolves Stream_Close_evolves
    stream_read_evolves stream_write_evolves upd_obj_evolves
    simp: park_def SetReadDeadline_def SetWriteDeadline_def notify_stream_def)

section \<open>Runs\<close>

inductive session_run :: "session \<Rightarrow> session \<Rightarrow> bool" where
  session_stop: "session_run s s"
| session_go: "session_run s s' \<Longrightarrow> session_step s' s'' \<Longrightarrow> session_run s s''"

lemma session_run_inv: "session_run s s' \<Longrightarrow> session_inv s \<Longrightarrow> session_inv s'"
  by (induction rule: session_run.induct) (auto intro: session_step_inv)

lemma session_run_evolves: "session_run s s' \<Longrightarrow> session_inv s \<Longrightarrow> evolves s s'"
proof (induction rule: session_run.induct)
  case (session_go s s' s'')
  then show ?case
    using session_step_evolves session_run_inv evolves_trans by blast
qed simp

lemma VerifyConfig_buffer: "VerifyConfig c = None \<Longrightarrow> 0 < MaxReceiveBuffer c"
  by (auto simp: VerifyConfig_def split: if_splits)

text \<open>A session made by \<^verbatim>\<open>smux.Client\<close> or \<^verbatim>\<open>smux.Server\<close>.\<close>

definition opened :: "Config \<Rightarrow> session \<Rightarrow> bool" where
  "opened c s \<longleftrightarrow> smux_Client c = Inr s \<or> smux_Server c = Inr s"

lemma opened_inv: "opened c s \<Longrightarrow> session_inv s \<and> config s = c"
proof -
  assume "opened c s"
  then obtain cl where "VerifyConfig c = None" "s = newSession c cl"
    by (auto simp: opened_def smux_Client_def smux_Server_def split: option.splits)
  with newSession_inv [OF VerifyConfig_buffer] show ?thesis by (simp add: newSession_def)
qed

section \<open>Properties of a session\<close>


text \<open>
  C18: A client session never uses a stream id twice: the ids of the streams it opened rise in the
  order of their creation, even at the end of the 32-bit id space.
\<close>

theorem client_ids_rise:
  assumes "smux_Client c = Inr s0" "session_run s0 s"
  shows "sorted_wrt (<) (map stid (objs s)) \<and> distinct (map stid (objs s))"
proof -
  from assms(1) have o: "opened c s0" and cl: "client s0"
    by (auto simp: opened_def smux_Client_def newSession_def split: option.splits)
  from opened_inv [OF o] session_run_inv [OF assms(2)] session_run_evolves [OF assms(2)] cl
  have "session_inv s" "client s" by (simp_all add: evolves_def)
  then have "sorted_wrt (<) (map stid (objs s))"
    by (simp add: session_inv_def ids_ok_def used_def)
  then show ?thesis using strict_sorted_iff by blast
qed

section \<open>A server session that receives\<close>

definition sample_config :: Config where
  "sample_config = \<lparr>Version = 1, KeepAliveInterval = 30, KeepAliveTimeout = 70,
     MaxFrameSize = 16384, MaxReceiveBuffer = 10, MaxStreamBuffer = 10\<rparr>"

definition syn_psh_bytes :: "byte list" where
  "syn_psh_bytes = frame_bytes (newFrame 1 cmdSYN 3)
     @ frame_bytes ((newFrame 1 cmdPSH 3)\<lparr>data := [7, 8, 9]\<rparr>)"

definition after_arrival :: session where
  "after_arrival = (newSession sample_config False)\<lparr>inbuf := syn_psh_bytes\<rparr>"

definition after_frames :: session where
  "after_frames = hd (recv_step (hd (recv_step after_arrival)))"

lemma after_frames_run:
  "session_run (newSession sample_config False) after_frames"
proof -
  let ?s = "newSession sample_config False" and ?t = "hd (recv_step after_arrival)"
  have "conn_step ?s (?s\<lparr>inbuf := inbuf ?s @ syn_psh_bytes\<rparr>)"
    by (rule arrive) (simp add: newSession_def)
  then have a: "session_step ?s after_arrival"
    using connection [of ?s after_arrival] by (simp add: after_arrival_def newSession_def)
  have "recv_step after_arrival \<noteq> []" "recv_step ?t \<noteq> []" "\<not> client after_arrival" "\<not> client ?t"
    by code_simp+
  then have "session_step after_arrival ?t" "session_step ?t after_frames"
    by (auto simp: after_frames_def intro!: receive)
  with a show ?thesis by (blast intro: session_run.intros)
qed

lemma sample_server: "smux_Server sample_config = Inr (newSession sample_config False)"
  by (simp add: smux_Server_def VerifyConfig_def sample_config_def)


section \<open>A client session that opens two streams\<close>

definition two_streams :: session where
  "two_streams = snd (hd (OpenStream (snd (hd (OpenStream (newSession sample_config True))))))"

theorem client_ids_rise_witness:
  "map stid (objs two_streams) = [3, 5] \<and> sorted_wrt (<) (map stid (objs two_streams))"
proof -
  let ?s = "newSession sample_config True" and ?t = "snd (hd (OpenStream (newSession sample_config True)))"
  have "OpenStream ?s \<noteq> []" "OpenStream ?t \<noteq> []" "client ?s" "client ?t" by code_simp+
  then have "(fst (hd (OpenStream ?s)), ?t) \<in> set (OpenStream ?s)"
    "(fst (hd (OpenStream ?t)), two_streams) \<in> set (OpenStream ?t)"
    by (simp_all add: two_streams_def)
  with \<open>client ?s\<close> \<open>client ?t\<close> have "session_run ?s two_streams"
    by (blast intro: session_run.intros open_stream)
  moreover have "smux_Client sample_config = Inr ?s"
    by (simp add: smux_Client_def VerifyConfig_def sample_config_def)
  ultimately have "sorted_wrt (<) (map stid (objs two_streams))"
    using client_ids_rise by blast
  moreover have "map stid (objs two_streams) = [3, 5]" by code_simp
  ultimately show ?thesis by simp
qed

end
