(* ===== verification/Tunnel.thy ===== *)
theory Tunnel
  imports NetConn
begin

text \<open>
  The tunnel of \<^verbatim>\<open>src/internal/core/common.go\<close>: \<^verbatim>\<open>firstErr\<close>, the buffer pool,
  \<^verbatim>\<open>copyBuffer\<close>, \<^verbatim>\<open>openOneWayTunnel\<close> and \<^verbatim>\<open>openTunnel\<close>. The two goroutines run interleaved:
  each statement that touches a shared object (a connection, the timeout, the first error, the
  pool) is one step, and between two steps the other goroutine and the environment may run.
\<close>

section \<open>First error\<close>

record firstErr =
  reported :: bool
  err :: "gerror option"

definition firstErr_new :: firstErr where
  "firstErr_new = \<lparr>reported = False, err = None\<rparr>"

text \<open>\<^verbatim>\<open>sync.Once\<close> runs the body for the first report only; a nil error is not stored.\<close>

definition report :: "gerror option \<Rightarrow> firstErr \<Rightarrow> firstErr" where
  "report e fe =
     (if reported fe then fe
      else \<lparr>reported = True, err = (case e of None \<Rightarrow> err fe | Some x \<Rightarrow> Some x)\<rparr>)"

definition getErr :: "firstErr \<Rightarrow> gerror option" where
  "getErr fe = err fe"

section \<open>State of a tunnel\<close>

definition defaultCopyIOBufferSize :: nat where
  "defaultCopyIOBufferSize = 16 * 1024"

definition longTimeAgo :: int where
  "longTimeAgo = 1"

text \<open>
  The direction of a goroutine: \<open>BtoA\<close> is \<^verbatim>\<open>openOneWayTunnel(a, b, ...)\<close> (the spawned one, with
  \<^verbatim>\<open>dst = a\<close> and \<^verbatim>\<open>src = b\<close>), \<open>AtoB\<close> the one that \<^verbatim>\<open>openTunnel\<close> runs itself.
\<close>

datatype dir = BtoA | AtoB

primrec other :: "dir \<Rightarrow> dir" where
  "other BtoA = AtoB"
| "other AtoB = BtoA"

text \<open>
  What the goroutines share. \<open>pool\<close> holds the lengths of the buffers in \<^verbatim>\<open>ioCopybuffPool\<close>.
  \<open>rlog\<close> is history, not program state: the calls of \<^verbatim>\<open>fe.report\<close> in the order they happened.
\<close>

record 'c shared =
  connA :: 'c
  connB :: 'c
  muTimeout :: int
  fe :: firstErr
  pool :: "nat list"
  clock :: int
  rlog :: "(dir \<times> gerror option) list"

definition src :: "dir \<Rightarrow> 'c shared \<Rightarrow> 'c" where
  "src d s = (case d of BtoA \<Rightarrow> connB s | AtoB \<Rightarrow> connA s)"

definition dst :: "dir \<Rightarrow> 'c shared \<Rightarrow> 'c" where
  "dst d s = (case d of BtoA \<Rightarrow> connA s | AtoB \<Rightarrow> connB s)"

definition set_src :: "dir \<Rightarrow> 'c \<Rightarrow> 'c shared \<Rightarrow> 'c shared" where
  "set_src d c s = (case d of BtoA \<Rightarrow> s\<lparr>connB := c\<rparr> | AtoB \<Rightarrow> s\<lparr>connA := c\<rparr>)"

definition set_dst :: "dir \<Rightarrow> 'c \<Rightarrow> 'c shared \<Rightarrow> 'c shared" where
  "set_dst d c s = (case d of BtoA \<Rightarrow> s\<lparr>connA := c\<rparr> | AtoB \<Rightarrow> s\<lparr>connB := c\<rparr>)"

text \<open>
  Where a goroutine is. The copy loop carries the bytes and the error of the last read
  (\<^verbatim>\<open>buf[0:nr]\<close>, \<^verbatim>\<open>er\<close>); \<open>ReadDL\<close> computes the deadline that \<open>SetReadDL\<close> installs, so that the
  other goroutine can change the timeout in between.
\<close>

datatype pc =
    Acquire
  | ReadDL
  | SetReadDL int
  | ReadSrc
  | WriteDL "byte list" "gerror option"
  | SetWriteDL int "byte list" "gerror option"
  | WriteDst "byte list" "gerror option"
  | Report "gerror option"
  | StoreTimeout
  | SrcDeadline
  | DstDeadline
  | CloseSrc
  | CloseDst
  | Release
  | Done
  | Panicked

text \<open>
  \<open>written\<close> is the variable of \<^verbatim>\<open>copyBuffer\<close>. History: \<open>got\<close> is everything the goroutine read,
  \<open>put\<close> everything its destination accepted, \<open>outcome\<close> the error it reported.
\<close>

record thread =
  pc :: pc
  buflen :: nat
  written :: int
  got :: "byte list"
  put :: "byte list"
  outcome :: "gerror option option"

definition thread_new :: thread where
  "thread_new = \<lparr>pc = Acquire, buflen = 0, written = 0, got = [], put = [], outcome = None\<rparr>"

section \<open>One step of openOneWayTunnel\<close>

text \<open>\<^verbatim>\<open>sync.Pool\<close> hands out any pooled buffer, or a new one; \<^verbatim>\<open>Put\<close> returns one.\<close>

definition acquireIOBuf :: "'c shared \<Rightarrow> (nat \<times> 'c shared) list" where
  "acquireIOBuf s =
     (defaultCopyIOBufferSize, s)
       # map (\<lambda>i. (pool s ! i, s\<lparr>pool := take i (pool s) @ drop (Suc i) (pool s)\<rparr>))
           [0..<length (pool s)]"

definition releaseIOBuf :: "nat \<Rightarrow> 'c shared \<Rightarrow> 'c shared" where
  "releaseIOBuf b s = s\<lparr>pool := b # pool s\<rparr>"

text \<open>
  The end of the loop body: go round again, or leave the loop with the error \<^verbatim>\<open>copyBuffer\<close>
  returns (none for \<^verbatim>\<open>io.EOF\<close>).
\<close>

definition after_read :: "gerror option \<Rightarrow> pc" where
  "after_read er =
     (case er of None \<Rightarrow> ReadDL | Some e \<Rightarrow> Report (if e \<noteq> EOF then Some e else None))"

definition after_write :: "byte list \<Rightarrow> gerror option \<Rightarrow> nat \<Rightarrow> gerror option \<Rightarrow> pc" where
  "after_write bs er nw ew =
     (case ew of
        Some e \<Rightarrow> Report (Some e)
      | None \<Rightarrow> if length bs \<noteq> nw then Report (Some ErrShortWrite) else after_read er)"

definition read_step ::
  "'c conn_ops \<Rightarrow> dir \<Rightarrow> 'c shared \<Rightarrow> thread \<Rightarrow> ('c shared \<times> thread) list" where
  "read_step ops d s t =
     map (\<lambda>((bs, er), c'). (set_src d c' s,
            t\<lparr>got := got t @ bs, pc := (if bs \<noteq> [] then WriteDL bs er else after_read er)\<rparr>))
       (c_read ops (clock s) (buflen t) (src d s))"

definition write_step ::
  "'c conn_ops \<Rightarrow> dir \<Rightarrow> byte list \<Rightarrow> gerror option \<Rightarrow> 'c shared \<Rightarrow> thread
     \<Rightarrow> ('c shared \<times> thread) list" where
  "write_step ops d bs er s t =
     map (\<lambda>((nw, ew), c'). (set_dst d c' s,
            t\<lparr>written := written t + (if nw > 0 then int nw else 0),
              put := put t @ take nw bs, pc := after_write bs er nw ew\<rparr>))
       (c_write ops (clock s) bs (dst d s))"

definition ow_step ::
  "'c conn_ops \<Rightarrow> dir \<Rightarrow> 'c shared \<Rightarrow> thread \<Rightarrow> ('c shared \<times> thread) list" where
  "ow_step ops d s t =
     (case pc t of
        Acquire \<Rightarrow>
          map (\<lambda>(b, s'). (s', t\<lparr>buflen := b, pc := (if b \<le> 0 then Panicked else ReadDL)\<rparr>))
            (acquireIOBuf s)
      | ReadDL \<Rightarrow> [(s, t\<lparr>pc := SetReadDL (clock s + muTimeout s)\<rparr>)]
      | SetReadDL dl \<Rightarrow>
          [(set_src d (c_set_read_deadline ops dl (src d s)) s, t\<lparr>pc := ReadSrc\<rparr>)]
      | ReadSrc \<Rightarrow> read_step ops d s t
      | WriteDL bs er \<Rightarrow> [(s, t\<lparr>pc := SetWriteDL (clock s + muTimeout s) bs er\<rparr>)]
      | SetWriteDL dl bs er \<Rightarrow>
          [(set_dst d (c_set_write_deadline ops dl (dst d s)) s, t\<lparr>pc := WriteDst bs er\<rparr>)]
      | WriteDst bs er \<Rightarrow> write_step ops d bs er s t
      | Report e \<Rightarrow>
          [(s\<lparr>fe := report e (fe s), rlog := rlog s @ [(d, e)]\<rparr>,
            t\<lparr>pc := StoreTimeout, outcome := Some e\<rparr>)]
      | StoreTimeout \<Rightarrow> [(s\<lparr>muTimeout := 0\<rparr>, t\<lparr>pc := SrcDeadline\<rparr>)]
      | SrcDeadline \<Rightarrow>
          [(set_src d (c_set_deadline ops longTimeAgo (src d s)) s, t\<lparr>pc := DstDeadline\<rparr>)]
      | DstDeadline \<Rightarrow>
          [(set_dst d (c_set_deadline ops longTimeAgo (dst d s)) s, t\<lparr>pc := CloseSrc\<rparr>)]
      | CloseSrc \<Rightarrow>
          map (\<lambda>(e, c'). (set_src d c' s, t\<lparr>pc := CloseDst\<rparr>)) (c_close ops (src d s))
      | CloseDst \<Rightarrow>
          map (\<lambda>(e, c'). (set_dst d c' s, t\<lparr>pc := Release\<rparr>)) (c_close ops (dst d s))
      | Release \<Rightarrow> [(releaseIOBuf (buflen t) s, t\<lparr>pc := Done\<rparr>)]
      | Done \<Rightarrow> []
      | Panicked \<Rightarrow> [])"

section \<open>openTunnel: two goroutines and the environment\<close>

type_synonym 'c tunnel = "'c shared \<times> (dir \<Rightarrow> thread)"

definition openTunnel :: "'c \<Rightarrow> 'c \<Rightarrow> int \<Rightarrow> int \<Rightarrow> nat list \<Rightarrow> 'c tunnel" where
  "openTunnel a b timeout now bufs =
     (\<lparr>connA = a, connB = b, muTimeout = timeout, fe = firstErr_new, pool = bufs, clock = now,
       rlog = []\<rparr>, \<lambda>d. thread_new)"

text \<open>After \<^verbatim>\<open>wg.Wait()\<close> the result is \<^verbatim>\<open>fe.getErr()\<close>; before, there is none.\<close>

definition openTunnel_result :: "'c tunnel \<Rightarrow> gerror option option" where
  "openTunnel_result T =
     (if pc (snd T BtoA) = Done \<and> pc (snd T AtoB) = Done then Some (getErr (fe (fst T))) else None)"

text \<open>
  A step is labelled with the goroutine that makes it, \<open>None\<close> for the environment: the peers
  change the connections, time passes, other tunnels take buffers from the pool or return
  theirs.
\<close>

inductive tunnel_step ::
  "'c conn_ops \<Rightarrow> ('c \<Rightarrow> 'c \<Rightarrow> bool) \<Rightarrow> dir option \<Rightarrow> 'c tunnel \<Rightarrow> 'c tunnel \<Rightarrow> bool"
  for ops env where
  goroutine: "(s', t') \<in> set (ow_step ops d s (th d)) \<Longrightarrow>
     tunnel_step ops env (Some d) (s, th) (s', th(d := t'))"
| peerA: "env (connA s) c' \<Longrightarrow> tunnel_step ops env None (s, th) (s\<lparr>connA := c'\<rparr>, th)"
| peerB: "env (connB s) c' \<Longrightarrow> tunnel_step ops env None (s, th) (s\<lparr>connB := c'\<rparr>, th)"
| tick: "clock s \<le> now \<Longrightarrow> tunnel_step ops env None (s, th) (s\<lparr>clock := now\<rparr>, th)"
| pool: "set bufs \<subseteq> {defaultCopyIOBufferSize} \<Longrightarrow>
     tunnel_step ops env None (s, th) (s\<lparr>pool := bufs\<rparr>, th)"

inductive_cases goroutineE: "tunnel_step ops env (Some d) T T'"
inductive_cases environmentE: "tunnel_step ops env None T T'"

text \<open>An execution, with the labels of its steps.\<close>

inductive tunnel_run ::
  "'c conn_ops \<Rightarrow> ('c \<Rightarrow> 'c \<Rightarrow> bool) \<Rightarrow> 'c tunnel \<Rightarrow> dir option list \<Rightarrow> 'c tunnel \<Rightarrow> bool"
  for ops env where
  run_nil: "tunnel_run ops env T [] T"
| run_snoc: "tunnel_run ops env T ls T' \<Longrightarrow> tunnel_step ops env l T' T'' \<Longrightarrow>
     tunnel_run ops env T (ls @ [l]) T''"

lemma src_set [simp]:
  "src d (set_src d c s) = c" "dst d (set_dst d c s) = c"
  "dst d (set_src d c s) = dst d s" "src d (set_dst d c s) = src d s"
  "src (other d) s = dst d s" "dst (other d) s = src d s"
  by (auto simp: src_def dst_def set_src_def set_dst_def split: dir.splits)

lemma shared_set [simp]:
  "muTimeout (set_src d c s) = muTimeout s" "fe (set_src d c s) = fe s"
  "pool (set_src d c s) = pool s" "clock (set_src d c s) = clock s" "rlog (set_src d c s) = rlog s"
  "muTimeout (set_dst d c s) = muTimeout s" "fe (set_dst d c s) = fe s"
  "pool (set_dst d c s) = pool s" "clock (set_dst d c s) = clock s" "rlog (set_dst d c s) = rlog s"
  by (simp_all add: set_src_def set_dst_def split: dir.splits)

lemma src_frame [simp]:
  "src d (s\<lparr>muTimeout := x\<rparr>) = src d s" "dst d (s\<lparr>muTimeout := x\<rparr>) = dst d s"
  "src d (s\<lparr>pool := p\<rparr>) = src d s" "dst d (s\<lparr>pool := p\<rparr>) = dst d s"
  "src d (s\<lparr>clock := n\<rparr>) = src d s" "dst d (s\<lparr>clock := n\<rparr>) = dst d s"
  "src d (s\<lparr>fe := f, rlog := r\<rparr>) = src d s" "dst d (s\<lparr>fe := f, rlog := r\<rparr>) = dst d s"
  by (simp_all add: src_def dst_def split: dir.splits)

lemma other_neq [simp]: "other d \<noteq> d" "d \<noteq> other d" "other (other d) = d"
  by (cases d; simp)+

lemma dir_other: "d' = d \<or> d' = other d"
  by (cases d; cases d'; simp)

section \<open>Invariants of one goroutine\<close>

text \<open>
  \<open>ends t e\<close>: the goroutine left the copy loop with error \<open>e\<close>. What its destination accepted is
  a prefix of what it read, at most one buffer is missing, and nothing is missing when \<open>e\<close> is nil.
\<close>

definition ends :: "thread \<Rightarrow> gerror option \<Rightarrow> bool" where
  "ends t e \<longleftrightarrow> (\<exists>rest. got t = put t @ rest \<and> length rest \<le> defaultCopyIOBufferSize
      \<and> (e = None \<longrightarrow> rest = []))"

definition in_flight :: "thread \<Rightarrow> byte list \<Rightarrow> bool" where
  "in_flight t bs \<longleftrightarrow> got t = put t @ bs \<and> bs \<noteq> [] \<and> length bs \<le> defaultCopyIOBufferSize
      \<and> outcome t = None"

definition thread_ok :: "thread \<Rightarrow> bool" where
  "thread_ok t \<longleftrightarrow> written t = int (length (put t))
     \<and> (pc t \<noteq> Acquire \<longrightarrow> buflen t = defaultCopyIOBufferSize)
     \<and> (case pc t of
          Acquire \<Rightarrow> got t = put t \<and> outcome t = None
        | ReadDL \<Rightarrow> got t = put t \<and> outcome t = None
        | SetReadDL dl \<Rightarrow> got t = put t \<and> outcome t = None
        | ReadSrc \<Rightarrow> got t = put t \<and> outcome t = None
        | WriteDL bs er \<Rightarrow> in_flight t bs
        | SetWriteDL dl bs er \<Rightarrow> in_flight t bs
        | WriteDst bs er \<Rightarrow> in_flight t bs
        | Report e \<Rightarrow> ends t e \<and> outcome t = None
        | Panicked \<Rightarrow> False
        | _ \<Rightarrow> (\<exists>e. outcome t = Some e \<and> ends t e))"

definition pool_ok :: "'c shared \<Rightarrow> bool" where
  "pool_ok s \<longleftrightarrow> set (pool s) \<subseteq> {defaultCopyIOBufferSize}"

lemma thread_ok_new: "thread_ok thread_new"
  by (simp add: thread_ok_def thread_new_def)

lemma thread_ok_ends: "thread_ok t \<Longrightarrow> outcome t = Some e \<Longrightarrow> ends t e"
  by (cases "pc t") (auto simp: thread_ok_def in_flight_def)

lemma thread_ok_prefix:
  assumes "thread_ok t"
  shows "\<exists>rest. got t = put t @ rest \<and> length rest \<le> defaultCopyIOBufferSize"
  using assms by (cases "pc t") (auto simp: thread_ok_def in_flight_def ends_def)

lemma acquire_buflen:
  assumes "(b, s') \<in> set (acquireIOBuf s)" "pool_ok s"
  shows "b = defaultCopyIOBufferSize \<and> pool_ok s'"
proof -
  have "set (take i (pool s) @ drop (Suc i) (pool s)) \<subseteq> set (pool s)" for i
    by (auto dest: in_set_takeD in_set_dropD)
  with assms show ?thesis
    by (auto simp: acquireIOBuf_def pool_ok_def subset_iff)
qed

lemma acquire_frame: "(b, s') \<in> set (acquireIOBuf s) \<Longrightarrow> \<exists>p. s' = s\<lparr>pool := p\<rparr>"
  by (rule exI [of _ "pool s'"]) (auto simp: acquireIOBuf_def)

lemma acquire_step:
  assumes "(s', t') \<in> set (ow_step ops d s t)" "pc t = Acquire" "pool_ok s"
  shows "t' = t\<lparr>buflen := defaultCopyIOBufferSize, pc := ReadDL\<rparr> \<and> pool_ok s'
    \<and> (\<exists>p. s' = s\<lparr>pool := p\<rparr>)"
proof -
  from assms obtain b where b: "(b, s') \<in> set (acquireIOBuf s)"
    and t': "t' = t\<lparr>buflen := b, pc := (if b \<le> 0 then Panicked else ReadDL)\<rparr>"
    by (auto simp: ow_step_def)
  from acquire_buflen [OF b assms(3)] have "b = defaultCopyIOBufferSize" "pool_ok s'" by auto
  with t' acquire_frame [OF b] show ?thesis by (simp add: defaultCopyIOBufferSize_def)
qed

lemma defaultCopyIOBufferSize_pos [simp]: "0 < defaultCopyIOBufferSize"
  by (simp add: defaultCopyIOBufferSize_def)

text \<open>How the loop is left: the last read or write decides the reported error.\<close>

lemma after_read_ok:
  assumes "written t = int (length (put t))" "buflen t = defaultCopyIOBufferSize"
    and "got t = put t" "outcome t = None" "pc t = after_read er"
  shows "thread_ok t"
  using assms by (auto simp: after_read_def thread_ok_def ends_def split: option.splits)

lemma after_write_ok:
  assumes "written t = int (length (put t))" "buflen t = defaultCopyIOBufferSize"
    and "got t = put t @ drop nw bs" "length bs \<le> defaultCopyIOBufferSize" "nw \<le> length bs"
    and "outcome t = None" "pc t = after_write bs er nw ew"
  shows "thread_ok t"
proof (cases "ew = None \<and> length bs = nw")
  case True
  with assms show ?thesis by (auto simp: after_write_def intro: after_read_ok)
next
  case False
  with assms have "\<exists>e. pc t = Report (Some e)" by (auto simp: after_write_def split: option.splits)
  with assms show ?thesis by (auto simp: thread_ok_def ends_def)
qed

context net_conn begin

lemma read_step_ok:
  assumes "(s', t') \<in> set (read_step ops d s t)" "pc t = ReadSrc" "thread_ok t" "valid (src d s)"
  shows "thread_ok t'"
proof -
  from assms(1) obtain bs er c' where r: "((bs, er), c') \<in> set (c_read ops (clock s) (buflen t) (src d s))"
    and t': "t' = t\<lparr>got := got t @ bs, pc := (if bs \<noteq> [] then WriteDL bs er else after_read er)\<rparr>"
    by (auto simp: read_step_def)
  from assms(2,3) have t: "written t = int (length (put t))" "buflen t = defaultCopyIOBufferSize"
    "got t = put t" "outcome t = None" by (auto simp: thread_ok_def)
  from read_len [OF r assms(4)] t have len: "length bs \<le> defaultCopyIOBufferSize" by simp
  show ?thesis
  proof (cases "bs = []")
    case True
    with t t' show ?thesis by (auto intro: after_read_ok)
  next
    case False
    with t t' len show ?thesis by (simp add: thread_ok_def in_flight_def)
  qed
qed

lemma write_step_ok:
  assumes "(s', t') \<in> set (write_step ops d bs er s t)" "pc t = WriteDst bs er" "thread_ok t"
    and "valid (dst d s)"
  shows "thread_ok t'"
proof -
  from assms(1) obtain nw ew c' where w: "((nw, ew), c') \<in> set (c_write ops (clock s) bs (dst d s))"
    and t': "t' = t\<lparr>written := written t + (if nw > 0 then int nw else 0),
              put := put t @ take nw bs, pc := after_write bs er nw ew\<rparr>"
    by (auto simp: write_step_def)
  from write_len [OF w assms(4)] have nw: "nw \<le> length bs" .
  from assms(2,3) have "written t = int (length (put t))" "buflen t = defaultCopyIOBufferSize"
    "got t = put t @ bs" "length bs \<le> defaultCopyIOBufferSize" "outcome t = None"
    by (auto simp: thread_ok_def in_flight_def)
  with t' nw show ?thesis
    by (intro after_write_ok [of t' nw bs]) auto
qed

lemma ow_step_thread_ok:
  assumes st: "(s', t') \<in> set (ow_step ops d s t)" and ok: "thread_ok t" "pool_ok s"
    and valid: "valid (src d s)" "valid (dst d s)"
  shows "thread_ok t'"
proof (cases "pc t")
  case Acquire
  with acquire_step [OF st] ok show ?thesis by (simp add: thread_ok_def)
next
  case ReadSrc
  with st ok valid show ?thesis by (auto simp: ow_step_def intro: read_step_ok)
next
  case (WriteDst bs er)
  with st ok valid show ?thesis by (auto simp: ow_step_def intro: write_step_ok)
qed (use st ok in \<open>auto simp: ow_step_def thread_ok_def in_flight_def ends_def\<close>)

lemma ow_step_shared_ok:
  assumes st: "(s', t') \<in> set (ow_step ops d s t)" and ok: "thread_ok t" "pool_ok s"
    and valid: "valid (src d s)" "valid (dst d s)"
  shows "pool_ok s' \<and> valid (src d s') \<and> valid (dst d s')"
proof (cases "pc t")
  case Acquire
  with acquire_step [OF st] ok valid show ?thesis by auto
qed (use st ok valid in \<open>auto simp: ow_step_def read_step_def write_step_def pool_ok_def
  releaseIOBuf_def thread_ok_def dest: valid_read valid_write intro: valid_stays\<close>)

end

section \<open>Invariants of the tunnel\<close>

text \<open>
  What the shutdown sequence guarantees at each point, and what the log of reports says about
  the first error.
\<close>

definition shutdown_ok :: "('c \<Rightarrow> bool) \<Rightarrow> dir \<Rightarrow> 'c shared \<Rightarrow> thread \<Rightarrow> bool" where
  "shutdown_ok closed d s t \<longleftrightarrow>
     (pc t \<in> {CloseDst, Release, Done} \<longrightarrow> closed (src d s))
   \<and> (pc t \<in> {Release, Done} \<longrightarrow> closed (dst d s))
   \<and> (pc t \<in> {SrcDeadline, DstDeadline, CloseSrc, CloseDst, Release, Done} \<longrightarrow> muTimeout s = 0)"

definition log_ok :: "'c shared \<Rightarrow> (dir \<Rightarrow> thread) \<Rightarrow> bool" where
  "log_ok s th \<longleftrightarrow> reported (fe s) = (rlog s \<noteq> [])
     \<and> getErr (fe s) = (case rlog s of [] \<Rightarrow> None | p # ps \<Rightarrow> snd p)
     \<and> distinct (map fst (rlog s))
     \<and> (\<forall>d e. (d, e) \<in> set (rlog s) \<longleftrightarrow> outcome (th d) = Some e)"

definition tunnel_ok :: "('c \<Rightarrow> bool) \<Rightarrow> ('c \<Rightarrow> bool) \<Rightarrow> 'c tunnel \<Rightarrow> bool" where
  "tunnel_ok closed valid T \<longleftrightarrow> valid (connA (fst T)) \<and> valid (connB (fst T)) \<and> pool_ok (fst T)
     \<and> (\<forall>d. thread_ok (snd T d) \<and> shutdown_ok closed d (fst T) (snd T d))
     \<and> log_ok (fst T) (snd T)"

lemma ow_step_frame:
  assumes "(s', t') \<in> set (ow_step ops d s t)" "\<And>e. pc t \<noteq> Report e"
  shows "fe s' = fe s \<and> rlog s' = rlog s \<and> outcome t' = outcome t"
proof (cases "pc t")
  case Acquire
  with assms obtain b where "(b, s') \<in> set (acquireIOBuf s)" "outcome t' = outcome t"
    by (auto simp: ow_step_def)
  with acquire_frame show ?thesis by fastforce
qed (use assms in \<open>auto simp: ow_step_def read_step_def write_step_def releaseIOBuf_def\<close>)

lemma ow_step_muTimeout:
  assumes "(s', t') \<in> set (ow_step ops d s t)" "muTimeout s = 0"
  shows "muTimeout s' = 0"
proof (cases "pc t")
  case Acquire
  with assms(1) obtain b where "(b, s') \<in> set (acquireIOBuf s)" by (auto simp: ow_step_def)
  with acquire_frame assms(2) show ?thesis by fastforce
qed (use assms in \<open>auto simp: ow_step_def read_step_def write_step_def releaseIOBuf_def\<close>)

lemma log_ok_step:
  assumes st: "(s', t') \<in> set (ow_step ops d s (th d))" and "log_ok s th" "thread_ok (th d)"
  shows "log_ok s' (th(d := t'))"
proof (cases "\<exists>e. pc (th d) = Report e")
  case True
  then obtain e where e: "pc (th d) = Report e" by blast
  with assms(3) have none: "outcome (th d) = None" by (auto simp: thread_ok_def)
  from assms(2) have L: "distinct (map fst (rlog s))"
    "\<And>d e. (d, e) \<in> set (rlog s) \<longleftrightarrow> outcome (th d) = Some e" by (auto simp: log_ok_def)
  from L(2) none have new: "d \<notin> fst ` set (rlog s)" by force
  from st e have s': "s' = s\<lparr>fe := report e (fe s), rlog := rlog s @ [(d, e)]\<rparr>"
    and t': "outcome t' = Some e" by (auto simp: ow_step_def)
  have "(d', e') \<in> set (rlog s') \<longleftrightarrow> outcome ((th(d := t')) d') = Some e'" for d' e'
    using L(2) none t' s' by (cases "d' = d") auto
  moreover have "distinct (map fst (rlog s'))" using L(1) new s' by simp
  moreover have "reported (fe s') = (rlog s' \<noteq> [])
     \<and> getErr (fe s') = (case rlog s' of [] \<Rightarrow> None | p # ps \<Rightarrow> snd p)"
    using assms(2) s' by (cases "rlog s") (auto simp: log_ok_def report_def getErr_def split: option.splits)
  ultimately show ?thesis by (simp add: log_ok_def)
next
  case False
  with ow_step_frame [OF st] assms(2) show ?thesis by (auto simp: log_ok_def)
qed

lemma log_ok_init: "log_ok (fst (openTunnel a b to now bufs)) (snd (openTunnel a b to now bufs))"
  by (simp add: log_ok_def openTunnel_def firstErr_new_def getErr_def thread_new_def)

context net_conn begin

lemma ow_step_closed:
  assumes st: "(s', t') \<in> set (ow_step ops d s t)" and "valid (src d s)" "valid (dst d s)"
  shows "(closed (src d s) \<longrightarrow> closed (src d s')) \<and> (closed (dst d s) \<longrightarrow> closed (dst d s'))"
proof (cases "pc t")
  case Acquire
  with st obtain b where "(b, s') \<in> set (acquireIOBuf s)" by (auto simp: ow_step_def)
  with acquire_frame show ?thesis by fastforce
qed (use assms in \<open>auto simp: ow_step_def read_step_def write_step_def releaseIOBuf_def
      intro: closed_deadline closed_read_deadline closed_write_deadline close_closed
      dest: closed_read_stays closed_write_stays\<close>)

lemma shutdown_own:
  assumes st: "(s', t') \<in> set (ow_step ops d s t)" and "valid (src d s)" "valid (dst d s)"
    and "shutdown_ok closed d s t"
  shows "shutdown_ok closed d s' t'"
proof (cases "pc t")
  case Acquire
  with st show ?thesis by (auto simp: ow_step_def shutdown_ok_def split: if_splits)
next
  case ReadSrc
  with st show ?thesis
    by (auto simp: ow_step_def read_step_def shutdown_ok_def after_read_def
        split: option.splits if_splits)
next
  case (WriteDst bs er)
  with st show ?thesis
    by (auto simp: ow_step_def write_step_def shutdown_ok_def after_write_def after_read_def
        split: option.splits if_splits)
qed (use assms in \<open>auto simp: ow_step_def shutdown_ok_def releaseIOBuf_def
      intro: closed_deadline close_closed\<close>)

lemma shutdown_other:
  assumes "(s', t') \<in> set (ow_step ops d s t)" "valid (src d s)" "valid (dst d s)"
    and "shutdown_ok closed (other d) s u"
  shows "shutdown_ok closed (other d) s' u"
  using assms(4) ow_step_closed [OF assms(1-3)] ow_step_muTimeout [OF assms(1)]
  by (auto simp: shutdown_ok_def)

lemma valid_both: "tunnel_ok closed valid (s, th) \<Longrightarrow> valid (src d s) \<and> valid (dst d s)"
  by (simp add: tunnel_ok_def src_def dst_def split: dir.splits)

lemma tunnel_ok_goroutine:
  assumes st: "(s', t') \<in> set (ow_step ops d s (th d))" and ok: "tunnel_ok closed valid (s, th)"
  shows "tunnel_ok closed valid (s', th(d := t'))"
proof -
  from ok have *: "thread_ok (th d)" "pool_ok s" "shutdown_ok closed d s (th d)" "log_ok s th"
    by (simp_all add: tunnel_ok_def)
  note valid = valid_both [OF ok, of d]
  from ow_step_shared_ok [OF st *(1,2)] valid
  have sh: "pool_ok s'" "valid (connA s')" "valid (connB s')"
    by (cases d; auto simp: src_def dst_def)+
  have "thread_ok ((th(d := t')) d') \<and> shutdown_ok closed d' s' ((th(d := t')) d')" for d'
  proof (cases "d' = d")
    case True
    with ow_step_thread_ok [OF st *(1,2)] shutdown_own [OF st _ _ *(3)] valid show ?thesis by simp
  next
    case False
    then have d': "d' = other d" using dir_other by blast
    with ok have "thread_ok (th d')" "shutdown_ok closed (other d) s (th d')"
      by (simp_all add: tunnel_ok_def)
    with shutdown_other [OF st] valid d' show ?thesis by simp
  qed
  with sh log_ok_step [where th = th, OF st *(4,1)] show ?thesis by (simp add: tunnel_ok_def)
qed

lemma tunnel_ok_peer:
  assumes ok: "tunnel_ok closed valid (s, th)" and e: "env (src d s) c'"
  shows "tunnel_ok closed valid (set_src d c' s, th)"
proof -
  note v = valid_both [OF ok, of d]
  have *: "shutdown_ok closed d' (set_src d c' s) (th d')" for d'
    using ok closed_env [OF e conjunct1 [OF v]] dir_other [of d' d]
    by (auto simp: tunnel_ok_def shutdown_ok_def)
  have "log_ok (set_src d c' s) th \<and> pool_ok (set_src d c' s)"
    using ok by (simp add: tunnel_ok_def log_ok_def pool_ok_def)
  with * ok valid_env [OF e] v show ?thesis
    by (cases d) (simp_all add: tunnel_ok_def set_src_def src_def dst_def)
qed

lemma tunnel_ok_environment:
  assumes "tunnel_step ops env None (s, th) T'" and ok: "tunnel_ok closed valid (s, th)"
  shows "tunnel_ok closed valid T'"
  using assms(1)
proof (rule environmentE)
  fix s' c' th' assume "(s, th) = (s', th')" "T' = (s'\<lparr>connA := c'\<rparr>, th')" "env (connA s') c'"
  with tunnel_ok_peer [OF ok, of AtoB c'] show ?thesis by (simp add: src_def set_src_def)
next
  fix s' c' th' assume "(s, th) = (s', th')" "T' = (s'\<lparr>connB := c'\<rparr>, th')" "env (connB s') c'"
  with tunnel_ok_peer [OF ok, of BtoA c'] show ?thesis by (simp add: src_def set_src_def)
qed (use ok in \<open>auto simp: tunnel_ok_def shutdown_ok_def log_ok_def pool_ok_def\<close>)

lemma tunnel_ok_step:
  assumes "tunnel_step ops env l T T'" "tunnel_ok closed valid T"
  shows "tunnel_ok closed valid T'"
proof (cases l)
  case None
  with assms tunnel_ok_environment show ?thesis by (cases T) blast
next
  case (Some d)
  with assms show ?thesis by (auto elim!: goroutineE intro: tunnel_ok_goroutine)
qed

lemma tunnel_ok_run:
  "tunnel_run ops env T ls T' \<Longrightarrow> tunnel_ok closed valid T \<Longrightarrow> tunnel_ok closed valid T'"
  by (induction rule: tunnel_run.induct) (auto intro: tunnel_ok_step)

lemma tunnel_ok_init:
  assumes "valid a" "valid b" "set bufs \<subseteq> {defaultCopyIOBufferSize}"
  shows "tunnel_ok closed valid (openTunnel a b to now bufs)"
  using assms log_ok_init [of a b to now bufs] thread_ok_new
  by (simp add: tunnel_ok_def openTunnel_def pool_ok_def shutdown_ok_def thread_new_def)

lemmas tunnel_reach_ok = tunnel_ok_run [OF _ tunnel_ok_init]

end

section \<open>The second goroutine stops once the first has closed both connections\<close>

text \<open>How many steps a goroutine is away from its end, once both connections are closed.\<close>

fun rank :: "pc \<Rightarrow> nat" where
  "rank Acquire = 14"
| "rank ReadDL = 13"
| "rank (SetReadDL dl) = 12"
| "rank ReadSrc = 11"
| "rank (WriteDL bs er) = 10"
| "rank (SetWriteDL dl bs er) = 9"
| "rank (WriteDst bs er) = 8"
| "rank (Report e) = 7"
| "rank StoreTimeout = 6"
| "rank SrcDeadline = 5"
| "rank DstDeadline = 4"
| "rank CloseSrc = 3"
| "rank CloseDst = 2"
| "rank Release = 1"
| "rank Done = 0"
| "rank Panicked = 0"

lemma rank_le: "rank p \<le> 14"
  by (cases p) auto

lemma Done_stays: "tunnel_step ops env l T T' \<Longrightarrow> pc (snd T d) = Done \<Longrightarrow> pc (snd T' d) = Done"
  by (auto elim!: tunnel_step.cases simp: ow_step_def)

lemma Done_stays_run:
  "tunnel_run ops env T ls T' \<Longrightarrow> pc (snd T d) = Done \<Longrightarrow> pc (snd T' d) = Done"
  by (induction rule: tunnel_run.induct) (auto intro: Done_stays)

context net_conn begin

lemma closed_read_step:
  assumes "valid (src d s)" "closed (src d s)" "0 < buflen t" "pc t = ReadSrc"
  shows "ow_step ops d s t \<noteq> [] \<and> (\<forall>(s', t') \<in> set (ow_step ops d s t). rank (pc t') < rank (pc t))"
proof -
  note C = closed_read [OF assms(1-3), of "clock s"]
  have lt: "rank (pc t') < 11" if st: "(s', t') \<in> set (read_step ops d s t)" for s' t'
  proof -
    from st obtain bs er c' where r: "((bs, er), c') \<in> set (c_read ops (clock s) (buflen t) (src d s))"
      and t': "pc t' = (if bs \<noteq> [] then WriteDL bs er else after_read er)"
      by (auto simp: read_step_def)
    from C r have "bs \<noteq> [] \<or> er \<noteq> None" by auto
    with t' show ?thesis by (auto simp: after_read_def)
  qed
  have "read_step ops d s t \<noteq> []" using C by (simp add: read_step_def)
  with lt assms(4) show ?thesis by (auto simp: ow_step_def)
qed

lemma closed_write_step:
  assumes "valid (dst d s)" "closed (dst d s)" "bs \<noteq> []" "pc t = WriteDst bs er"
  shows "ow_step ops d s t \<noteq> [] \<and> (\<forall>(s', t') \<in> set (ow_step ops d s t). rank (pc t') < rank (pc t))"
proof -
  note C = closed_write [OF assms(1-3), of "clock s"]
  have lt: "rank (pc t') < 8" if st: "(s', t') \<in> set (write_step ops d bs er s t)" for s' t'
  proof -
    from st obtain nw ew c' where r: "((nw, ew), c') \<in> set (c_write ops (clock s) bs (dst d s))"
      and t': "pc t' = after_write bs er nw ew"
      by (auto simp: write_step_def)
    from C r have "ew \<noteq> None" by auto
    with t' show ?thesis by (auto simp: after_write_def)
  qed
  have "write_step ops d bs er s t \<noteq> []" using C by (simp add: write_step_def)
  with lt assms(4) show ?thesis by (auto simp: ow_step_def)
qed

lemma closed_progress:
  assumes "valid (src d s)" "valid (dst d s)" "closed (src d s)" "closed (dst d s)"
    and "thread_ok t" "pc t \<noteq> Done"
  shows "ow_step ops d s t \<noteq> [] \<and> (\<forall>(s', t') \<in> set (ow_step ops d s t). rank (pc t') < rank (pc t))"
proof (cases "pc t")
  case Acquire
  then show ?thesis by (auto simp: ow_step_def acquireIOBuf_def)
next
  case ReadSrc
  with assms have "0 < buflen t" by (simp add: thread_ok_def)
  with ReadSrc assms show ?thesis by (intro closed_read_step)
next
  case (WriteDst bs er)
  with assms have "bs \<noteq> []" by (simp add: thread_ok_def in_flight_def)
  with WriteDst assms show ?thesis by (intro closed_write_step)
next
  case Panicked
  with assms show ?thesis by (simp add: thread_ok_def)
qed (use assms in \<open>auto simp: ow_step_def close_returns\<close>)

lemma closed_both:
  assumes "tunnel_ok closed valid (s, th)" "pc (th d) = Done"
  shows "closed (src (other d) s) \<and> closed (dst (other d) s)"
  using assms by (auto simp: tunnel_ok_def shutdown_ok_def)

lemma shutdown_progress:
  assumes ok: "tunnel_ok closed valid (s, th)" and "pc (th d) = Done" "pc (th (other d)) \<noteq> Done"
  shows "\<exists>T'. tunnel_step ops env (Some (other d)) (s, th) T'"
proof -
  from ok have "thread_ok (th (other d))" by (simp add: tunnel_ok_def)
  with closed_progress [of "other d" s "th (other d)"] closed_both [OF assms(1,2)]
    valid_both [OF ok, of d] assms(3)
  have "ow_step ops (other d) s (th (other d)) \<noteq> []" by simp
  then obtain s' t' where "(s', t') \<in> set (ow_step ops (other d) s (th (other d)))"
    by (metis list.set_intros(1) neq_Nil_conv surj_pair)
  then show ?thesis by (blast intro: tunnel_step.goroutine)
qed

lemma shutdown_rank:
  assumes "tunnel_step ops env l (s, th) (s', th')" "tunnel_ok closed valid (s, th)"
    and "pc (th d) = Done"
  shows "(if l = Some (other d) then 1 else 0) + rank (pc (th' (other d))) \<le> rank (pc (th (other d)))"
  using assms(1)
proof cases
  case (goroutine t' d')
  show ?thesis
  proof (cases "d' = d")
    case True
    with goroutine assms(3) show ?thesis by (simp add: ow_step_def)
  next
    case False
    then have d': "d' = other d" using dir_other by blast
    with goroutine have st: "(s', t') \<in> set (ow_step ops (other d) s (th (other d)))"
      and th': "th' = th(other d := t')" by simp_all
    from assms(2) have "thread_ok (th (other d))" by (simp add: tunnel_ok_def)
    moreover have "pc (th (other d)) \<noteq> Done" using st by (auto simp: ow_step_def)
    ultimately have "rank (pc t') < rank (pc (th (other d)))"
      using closed_progress [of "other d" s "th (other d)"] closed_both [OF assms(2,3)]
        valid_both [OF assms(2), of d] st by auto
    with d' th' goroutine show ?thesis by simp
  qed
qed auto

lemma shutdown_bounded:
  assumes "tunnel_run ops env T ls T'" "tunnel_ok closed valid T" "pc (snd T d) = Done"
  shows "count_list ls (Some (other d)) + rank (pc (snd T' (other d))) \<le> rank (pc (snd T (other d)))"
  using assms
proof (induction rule: tunnel_run.induct)
  case (run_snoc T ls T' l T'')
  then have ok: "tunnel_ok closed valid T'" and D: "pc (snd T' d) = Done"
    by (blast intro: tunnel_ok_run, blast intro: Done_stays_run)
  obtain s th s' th' where T: "T' = (s, th)" "T'' = (s', th')" by (cases T', cases T'')
  from shutdown_rank [of l s th s' th' d] run_snoc T ok D show ?case by auto
qed simp

end

section \<open>What the destinations receive is what the sources sent\<close>

context recording_conn begin

text \<open>The traffic of the two connections, relative to the states the tunnel was opened with.\<close>

definition traffic_ok :: "'c tunnel \<Rightarrow> 'c tunnel \<Rightarrow> bool" where
  "traffic_ok T0 T \<longleftrightarrow> (\<forall>d. taken (src d (fst T)) = taken (src d (fst T0)) @ got (snd T d)
      \<and> wrote (dst d (fst T)) = wrote (dst d (fst T0)) @ put (snd T d))"

lemma ow_step_traffic:
  assumes "(s', t') \<in> set (ow_step ops d s t)" "valid (src d s)" "valid (dst d s)"
  shows "\<exists>g p. got t' = got t @ g \<and> put t' = put t @ p
     \<and> taken (src d s') = taken (src d s) @ g \<and> wrote (dst d s') = wrote (dst d s) @ p
     \<and> taken (dst d s') = taken (dst d s) \<and> wrote (src d s') = wrote (src d s)"
proof (cases "pc t")
  case Acquire
  with assms obtain b where "(b, s') \<in> set (acquireIOBuf s)" "got t' = got t" "put t' = put t"
    by (auto simp: ow_step_def)
  with acquire_frame show ?thesis by fastforce
next
  case ReadSrc
  with assms show ?thesis
    by (auto simp: ow_step_def read_step_def dest: taken_read wrote_read)
next
  case (WriteDst bs er)
  with assms show ?thesis
    by (auto simp: ow_step_def write_step_def dest: taken_write wrote_write)
qed (use assms in \<open>auto simp: ow_step_def releaseIOBuf_def traffic_same\<close>)

lemma traffic_ok_step:
  assumes "tunnel_step ops env l T T'" "traffic_ok T0 T" and ok: "tunnel_ok closed valid T"
  shows "traffic_ok T0 T'"
  using assms(1)
proof cases
  case (goroutine s' t' d s th)
  from valid_both [of s th d] ok goroutine(2) ow_step_traffic [OF goroutine(4)] obtain g p where
    *: "got t' = got (th d) @ g" "put t' = put (th d) @ p"
     "taken (src d s') = taken (src d s) @ g" "wrote (dst d s') = wrote (dst d s) @ p"
     "taken (dst d s') = taken (dst d s)" "wrote (src d s') = wrote (src d s)" by blast
  from assms(2) goroutine(2) have T: "taken (src d' s) = taken (src d' (fst T0)) @ got (th d')"
    "wrote (dst d' s) = wrote (dst d' (fst T0)) @ put (th d')" for d'
    by (simp_all add: traffic_ok_def)
  have "taken (src d' s') = taken (src d' (fst T0)) @ got ((th(d := t')) d')
      \<and> wrote (dst d' s') = wrote (dst d' (fst T0)) @ put ((th(d := t')) d')" for d'
    using * T [of d'] dir_other [of d' d] by auto
  with goroutine(3) show ?thesis by (simp add: traffic_ok_def)
qed (use assms(2) ok in \<open>auto simp: tunnel_ok_def traffic_ok_def src_def dst_def taken_env wrote_env split: dir.splits\<close>)

lemma traffic_ok_run:
  "tunnel_run ops env T ls T' \<Longrightarrow> tunnel_ok closed valid T \<Longrightarrow> traffic_ok T0 T \<Longrightarrow> traffic_ok T0 T'"
  by (induction rule: tunnel_run.induct) (auto intro: traffic_ok_step tunnel_ok_run)

lemma traffic_ok_init: "traffic_ok (openTunnel a b to now bufs) (openTunnel a b to now bufs)"
  by (simp add: traffic_ok_def openTunnel_def thread_new_def)

end

end
