(* ===== verification/CMux.thy ===== *)
theory CMux
  imports SmuxInvariant Tunnel
begin

text \<open>
  Streams as connections: \<^verbatim>\<open>*smux.Stream\<close>, which the server hands to its handlers, and the
  client's \<^verbatim>\<open>muxStream\<close> of \<^verbatim>\<open>src/internal/core/cmux.go\<close>, which closes its session when it was
  the last stream. Both provide the interface \<open>net_conn\<close>; \<open>muxSession\<close> is the session with the
  client's limit on the number of streams.
\<close>

section \<open>muxSession and muxStream\<close>

text \<open>
  \<^verbatim>\<open>openStream\<close> and \<^verbatim>\<open>tryCloseOnIdle\<close> are critical sections of the same mutex.
\<close>

definition openStream :: "int \<Rightarrow> session \<Rightarrow> (nat res \<times> session) list" where
  "openStream maxStreamLimit s =
     (if int (NumStreams s) \<ge> maxStreamLimit then [(Inl ErrTooManyStreams, s)] else OpenStream s)"

definition tryCloseOnIdle :: "session \<Rightarrow> gerror option \<times> session" where
  "tryCloseOnIdle s = (if NumStreams s = 0 then Session_Close s else (None, s))"

definition muxStream_Close :: "nat \<Rightarrow> session \<Rightarrow> (gerror option \<times> session) list" where
  "muxStream_Close k s = map (\<lambda>(e, s1). tryCloseOnIdle s1) (Stream_Close k s)"

section \<open>The method tables\<close>

text \<open>A stream is a reference into a session: the session's state and the index of the object.\<close>

type_synonym mux_conn = "session \<times> nat"

definition keep_ref :: "nat \<Rightarrow> ('r \<times> session) list \<Rightarrow> ('r \<times> mux_conn) list" where
  "keep_ref k rs = map (\<lambda>(r, s). (r, (s, k))) rs"

definition smux_ops :: "mux_conn conn_ops" where
  "smux_ops =
     \<lparr>c_read = (\<lambda>now n (s, k). keep_ref k (stream_read now n k s)),
      c_write = (\<lambda>now bs (s, k). keep_ref k (stream_write now bs k s)),
      c_close = (\<lambda>(s, k). keep_ref k (Stream_Close k s)),
      c_set_deadline = (\<lambda>t (s, k). (SetDeadline t k s, k)),
      c_set_read_deadline = (\<lambda>t (s, k). (SetReadDeadline t k s, k)),
      c_set_write_deadline = (\<lambda>t (s, k). (SetWriteDeadline t k s, k))\<rparr>"

definition cmux_ops :: "mux_conn conn_ops" where
  "cmux_ops = smux_ops\<lparr>c_close := (\<lambda>(s, k). keep_ref k (muxStream_Close k s))\<rparr>"

definition mux_valid :: "mux_conn \<Rightarrow> bool" where
  "mux_valid c \<longleftrightarrow> session_inv (fst c) \<and> snd c < length (objs (fst c))"

definition mux_closed :: "mux_conn \<Rightarrow> bool" where
  "mux_closed c = sdie (objs (fst c) ! snd c)"

definition mux_taken :: "mux_conn \<Rightarrow> byte list" where
  "mux_taken c = read_log (objs (fst c) ! snd c)"

definition mux_wrote :: "mux_conn \<Rightarrow> byte list" where
  "mux_wrote c = write_log (objs (fst c) ! snd c)"

text \<open>
  Between two calls on a stream the session may do anything, except read from or write to that
  very stream or set its deadlines, which only its holder does.
\<close>

inductive mux_env :: "mux_conn \<Rightarrow> mux_conn \<Rightarrow> bool" where
  others: "session_step s s' \<Longrightarrow> mux_taken (s', k) = mux_taken (s, k) \<Longrightarrow>
     mux_wrote (s', k) = mux_wrote (s, k) \<Longrightarrow> readDeadline (objs s' ! k) = readDeadline (objs s ! k) \<Longrightarrow>
     writeDeadline (objs s' ! k) = writeDeadline (objs s ! k) \<Longrightarrow> mux_env (s, k) (s', k)"

lemmas mux_defs = mux_valid_def mux_closed_def mux_taken_def mux_wrote_def

lemma set_keep_ref: "(r, (s', j)) \<in> set (keep_ref k rs) \<longleftrightarrow> j = k \<and> (r, s') \<in> set rs"
  by (auto simp: keep_ref_def)

lemma keep_ref_Nil [simp]: "keep_ref k rs = [] \<longleftrightarrow> rs = []"
  by (simp add: keep_ref_def)

section \<open>What one operation does to the stream it is called on\<close>

lemma try_read_stream:
  assumes "((bs, er), s') \<in> set (try_read n k s)" "k < length (objs s)"
  shows "length bs \<le> n \<and> read_log (objs s' ! k) = read_log (objs s ! k) @ bs
     \<and> write_log (objs s' ! k) = write_log (objs s ! k)
     \<and> (0 < n \<longrightarrow> [] \<notin> set (buffers (objs s ! k)) \<longrightarrow> bs \<noteq> [] \<or> er \<noteq> None)"
  using assms
  by (auto simp: try_read_def read_block_def take_block_def unpark_def returnTokens_def Let_def
      split: if_splits list.splits)

lemma stream_read_stream:
  assumes "((bs, er), s') \<in> set (stream_read now n k s)" "k < length (objs s)"
  shows "length bs \<le> n \<and> read_log (objs s' ! k) = read_log (objs s ! k) @ bs
     \<and> write_log (objs s' ! k) = write_log (objs s ! k)
     \<and> (0 < n \<longrightarrow> [] \<notin> set (buffers (objs s ! k)) \<longrightarrow> bs \<noteq> [] \<or> er \<noteq> None)"
proof -
  let ?t = "upd_obj k (\<lambda>st. st\<lparr>readEvent := False\<rparr>) s"
  have "read_log (objs (unpark k s) ! k) = read_log (objs s ! k)"
    "write_log (objs (unpark k s) ! k) = write_log (objs s ! k)"
    using assms(2) by (simp_all add: unpark_def)
  with assms try_read_stream [of bs er s' n k s] try_read_stream [of bs er s' n k ?t]
  show ?thesis by (auto simp: stream_read_def split: if_splits)
qed

text \<open>A closed stream never blocks a reader.\<close>

lemma stream_read_closed:
  "sdie (objs s ! k) \<Longrightarrow> stream_read now n k s \<noteq> []"
  by (auto simp: stream_read_def try_read_def wait_errors_def Let_def)

lemma writeFrameInternal_data:
  "((n, e), s') \<in> set (writeFrameInternal f late s) \<Longrightarrow>
     n \<le> length (data f) \<and> (e = None \<longrightarrow> n = length (data f))"
  by (auto simp: writeFrameInternal_def writeFrame_now_def Let_def split: if_splits option.splits)

lemma write_chunks_stream:
  assumes "((m, e), s') \<in> set (write_chunks late k sent bs s)" "k < length (objs s)"
  shows "sent \<le> m \<and> m - sent \<le> length (concat bs)
     \<and> write_log (objs s' ! k) = write_log (objs s ! k) @ take (m - sent) (concat bs)
     \<and> read_log (objs s' ! k) = read_log (objs s ! k)"
  using assms
proof (induction bs arbitrary: sent s)
  case (Cons b bs)
  from Cons.prems(1) obtain n x s1 where
    w: "((n, x), s1) \<in> set (writeFrameInternal
          ((newFrame (ver_byte s) cmdPSH (stid (objs s ! k)))\<lparr>data := b\<rparr>) late s)"
    and r: "((m, e), s') \<in> set (let s2 = upd_obj k (\<lambda>st. st\<lparr>numWritten := numWritten st + 1,
          write_log := write_log st @ take n b\<rparr>) s1 in
        (case x of Some y \<Rightarrow> [((sent + n, Some y), s2)]
         | None \<Rightarrow> write_chunks late k (sent + n) bs s2))"
    by auto
  define s2 where "s2 = upd_obj k (\<lambda>st. st\<lparr>numWritten := numWritten st + 1,
          write_log := write_log st @ take n b\<rparr>) s1"
  have obj: "objs s1 = objs s"
    using writeFrameInternal_core [OF w] by (simp add: same_core_def)
  with Cons.prems(2) have k: "k < length (objs s2)"
    and log: "write_log (objs s2 ! k) = write_log (objs s ! k) @ take n b"
      "read_log (objs s2 ! k) = read_log (objs s ! k)" by (simp_all add: s2_def)
  from writeFrameInternal_data [OF w] have n: "n \<le> length b" "x = None \<longrightarrow> n = length b" by simp_all
  show ?case
  proof (cases x)
    case None
    with r s2_def have "((m, e), s') \<in> set (write_chunks late k (sent + n) bs s2)" by simp
    from Cons.IH [OF this k] log n None show ?thesis by auto
  next
    case (Some y)
    with r s2_def have "m = sent + n" "s' = s2" by simp_all
    with log n show ?thesis by auto
  qed
qed simp

lemma concat_chunks: "concat (chunks sz b) = (if sz = 0 then [] else b)"
  by (induction sz b rule: chunks.induct) (subst chunks.simps, auto)

lemma stream_write_stream:
  assumes "((m, e), s') \<in> set (stream_write now b k s)" "k < length (objs s)"
  shows "m \<le> length b \<and> write_log (objs s' ! k) = write_log (objs s ! k) @ take m b
     \<and> read_log (objs s' ! k) = read_log (objs s ! k)"
proof (cases "sdie (objs s ! k)")
  case False
  with assms(1) have w: "((m, e), s') \<in> set (write_chunks (expired (writeDeadline (objs s ! k)) now)
      k 0 (chunks (nat (MaxFrameSize (config s))) b) s)"
    by (simp add: stream_write_def)
  from write_chunks_stream [OF w assms(2)] show ?thesis
    by (auto simp: concat_chunks split: if_splits)
qed (use assms in \<open>auto simp: stream_write_def\<close>)

lemma Session_Close_stream:
  assumes "session_inv s" "k < length (objs s)"
  shows "read_log (objs (snd (Session_Close s)) ! k) = read_log (objs s ! k)
     \<and> write_log (objs (snd (Session_Close s)) ! k) = write_log (objs s ! k)"
proof -
  have "\<forall>k \<in> set (map snd (streams s)). k < length (objs s)"
    using assms(1) by (auto simp: session_inv_def map_ok_def)
  from close_objs_nth [OF this] assms(2) show ?thesis by (simp add: Session_Close_def)
qed

lemma Stream_Close_stream:
  assumes "(e, s') \<in> set (Stream_Close k s)" "k < length (objs s)" "session_inv s"
  shows "sdie (objs s' ! k) \<and> read_log (objs s' ! k) = read_log (objs s ! k)
     \<and> write_log (objs s' ! k) = write_log (objs s ! k)"
proof (cases "sdie (objs s ! k)")
  case False
  let ?f = "\<lambda>st :: smux_stream. st\<lparr>sdie := True\<rparr>"
  from assms(1) False obtain r s2 where
    w: "(r, s2) \<in> set (writeFrame (newFrame (ver_byte s) cmdFIN (stid (objs s ! k))) (upd_obj k ?f s))"
    and s': "s' = streamClosed (stid (objs s ! k)) s2"
    by (auto simp: Stream_Close_def Let_def)
  from writeFrame_core [OF w] have "objs s2 = objs (upd_obj k ?f s)" by (simp add: same_core_def)
  then have "sdie (objs s2 ! k)" "read_log (objs s2 ! k) = read_log (objs s ! k)"
    "write_log (objs s2 ! k) = write_log (objs s ! k)" "k < length (objs s2)"
    using assms(2) by simp_all
  moreover have "objs s' ! k = objs s2 ! k \<or> objs s' ! k = (objs s2 ! k)\<lparr>buffers := []\<rparr>"
    using upd_obj_nth_cases [OF \<open>k < length (objs s2)\<close>]
    by (auto simp: s' streamClosed_def Let_def split: option.split)
  ultimately show ?thesis by auto
qed (use assms in \<open>auto simp: Stream_Close_def\<close>)

lemma Stream_Close_nonempty: "Stream_Close k s \<noteq> []"
  by (simp add: Stream_Close_def Let_def writeFrame_nonempty)

lemma tryCloseOnIdle_inv: "session_inv s \<Longrightarrow> session_inv (snd (tryCloseOnIdle s))"
  using Session_Close_inv [of s] by (auto simp: tryCloseOnIdle_def prod_eq_iff)

lemma tryCloseOnIdle_evolves: "session_inv s \<Longrightarrow> evolves s (snd (tryCloseOnIdle s))"
  using Session_Close_evolves [of s] by (auto simp: tryCloseOnIdle_def prod_eq_iff)

lemma muxStream_Close_split:
  "(e, s') \<in> set (muxStream_Close k s) \<Longrightarrow>
     \<exists>e1 s1. (e1, s1) \<in> set (Stream_Close k s) \<and> s' = snd (tryCloseOnIdle s1)"
  by (auto simp: muxStream_Close_def) (metis snd_conv)

lemma muxStream_Close_stream:
  assumes "(e, s') \<in> set (muxStream_Close k s)" and k: "k < length (objs s)" and inv: "session_inv s"
  shows "session_inv s' \<and> evolves s s' \<and> sdie (objs s' ! k)
     \<and> read_log (objs s' ! k) = read_log (objs s ! k)
     \<and> write_log (objs s' ! k) = write_log (objs s ! k)"
proof -
  from muxStream_Close_split [OF assms(1)] obtain e1 s1 where
    c: "(e1, s1) \<in> set (Stream_Close k s)" and s': "s' = snd (tryCloseOnIdle s1)" by blast
  note inv1 = Stream_Close_inv [OF c inv k] and ev1 = Stream_Close_evolves [OF c]
  note st = Stream_Close_stream [OF c k inv]
  have k1: "k < length (objs s1)" using ev1 k by (simp add: evolves_def)
  have "evolves s s'" "evolves s1 s'"
    using ev1 tryCloseOnIdle_evolves [OF inv1] by (auto simp: s' intro: evolves_trans)
  moreover have "session_inv s'" by (simp add: s' tryCloseOnIdle_inv inv1)
  moreover have "read_log (objs s' ! k) = read_log (objs s1 ! k)"
    "write_log (objs s' ! k) = write_log (objs s1 ! k)"
    using Session_Close_stream [OF inv1 k1] by (auto simp: s' tryCloseOnIdle_def)
  ultimately show ?thesis using st k1 by (simp add: evolves_def)
qed

section \<open>Both kinds of stream provide net_conn\<close>

lemma evolves_ref:
  "evolves s s' \<Longrightarrow> k < length (objs s) \<Longrightarrow> k < length (objs s') \<and> (sdie (objs s ! k) \<longrightarrow> sdie (objs s' ! k))"
  by (auto simp: evolves_def)

lemma deadline_stream:
  assumes "k < length (objs s)"
  shows "length (objs (SetReadDeadline t k s)) = length (objs s)"
    "length (objs (SetWriteDeadline t k s)) = length (objs s)"
    "objs (SetReadDeadline t k s) ! k = (objs s ! k)\<lparr>readDeadline := Some t, readEvent := True\<rparr>"
    "objs (SetWriteDeadline t k s) ! k = (objs s ! k)\<lparr>writeDeadline := Some t\<rparr>"
    "session_inv s \<Longrightarrow> session_inv (SetReadDeadline t k s)"
    "session_inv s \<Longrightarrow> session_inv (SetWriteDeadline t k s)"
  using assms
  by (simp_all add: SetReadDeadline_def SetWriteDeadline_def notify_stream_def session_inv_update)

lemmas stream_ops_facts = stream_read_inv stream_write_inv
  Stream_Close_inv evolves_ref [OF stream_read_evolves] evolves_ref [OF stream_write_evolves]
  evolves_ref [OF Stream_Close_evolves] stream_read_stream stream_write_stream Stream_Close_stream

lemma mux_env_laws:
  assumes "mux_env (s, k) (s', j)" "session_inv s" "k < length (objs s)"
  shows "j = k \<and> session_inv s' \<and> k < length (objs s') \<and> (sdie (objs s ! k) \<longrightarrow> sdie (objs s' ! k))
     \<and> read_log (objs s' ! k) = read_log (objs s ! k) \<and> write_log (objs s' ! k) = write_log (objs s ! k)"
  using assms(1)
proof cases
  case others
  with assms(2) have "session_inv s'" "evolves s s'"
    using session_step_inv session_step_evolves by auto
  with others assms(3) show ?thesis by (auto simp: mux_taken_def mux_wrote_def evolves_def)
qed

lemma stream_read_nothing:
  assumes "(([], er), s') \<in> set (stream_read now n k s)" "session_inv s" "k < length (objs s)" "0 < n"
  shows "\<exists>e. er = Some e"
proof -
  have "[] \<notin> set (buffers (objs s ! k))"
    using assms(2,3) by (auto simp: session_inv_def buffers_ok_def)
  with stream_read_stream [OF assms(1,3)] assms(4) show ?thesis by auto
qed

lemma stream_write_closed:
  "sdie (objs s ! k) \<Longrightarrow> stream_write now bs k s = [((0, Some ErrClosedPipe), s)]"
  by (simp add: stream_write_def)

interpretation smux: recording_conn smux_ops mux_closed mux_valid mux_env mux_taken mux_wrote
  by unfold_locales
    (auto simp: smux_ops_def set_keep_ref mux_defs deadline_stream SetDeadline_def
        stream_read_closed Stream_Close_nonempty stream_write_closed
      dest: stream_ops_facts mux_env_laws stream_read_nothing)

lemma muxStream_Close_nonempty: "muxStream_Close k s \<noteq> []"
  by (simp add: muxStream_Close_def Stream_Close_nonempty)

lemma cmux_ops_methods:
  "c_read cmux_ops = c_read smux_ops" "c_write cmux_ops = c_write smux_ops"
  "c_set_deadline cmux_ops = c_set_deadline smux_ops"
  "c_set_read_deadline cmux_ops = c_set_read_deadline smux_ops"
  "c_set_write_deadline cmux_ops = c_set_write_deadline smux_ops"
  by (simp_all add: cmux_ops_def)

interpretation cmux: recording_conn cmux_ops mux_closed mux_valid mux_env mux_taken mux_wrote
proof unfold_locales
  show "mux_valid c'" "mux_closed c'" "mux_taken c' = mux_taken c" "mux_wrote c' = mux_wrote c"
    if "(er, c') \<in> set (c_close cmux_ops c)" "mux_valid c" for c er c'
    using that
    by (cases c; cases c'; auto simp: cmux_ops_def set_keep_ref mux_defs
        dest!: muxStream_Close_stream evolves_ref)+
  show "c_close cmux_ops c \<noteq> []" for c
    by (cases c) (simp add: cmux_ops_def muxStream_Close_nonempty)
qed (unfold cmux_ops_methods, (fact smux.read_len smux.write_len smux.valid_read smux.valid_write
    smux.valid_deadline smux.valid_read_deadline smux.valid_write_deadline smux.valid_env
    smux.closed_read_stays smux.closed_write_stays smux.closed_deadline smux.closed_read_deadline
    smux.closed_write_deadline smux.closed_env smux.closed_read smux.closed_write smux.taken_read
    smux.wrote_read smux.taken_write smux.wrote_write smux.traffic_deadline
    smux.traffic_read_deadline smux.traffic_write_deadline smux.taken_env smux.wrote_env)+)

text \<open>
  The pairs of connections the program tunnels: on the client a socket and a \<^verbatim>\<open>muxStream\<close>, on the
  server a socket and a \<^verbatim>\<open>smux.Stream\<close>.
\<close>

interpretation client_mux: two_conns tcp_ops tclosed "\<lambda>_. True" tcp_env tcp_recvd tcp_sent
    cmux_ops mux_closed mux_valid mux_env mux_taken mux_wrote
  by unfold_locales

interpretation server_mux: two_conns tcp_ops tclosed "\<lambda>_. True" tcp_env tcp_recvd tcp_sent
    smux_ops mux_closed mux_valid mux_env mux_taken mux_wrote
  by unfold_locales

end
