(* ===== verification/CoreConfig.thy ===== *)
theory CoreConfig
  imports SmuxSession
begin

text \<open>
  What every part of \<^verbatim>\<open>src/internal/core\<close> shares: the constants and the smux configuration of
  \<^verbatim>\<open>config.go\<close>, the socket options of \<^verbatim>\<open>tcp*.go\<close>, and the choice of the WebSocket subprotocol.
  Durations are nanoseconds.
\<close>

section \<open>Constants\<close>

definition second :: int where
  "second = 1000000000"

definition defaultWSIOBufferSize :: int where
  "defaultWSIOBufferSize = 32 * 1024"

definition defaultHandShakeTimeout :: int where
  "defaultHandShakeTimeout = second * 10"

definition defaultSmuxMaxStream :: int where
  "defaultSmuxMaxStream = 16"

definition defaultSmuxConfig :: Config where
  "defaultSmuxConfig =
     \<lparr>Version = 1, KeepAliveInterval = 30 * second, KeepAliveTimeout = 70 * second,
      MaxFrameSize = 16 * 1024, MaxReceiveBuffer = 256 * 1024, MaxStreamBuffer = 64 * 1024\<rparr>"

text \<open>
  The configuration passes \<^verbatim>\<open>smux.VerifyConfig\<close>, so neither \<^verbatim>\<open>smux.Client\<close> nor \<^verbatim>\<open>smux.Server\<close>
  fails in this program.
\<close>

lemma defaultSmuxConfig_ok:
  "smux_Client defaultSmuxConfig = Inr (newSession defaultSmuxConfig True)"
  "smux_Server defaultSmuxConfig = Inr (newSession defaultSmuxConfig False)"
  by (simp_all add: smux_Client_def smux_Server_def VerifyConfig_def defaultSmuxConfig_def second_def)

section \<open>Socket options\<close>

record tcpConfig =
  vpnMode :: bool
  tfo :: bool

text \<open>
  One control function per platform the build tags name; it runs on every new socket. On Android
  it dereferences the configuration before it compares it with nil.
\<close>

datatype platform = Linux | Android | Windows | OtherOS

datatype sock_action = SendFdToBypass | SetFastOpenConnect

datatype control =
    NilControl
  | Control "sock_action list"
  | ControlPanics

definition setSockOpt :: "tcpConfig option \<Rightarrow> sock_action list" where
  "setSockOpt conf =
     (case conf of None \<Rightarrow> [] | Some c \<Rightarrow> if tfo c then [SetFastOpenConnect] else [])"

definition linux_control :: "tcpConfig option \<Rightarrow> control" where
  "linux_control conf = (if conf \<noteq> None then Control (setSockOpt conf) else NilControl)"

definition android_control :: "tcpConfig option \<Rightarrow> control" where
  "android_control conf =
     (case conf of
        None \<Rightarrow> ControlPanics
      | Some c \<Rightarrow> Control ((if vpnMode c then [SendFdToBypass] else []) @ setSockOpt conf))"

definition windows_control :: "tcpConfig option \<Rightarrow> control" where
  "windows_control conf = NilControl"

definition other_control :: "tcpConfig option \<Rightarrow> control" where
  "other_control conf = NilControl"

definition getControlFunc :: "platform \<Rightarrow> tcpConfig option \<Rightarrow> control" where
  "getControlFunc p =
     (case p of Linux \<Rightarrow> linux_control | Android \<Rightarrow> android_control
              | Windows \<Rightarrow> windows_control | OtherOS \<Rightarrow> other_control)"

section \<open>The WebSocket subprotocol\<close>

definition websocketSubprotocolSmuxON :: string where
  "websocketSubprotocolSmuxON = ''smux_on''"

definition websocketSubprotocolSmuxOFF :: string where
  "websocketSubprotocolSmuxOFF = ''smux_off''"

text \<open>
  The client sends \<^verbatim>\<open>strings.Join(d.Subprotocols, ", ")\<close> as the header, the server splits it at
  commas, trims the parts and takes the first of its own protocols that the client listed
  (gorilla's \<^verbatim>\<open>Subprotocols\<close> and \<^verbatim>\<open>selectSubprotocol\<close>). An absent header is the empty string.
\<close>

definition is_space :: "char \<Rightarrow> bool" where
  "is_space c \<longleftrightarrow> c \<in> {CHR '' '', CHR 0x09, CHR 0x0A, CHR 0x0B, CHR 0x0C, CHR 0x0D}"

definition TrimSpace :: "string \<Rightarrow> string" where
  "TrimSpace s = rev (dropWhile is_space (rev (dropWhile is_space s)))"

fun join_comma :: "string list \<Rightarrow> string" where
  "join_comma [] = []"
| "join_comma [w] = w"
| "join_comma (w # v # ws) = w @ '', '' @ join_comma (v # ws)"

definition Subprotocols :: "string \<Rightarrow> string list" where
  "Subprotocols header =
     (if TrimSpace header = [] then []
      else map TrimSpace (split_on (CHR '','') (TrimSpace header)))"

fun first_common :: "string list \<Rightarrow> string list \<Rightarrow> string" where
  "first_common [] cs = []"
| "first_common (s # ss) cs = (if s \<in> set cs then s else first_common ss cs)"

definition serverSubprotocols :: "string list" where
  "serverSubprotocols = [websocketSubprotocolSmuxON, websocketSubprotocolSmuxOFF]"

definition selectSubprotocol :: "string \<Rightarrow> string" where
  "selectSubprotocol header = first_common serverSubprotocols (Subprotocols header)"

text \<open>The \<^verbatim>\<open>switch\<close> of both \<^verbatim>\<open>ServeHTTP\<close> methods: whether the connection carries streams.\<close>

definition serve_mux :: "string \<Rightarrow> bool \<Rightarrow> bool" where
  "serve_mux subprotocol enableMux =
     (if subprotocol = websocketSubprotocolSmuxON then True
      else if subprotocol = websocketSubprotocolSmuxOFF then False
      else enableMux)"

section \<open>What a handler does\<close>

text \<open>
  The calls of a handler that the outside sees, in order. A dial or an upgrade may fail; its outcome
  is an argument of the handler. \<open>Warn\<close> is an error that is logged, \<open>ServeStreams\<close> and
  \<open>ServeConn\<close> hand the connection to the code for multiplexed and for plain connections.
\<close>

datatype action =
    Warn
  | ServeStreams string
  | ServeConn string
  | Dial string
  | Tunnel int
  | CloseLeft
  | CloseRight

end
