(* ===== verification/Listening.thy ===== *)
theory Listening
  imports CoreConfig
begin

text \<open>
  Listeners: the sockets the programs listen on, with \<^verbatim>\<open>listenUnix\<close> of
  \<^verbatim>\<open>src/internal/core/common.go\<close>, the accept loop the client and the server share, and the
  listener that \<^verbatim>\<open>Close\<close> closes.
\<close>

section \<open>Opening a socket\<close>

datatype listen_action =
    RemoveAll string
  | ListenUnix string
  | ListenTCP string control

definition listenUnix :: "string \<Rightarrow> listen_action list" where
  "listenUnix addr =
     (if hasPrefix addr ''@'' then [ListenUnix addr] else [RemoveAll addr, ListenUnix addr])"

text \<open>\<^verbatim>\<open>net.ListenConfig{Control: getControlFunc(conf)}.Listen(ctx, "tcp", addr)\<close>.\<close>

definition listenTCP :: "platform \<Rightarrow> tcpConfig \<Rightarrow> string \<Rightarrow> listen_action list" where
  "listenTCP p conf addr = [ListenTCP addr (getControlFunc p (Some conf))]"

section \<open>Accepting connections\<close>

text \<open>
  The outcomes of the calls of \<^verbatim>\<open>Accept\<close>, in order. Every connection gets its goroutine; the first
  error ends the loop. \<open>None\<close> is a loop that is still waiting.
\<close>

fun accept_all :: "'c res list \<Rightarrow> 'c list \<times> gerror option" where
  "accept_all [] = ([], None)"
| "accept_all (r # rs) =
     (case r of
        Inl e \<Rightarrow> ([], Some (Errorf ''listener.Accept'' e))
      | Inr c \<Rightarrow> (case accept_all rs of (cs, e) \<Rightarrow> (c # cs, e)))"

text \<open>\<^verbatim>\<open>Close\<close> of the client and of the server: closes the listener, if there is one.\<close>

definition close_listener :: "('l \<Rightarrow> gerror option) \<Rightarrow> 'l option \<Rightarrow> gerror option" where
  "close_listener close l = (case l of Some x \<Rightarrow> close x | None \<Rightarrow> None)"

text \<open>
  The accept loop hands every connection it accepted to exactly one goroutine, in order, and
  ends only with the first error of \<^verbatim>\<open>Accept\<close>, which it reports.
\<close>

theorem accept_all_result:
  "accept_all rs =
     (map projr (takeWhile (\<lambda>r. \<not> isl r) rs),
      (case dropWhile (\<lambda>r. \<not> isl r) rs of
         [] \<Rightarrow> None
       | r # _ \<Rightarrow> Some (Errorf ''listener.Accept'' (projl r))))"
  by (induction rs) (auto split: sum.splits)

end
