(* ===== verification/NetAddr.thy ===== *)
theory NetAddr
  imports Prelude
begin

text \<open>
  The address functions of Go's package \<^verbatim>\<open>net\<close> that the program calls: \<^verbatim>\<open>JoinHostPort\<close>
  (SIP003 addresses), \<^verbatim>\<open>SplitHostPort\<close> (default server name; every \<^verbatim>\<open>Dial\<close> resolves its
  address through it) and the acceptance test of \<^verbatim>\<open>ParseIP\<close> (fallback DNS server). They follow
  the standard library of Go 1.13, the version the repository asks for.
\<close>

section \<open>JoinHostPort and SplitHostPort\<close>

definition JoinHostPort :: "string \<Rightarrow> string \<Rightarrow> string" where
  "JoinHostPort host port =
     (if CHR '':'' \<in> set host then ''['' @ host @ '']:'' @ port
      else host @ '':'' @ port)"

abbreviation missingPort :: string where
  "missingPort \<equiv> ''missing port in address''"

abbreviation tooManyColons :: string where
  "tooManyColons \<equiv> ''too many colons in address''"

text \<open>The common tail of the two branches: no bracket may be left outside the host.\<close>

definition split_tail :: "string \<Rightarrow> string \<Rightarrow> nat \<Rightarrow> nat \<Rightarrow> nat \<Rightarrow> (string \<times> string) res" where
  "split_tail hostport host j k i =
     (if CHR ''['' \<in> set (drop j hostport)
      then Inl (AddrError hostport ''unexpected '[' in address'')
      else if CHR '']'' \<in> set (drop k hostport)
      then Inl (AddrError hostport ''unexpected ']' in address'')
      else Inr (host, drop (Suc i) hostport))"

definition SplitHostPort :: "string \<Rightarrow> (string \<times> string) res" where
  "SplitHostPort hostport =
     (case last_index_byte CHR '':'' hostport of
        None \<Rightarrow> Inl (AddrError hostport missingPort)
      | Some i \<Rightarrow>
          (if hostport ! 0 = CHR ''['' then
             (case index_byte CHR '']'' hostport of
                None \<Rightarrow> Inl (AddrError hostport ''missing ']' in address'')
              | Some e \<Rightarrow>
                  (if e + 1 = length hostport then Inl (AddrError hostport missingPort)
                   else if e + 1 = i
                   then split_tail hostport (drop 1 (take e hostport)) 1 (e + 1) i
                   else if hostport ! (e + 1) = CHR '':''
                   then Inl (AddrError hostport tooManyColons)
                   else Inl (AddrError hostport missingPort)))
           else if CHR '':'' \<in> set (take i hostport) then Inl (AddrError hostport tooManyColons)
           else split_tail hostport (take i hostport) 0 0 i))"

text \<open>The host and port strings for which joining and splitting are inverse.\<close>

definition clean_host :: "string \<Rightarrow> bool" where
  "clean_host h \<longleftrightarrow> CHR ''['' \<notin> set h \<and> CHR '']'' \<notin> set h"

definition clean_port :: "string \<Rightarrow> bool" where
  "clean_port p \<longleftrightarrow> CHR ''['' \<notin> set p \<and> CHR '']'' \<notin> set p \<and> CHR '':'' \<notin> set p"

lemma SplitHostPort_plain:
  assumes "CHR '':'' \<notin> set h" "clean_host h" "clean_port p"
  shows "SplitHostPort (h @ CHR '':'' # p) = Inr (h, p)"
proof -
  have i: "last_index_byte CHR '':'' (h @ CHR '':'' # p) = Some (length h)"
    using assms(3) by (simp add: clean_port_def last_index_byte_append)
  have "(h @ CHR '':'' # p) ! 0 \<noteq> CHR ''[''"
    using assms(2) by (cases h) (auto simp: clean_host_def)
  with i assms show ?thesis
    by (simp add: SplitHostPort_def split_tail_def clean_host_def clean_port_def)
qed

lemma SplitHostPort_bracketed:
  assumes "clean_host h" "clean_port p"
  shows "SplitHostPort (CHR ''['' # h @ CHR '']'' # CHR '':'' # p) = Inr (h, p)"
proof -
  let ?s = "CHR ''['' # h @ CHR '']'' # CHR '':'' # p"
  have i: "last_index_byte CHR '':'' ?s = Some (Suc (Suc (length h)))"
    using last_index_byte_append [of "CHR '':''" p "CHR ''['' # h @ [CHR '']'']"] assms(2)
    by (simp add: clean_port_def)
  have e: "index_byte CHR '']'' ?s = Some (Suc (length h))"
    using index_byte_append [of "CHR '']''" "CHR ''['' # h" "CHR '':'' # p"] assms(1)
    by (simp add: clean_host_def)
  show ?thesis
    using assms unfolding SplitHostPort_def i e
    by (simp add: split_tail_def clean_host_def clean_port_def)
qed

lemma SplitHostPort_JoinHostPort:
  "clean_host h \<Longrightarrow> clean_port p \<Longrightarrow> SplitHostPort (JoinHostPort h p) = Inr (h, p)"
  by (simp add: JoinHostPort_def SplitHostPort_plain SplitHostPort_bracketed)

lemma SplitHostPort_no_colon:
  "CHR '':'' \<notin> set s \<Longrightarrow> SplitHostPort s = Inl (AddrError s missingPort)"
  by (simp add: SplitHostPort_def flip: last_index_byte_None)

text \<open>An unbracketed address with two colons has too many.\<close>

lemma SplitHostPort_two_colons:
  assumes "2 \<le> count_list s CHR '':''" "s ! 0 \<noteq> CHR ''[''"
  shows "SplitHostPort s = Inl (AddrError s tooManyColons)"
proof -
  have "CHR '':'' \<in> set s" using assms(1) by (metis count_notin not_numeral_le_zero)
  then obtain i where i: "last_index_byte CHR '':'' s = Some i"
    by (meson last_index_byte_None option.exhaust)
  note sp = last_index_byte_Some_split [OF this]
  have "count_list s CHR '':'' = count_list (take i s) CHR '':'' + 1"
    using sp by (metis add.commute add_Suc count_list.simps(2) count_list_append count_notin
        plus_1_eq_Suc One_nat_def)
  with assms(1) have "CHR '':'' \<in> set (take i s)"
    by (metis count_notin one_add_one add_le_cancel_right le_zero_eq zero_neq_one)
  with i assms(2) show ?thesis by (simp add: SplitHostPort_def)
qed

section \<open>ParseIP: which strings are IP addresses\<close>

text \<open>
  \<^verbatim>\<open>dtoi\<close> and \<^verbatim>\<open>xtoi\<close> read a longest run of digits with the cut-off \<^verbatim>\<open>big = 0xFFFFFF\<close>:
  \<open>None\<close> when there is no digit or the value reaches the cut-off, else the value and the number
  of bytes read. \<open>digit_of base c\<close> is the value of a digit character.
\<close>

definition digit_of :: "nat \<Rightarrow> char \<Rightarrow> nat option" where
  "digit_of base c =
     (let n = of_char c :: nat in
      if 48 \<le> n \<and> n \<le> 57 then Some (n - 48)
      else if base = 16 \<and> 97 \<le> n \<and> n \<le> 102 then Some (n - 97 + 10)
      else if base = 16 \<and> 65 \<le> n \<and> n \<le> 70 then Some (n - 65 + 10)
      else None)"

fun read_num :: "nat \<Rightarrow> nat \<Rightarrow> nat \<Rightarrow> string \<Rightarrow> (nat \<times> nat) option" where
  "read_num base n i [] = (if i = 0 then None else Some (n, i))"
| "read_num base n i (c # s) =
     (case digit_of base c of
        None \<Rightarrow> if i = 0 then None else Some (n, i)
      | Some d \<Rightarrow>
          if n * base + d \<ge> 16777215 then None else read_num base (n * base + d) (Suc i) s)"

definition dtoi :: "string \<Rightarrow> (nat \<times> nat) option" where
  "dtoi s = read_num 10 0 0 s"

definition xtoi :: "string \<Rightarrow> (nat \<times> nat) option" where
  "xtoi s = read_num 16 0 0 s"

text \<open>
  \<open>parseIPv4 k s\<close> is the loop of \<^verbatim>\<open>parseIPv4\<close> with \<open>k\<close> of its four rounds left.
\<close>

fun parseIPv4_loop :: "nat \<Rightarrow> string \<Rightarrow> bool" where
  "parseIPv4_loop 0 s = (s = [])"
| "parseIPv4_loop (Suc k) s =
     (if s = [] then False
      else let t = (if k < 3 then (if hd s = CHR ''.'' then Some (tl s) else None) else Some s) in
        (case t of
           None \<Rightarrow> False
         | Some u \<Rightarrow>
             (case dtoi u of
                None \<Rightarrow> False
              | Some (n, c) \<Rightarrow> if n > 255 then False else parseIPv4_loop k (drop c u))))"

definition parseIPv4 :: "string \<Rightarrow> bool" where
  "parseIPv4 s = parseIPv4_loop 4 s"

text \<open>
  The loop of \<^verbatim>\<open>parseIPv6\<close>: \<open>i\<close> bytes are filled, \<open>ell\<close> tells whether an ellipsis was seen.
  The final tests (whole string used, ellipsis exactly when bytes are missing) are
  \<open>finish_v6\<close>.
\<close>

definition finish_v6 :: "nat \<Rightarrow> bool \<Rightarrow> string \<Rightarrow> bool" where
  "finish_v6 i ell s = (if s \<noteq> [] then False else if i < 16 then ell else \<not> ell)"

function parseIPv6_loop :: "nat \<Rightarrow> bool \<Rightarrow> string \<Rightarrow> bool" where
  "parseIPv6_loop i ell s =
     (if \<not> i < 16 then finish_v6 i ell s
      else (case xtoi s of
          None \<Rightarrow> False
        | Some (n, c) \<Rightarrow>
            if n > 65535 then False
            else if c < length s \<and> s ! c = CHR ''.'' then
              (if \<not> ell \<and> i \<noteq> 12 then False
               else if i + 4 > 16 then False
               else if \<not> parseIPv4 s then False
               else finish_v6 (i + 4) ell [])
            else let t = drop c s in
              (if t = [] then finish_v6 (i + 2) ell []
               else if hd t \<noteq> CHR '':'' \<or> length t = 1 then False
               else let u = tl t in
                 (if hd u = CHR '':'' then
                    (if ell then False
                     else if tl u = [] then finish_v6 (i + 2) True []
                     else parseIPv6_loop (i + 2) True (tl u))
                  else parseIPv6_loop (i + 2) ell u))))"
  by pat_completeness auto
termination
  by (relation "measure (\<lambda>(i, ell, s). 16 - i)") auto

declare parseIPv6_loop.simps [simp del]

definition parseIPv6 :: "string \<Rightarrow> bool" where
  "parseIPv6 s =
     (if take 2 s = ''::'' then
        (if drop 2 s = [] then True else parseIPv6_loop 0 True (drop 2 s))
      else parseIPv6_loop 0 False s)"

text \<open>\<^verbatim>\<open>ParseIP(s) != nil\<close>: the first dot or colon chooses the syntax.\<close>

fun ParseIP_scan :: "string \<Rightarrow> string \<Rightarrow> bool" where
  "ParseIP_scan s [] = False"
| "ParseIP_scan s (c # r) =
     (if c = CHR ''.'' then parseIPv4 s
      else if c = CHR '':'' then parseIPv6 s
      else ParseIP_scan s r)"

definition ParseIP :: "string \<Rightarrow> bool" where
  "ParseIP s = ParseIP_scan s s"

section \<open>No accepted IP address carries a port\<close>

lemma read_num_digits:
  "read_num b n i s = Some (m, c) \<Longrightarrow>
     i \<le> c \<and> c - i \<le> length s \<and> (\<forall>x \<in> set (take (c - i) s). digit_of b x \<noteq> None) \<and> 0 < c"
proof (induction b n i s arbitrary: m c rule: read_num.induct)
  case (2 base n i x s)
  show ?case
  proof (cases "digit_of base x")
    case None
    with "2.prems" show ?thesis by (auto split: if_splits)
  next
    case (Some d)
    with "2.prems" have rec: "read_num base (n * base + d) (Suc i) s = Some (m, c)"
      and small: "\<not> n * base + d \<ge> 16777215"
      by (auto split: if_splits)
    from "2.IH" [OF Some small rec] have IH:
      "Suc i \<le> c" "c - Suc i \<le> length s" "\<forall>y \<in> set (take (c - Suc i) s). digit_of base y \<noteq> None"
      by auto
    from IH(1) have "c - i = Suc (c - Suc i)" by simp
    with IH Some show ?thesis by auto
  qed
qed (auto split: if_splits)

lemma digit_of_not_punct:
  "digit_of b x \<noteq> None \<Longrightarrow> x \<noteq> CHR '':'' \<and> x \<noteq> CHR ''[''"
  by (auto simp: digit_of_def)

lemma parseIPv4_loop_no_colon: "parseIPv4_loop k s \<Longrightarrow> CHR '':'' \<notin> set s"
proof (induction k arbitrary: s)
  case (Suc k)
  from Suc.prems obtain u n c where
    su: "s = u \<or> s = CHR ''.'' # u" and d: "dtoi u = Some (n, c)"
    and rec: "parseIPv4_loop k (drop c u)"
    by (cases s) (auto simp: Let_def split: if_splits option.splits)
  from read_num_digits [OF d [unfolded dtoi_def]]
  have "\<forall>x \<in> set (take c u). digit_of 10 x \<noteq> None" by simp
  then have "CHR '':'' \<notin> set (take c u)" using digit_of_not_punct by blast
  moreover have "CHR '':'' \<notin> set (drop c u)" using Suc.IH [OF rec] .
  ultimately have "CHR '':'' \<notin> set u" by (metis UnE append_take_drop_id set_append)
  with su show ?case by auto
qed simp

text \<open>
  In the IPv6 loop every group but the last consumes a colon: an accepted rest either follows an
  ellipsis, or contains one (two colons), or has enough colons to fill the sixteen bytes.
\<close>

lemma parseIPv6_loop_colons:
  "parseIPv6_loop i ell s \<Longrightarrow>
     ell \<or> 2 \<le> count_list s CHR '':'' \<or> 12 \<le> i + 2 * count_list s CHR '':''"
proof (induction i ell s rule: parseIPv6_loop.induct)
  case (1 i ell s)
  note unf = "1.prems" [unfolded parseIPv6_loop.simps [of i ell s]]
  show ?case
  proof (cases "i < 16 \<and> \<not> ell")
    case False
    with unf show ?thesis by (auto simp: finish_v6_def)
  next
    case True
    with unf obtain n c where x: "xtoi s = Some (n, c)" and n: "\<not> n > 65535"
      by (auto split: option.splits if_splits)
    have cs: "count_list (drop c s) CHR '':'' \<le> count_list s CHR '':''"
      by (metis append_take_drop_id count_list_append le_add2)
    show ?thesis
    proof (cases "c < length s \<and> s ! c = CHR ''.''")
      case dot: True
      with True unf x n show ?thesis
        by (auto split: if_splits)
    next
      case nodot: False
      show ?thesis
      proof (cases "drop c s")
        case Nil
        with nodot True unf x n show ?thesis
          by (auto simp: finish_v6_def Let_def split: if_splits)
      next
        case (Cons y u)
        have sim: "hd (drop c s) = y" "tl (drop c s) = u" using Cons by simp_all
        from nodot True unf x n Cons have y: "y = CHR '':''" and u: "u \<noteq> []"
          by (auto simp: Let_def split: if_splits)
        have cnt: "Suc (count_list u CHR '':'') \<le> count_list s CHR '':''"
          using cs Cons y by simp
        show ?thesis
        proof (cases "hd u = CHR '':''")
          case colon: True
          then have "1 \<le> count_list u CHR '':''" using u by (cases u) auto
          with cnt show ?thesis by simp
        next
          case False
          have rec: "parseIPv6_loop (i + 2) ell u"
            using nodot True unf x n Cons y u False
            by (auto simp: Let_def split: if_splits)
          have "ell \<or> 2 \<le> count_list u CHR '':'' \<or> 12 \<le> i + 2 + 2 * count_list u CHR '':''"
            by (rule "1.IH"(2) [of "(n, c)" n c "drop c s" u])
              (use True x n nodot y u False Cons rec in auto)
          with cnt True show ?thesis by auto
        qed
      qed
    qed
  qed
qed

lemma xtoi_first: "xtoi s = Some r \<Longrightarrow> s ! 0 \<noteq> CHR ''[''"
  by (cases s) (auto simp: xtoi_def digit_of_def split: option.splits if_splits)

lemma parseIPv6_split_fails:
  assumes "parseIPv6 s"
  shows "SplitHostPort s = Inl (AddrError s tooManyColons)"
proof (rule SplitHostPort_two_colons)
  show "2 \<le> count_list s CHR '':''"
  proof (cases "take 2 s = ''::''")
    case True
    then have "s = CHR '':'' # CHR '':'' # drop 2 s"
      by (metis append_Cons append_Nil append_take_drop_id)
    then have "count_list s CHR '':'' = Suc (Suc (count_list (drop 2 s) CHR '':''))"
      by (metis count_list.simps(2) add.commute plus_1_eq_Suc)
    then show ?thesis by simp
  next
    case False
    with assms have "parseIPv6_loop 0 False s" by (simp add: parseIPv6_def)
    from parseIPv6_loop_colons [OF this] show ?thesis by auto
  qed
  show "s ! 0 \<noteq> CHR ''[''"
  proof (cases "take 2 s = ''::''")
    case True
    then show ?thesis by (cases s) auto
  next
    case False
    with assms have "parseIPv6_loop 0 False s" by (simp add: parseIPv6_def)
    then obtain r where "xtoi s = Some r"
      by (auto simp: parseIPv6_loop.simps [of 0 False s] split: option.splits)
    then show ?thesis by (rule xtoi_first)
  qed
qed

lemma ParseIP_scan_cases: "ParseIP_scan s r \<Longrightarrow> parseIPv4 s \<or> parseIPv6 s"
  by (induction s r rule: ParseIP_scan.induct) (auto split: if_splits)

lemma ParseIP_split_fails:
  assumes "ParseIP s"
  shows "\<exists>why. SplitHostPort s = Inl (AddrError s why)"
proof -
  from assms have "parseIPv4 s \<or> parseIPv6 s"
    unfolding ParseIP_def by (rule ParseIP_scan_cases)
  then show ?thesis
  proof
    assume "parseIPv4 s"
    then have "CHR '':'' \<notin> set s" unfolding parseIPv4_def by (rule parseIPv4_loop_no_colon)
    then show ?thesis by (auto intro: SplitHostPort_no_colon)
  next
    assume "parseIPv6 s"
    then show ?thesis by (auto dest: parseIPv6_split_fails)
  qed
qed

text \<open>For evaluation: the four rounds of \<^verbatim>\<open>parseIPv4\<close>.\<close>

lemma parseIPv4_rounds: "parseIPv4 s = parseIPv4_loop (Suc (Suc (Suc (Suc 0)))) s"
  by (simp add: parseIPv4_def numeral_eq_Suc)

end
