(* ===== verification/ClientConf.thy ===== *)
theory ClientConf
  imports Listening NetAddr
begin

text \<open>
  The client's configuration and \<^verbatim>\<open>NewClient\<close> (\<^verbatim>\<open>src/internal/core/client.go\<close>).
\<close>

section \<open>State\<close>

record ClientConfig =
  BindAddr :: string
  RemoteAddr :: string
  EnableWSS :: bool
  WSSPath :: string
  EnableMux :: bool
  MuxMaxStream :: int
  ServerName :: string
  InsecureSkipVerify :: bool
  Timeout :: int
  EnableTFO :: bool
  VpnMode :: bool
  FallbackDNS :: string
  Verbose :: bool

text \<open>
  The fields \<^verbatim>\<open>NewClient\<close> sets of the client, of its \<^verbatim>\<open>tls.Config\<close> and of its
  \<^verbatim>\<open>websocket.Dialer\<close>.
\<close>

record tlsConfig =
  tls_InsecureSkipVerify :: bool
  tls_ServerName :: string

record wsDialer =
  ws_tls :: tlsConfig
  ws_ReadBufferSize :: int
  ws_WriteBufferSize :: int
  ws_HandshakeTimeout :: int
  ws_Subprotocols :: "string list"

record Client =
  conf :: ClientConfig
  tlsConf :: tlsConfig
  tcpConfig :: tcpConfig
  wssURL :: string
  wsDialer :: wsDialer
  netDialer_Timeout :: int
  netDialer_Control :: "platform \<Rightarrow> control"
  smuxConfig :: Config
  debugLog :: bool

section \<open>NewClient\<close>

text \<open>
  \<^verbatim>\<open>NewClient\<close> writes to the configuration it is given and to the process-wide resolver;
  \<open>resolver\<close> is the address that resolver dials instead of the system's, if one is set. The
  result has the configuration and the resolver as they are when the function returns.
\<close>

definition err_fallback :: "string \<Rightarrow> gerror" where
  "err_fallback dns = NewError (''fallback dns server must be an IP addr, got '' @ dns)"

definition fill_ServerName :: "ClientConfig \<Rightarrow> ClientConfig res" where
  "fill_ServerName c =
     (if ServerName c = [] then
        (case SplitHostPort (RemoteAddr c) of
           Inl e \<Rightarrow> Inl (NewError ''cannot get the host address from the remote server address'')
         | Inr (host, port) \<Rightarrow> Inr (c\<lparr>ServerName := host\<rparr>))
      else Inr c)"

definition fill_WSSPath :: "ClientConfig \<Rightarrow> ClientConfig" where
  "fill_WSSPath c = (if \<not> hasPrefix (WSSPath c) ''/'' then c\<lparr>WSSPath := ''/'' @ WSSPath c\<rparr> else c)"

definition make_client :: "ClientConfig \<Rightarrow> Client" where
  "make_client c =
     (let tls = \<lparr>tls_InsecureSkipVerify = InsecureSkipVerify c, tls_ServerName = ServerName c\<rparr>;
          tcp = \<lparr>vpnMode = VpnMode c, tfo = EnableTFO c\<rparr> in
      \<lparr>conf = c, tlsConf = tls, tcpConfig = tcp,
       wssURL = ''wss://'' @ ServerName c @ WSSPath c,
       wsDialer = \<lparr>ws_tls = tls, ws_ReadBufferSize = defaultWSIOBufferSize,
         ws_WriteBufferSize = defaultWSIOBufferSize, ws_HandshakeTimeout = defaultHandShakeTimeout,
         ws_Subprotocols = (if EnableMux c then [websocketSubprotocolSmuxON]
                            else [websocketSubprotocolSmuxOFF])\<rparr>,
       netDialer_Timeout = defaultHandShakeTimeout,
       netDialer_Control = (\<lambda>p. getControlFunc p (Some tcp)), smuxConfig = defaultSmuxConfig,
       debugLog = Verbose c\<rparr>)"

definition NewClient ::
  "ClientConfig \<Rightarrow> string option \<Rightarrow> Client res \<times> ClientConfig \<times> string option" where
  "NewClient c resolver =
     (if BindAddr c = [] then (Inl (NewError ''need bind address''), c, resolver)
      else if RemoteAddr c = [] then (Inl (NewError ''need remote server address''), c, resolver)
      else if Timeout c \<le> 0 then (Inl (NewError ''timeout value must at least 1 sec''), c, resolver)
      else (case fill_ServerName c of
          Inl e \<Rightarrow> (Inl e, c, resolver)
        | Inr c1 \<Rightarrow>
          if MuxMaxStream c1 < 1 \<or> MuxMaxStream c1 > defaultSmuxMaxStream
          then (Inl (NewError ''mux max stream should between 1 - 16''), c1, resolver)
          else let c2 = fill_WSSPath c1 in
            (if FallbackDNS c2 \<noteq> [] then
               (if \<not> ParseIP (FallbackDNS c2) then (Inl (err_fallback (FallbackDNS c2)), c2, resolver)
                else (Inr (make_client c2), c2, Some (FallbackDNS c2)))
             else (Inr (make_client c2), c2, resolver))))"

text \<open>
  The resolver's dialer calls \<^verbatim>\<open>d.DialContext(ctx, "tcp", c.FallbackDNS)\<close>, which first splits
  its address into host and port.
\<close>

definition resolver_dials :: "string \<Rightarrow> bool" where
  "resolver_dials addr = (case SplitHostPort addr of Inl e \<Rightarrow> False | Inr hp \<Rightarrow> True)"

section \<open>Start\<close>

text \<open>
  \<open>listen\<close> is the outcome of \<^verbatim>\<open>Listen\<close>, \<open>accepts\<close> those of the calls of \<^verbatim>\<open>Accept\<close>. The result
  is the socket that was asked for, the listener the client remembers, the connections that got a
  goroutine with \<^verbatim>\<open>ForwardConn\<close>, and the error \<^verbatim>\<open>Start\<close> returns, if it returns.
\<close>

definition Client_Start ::
  "Client \<Rightarrow> platform \<Rightarrow> 'l res \<Rightarrow> 'c res list
     \<Rightarrow> listen_action list \<times> 'l option \<times> 'c list \<times> gerror option" where
  "Client_Start cl p listen accepts =
     (listenTCP p (tcpConfig cl) (BindAddr (conf cl)),
      (case listen of
         Inl e \<Rightarrow> (None, [], Some (Errorf ''net.Listen'' e))
       | Inr l \<Rightarrow> (Some l, accept_all accepts)))"

section \<open>Properties\<close>

lemmas NewClient_defs = NewClient_def fill_ServerName_def fill_WSSPath_def make_client_def Let_def

lemma hasPrefix_slash: "hasPrefix s ''/'' \<longleftrightarrow> (\<exists>r. s = CHR ''/'' # r)"
  by (cases s) (auto simp: hasPrefix_def)

lemma new_client_fields:
  assumes "NewClient c r = (Inr cl, c', r')"
  shows "c' = c\<lparr>ServerName := ServerName c', WSSPath := WSSPath c'\<rparr>"
    "tls_ServerName (tlsConf cl) = ServerName c'" "conf cl = c'"
    "RemoteAddr c' = RemoteAddr c" "BindAddr c' = BindAddr c" "EnableMux c' = EnableMux c"
    "ServerName c = [] \<Longrightarrow> SplitHostPort (RemoteAddr c) = Inr (h, p) \<Longrightarrow> ServerName c' = h"
  using assms by (auto simp: NewClient_defs split: sum.splits if_splits)

lemma NewClient_conf:
  assumes "fst (NewClient c r) = Inr cl"
  shows "\<exists>r'. NewClient c r = (Inr cl, conf cl, r')"
proof -
  obtain c' r' where "NewClient c r = (Inr cl, c', r')" using assms by (cases "NewClient c r") auto
  with new_client_fields(3) show ?thesis by fastforce
qed

text \<open>
  \<^verbatim>\<open>NewClient\<close> succeeds exactly on the configurations with both addresses, a positive
  timeout, a stream limit between 1 and 16, a server name or a remote address that has a host,
  and a fallback DNS server that is empty or an IP address.
\<close>

theorem NewClient_succeeds_iff:
  "(\<exists>cl. fst (NewClient c r) = Inr cl) =
     (BindAddr c \<noteq> [] \<and> RemoteAddr c \<noteq> [] \<and> Timeout c > 0
      \<and> MuxMaxStream c \<ge> 1 \<and> MuxMaxStream c \<le> 16
      \<and> (if ServerName c = [] then \<exists>hp. SplitHostPort (RemoteAddr c) = Inr hp else True)
      \<and> (FallbackDNS c = [] \<or> ParseIP (FallbackDNS c)))"
  by (auto simp: NewClient_defs defaultSmuxMaxStream_def split: sum.splits if_splits)

text \<open>
  A client that \<^verbatim>\<open>NewClient\<close> returns dials \<^verbatim>\<open>wss://<server name>/...\<close>, verifies the
  certificate against that same server name (the host of the remote address when none was
  given), asks for the subprotocol that matches its multiplexing mode, and applies the user's
  stream limit, timeout and addresses unchanged.
\<close>

theorem NewClient_result:
  assumes "NewClient c r = (Inr cl, c', r')"
  shows "conf cl = c' \<and> (\<exists>path. WSSPath c' = ''/'' @ path \<and> wssURL cl = ''wss://'' @ ServerName c' @ ''/'' @ path)
    \<and> (hasPrefix (WSSPath c) ''/'' \<longrightarrow> WSSPath c' = WSSPath c)
    \<and> tls_ServerName (tlsConf cl) = ServerName c' \<and> ws_tls (wsDialer cl) = tlsConf cl
    \<and> tls_InsecureSkipVerify (tlsConf cl) = InsecureSkipVerify c
    \<and> (if ServerName c = [] then \<exists>port. SplitHostPort (RemoteAddr c) = Inr (ServerName c', port)
       else ServerName c' = ServerName c)
    \<and> ws_Subprotocols (wsDialer cl) =
        [if EnableMux c then websocketSubprotocolSmuxON else websocketSubprotocolSmuxOFF]
    \<and> c' = c\<lparr>ServerName := ServerName c', WSSPath := WSSPath c'\<rparr>"
  using assms
  by (auto simp: NewClient_defs hasPrefix_slash split: sum.splits if_splits)

text \<open>
  C30: A fallback DNS server that \<^verbatim>\<open>NewClient\<close> accepts is a bare IP address, and the resolver it
  installs can never dial it, because the dialer insists on a port.
\<close>

theorem fallback_dns_never_dials:
  assumes "NewClient c r = (Inr cl, c', r')" "FallbackDNS c \<noteq> []"
  shows "r' = Some (FallbackDNS c) \<and> \<not> resolver_dials (FallbackDNS c)"
  using assms ParseIP_split_fails [of "FallbackDNS c"]
  by (auto simp: NewClient_defs resolver_dials_def split: sum.splits if_splits)

section \<open>A sample configuration\<close>

definition sample_client :: ClientConfig where
  "sample_client =
     \<lparr>BindAddr = ''127.0.0.1:1080'', RemoteAddr = ''[2001:db8::1]:443'', EnableWSS = True,
      WSSPath = ''chat'', EnableMux = True, MuxMaxStream = 4, ServerName = [],
      InsecureSkipVerify = False, Timeout = 300, EnableTFO = False, VpnMode = False,
      FallbackDNS = ''8.8.8.8'', Verbose = False\<rparr>"

lemma sample_client_addresses:
  "SplitHostPort ''[2001:db8::1]:443'' = Inr (''2001:db8::1'', ''443'')" "ParseIP ''8.8.8.8''"
  by (simp_all add: SplitHostPort_def split_tail_def ParseIP_def parseIPv4_rounds dtoi_def
      digit_of_def Let_def)

lemma sample_client_ok:
  "NewClient sample_client None =
     (Inr (make_client (sample_client\<lparr>ServerName := ''2001:db8::1'', WSSPath := ''/chat''\<rparr>)),
      sample_client\<lparr>ServerName := ''2001:db8::1'', WSSPath := ''/chat''\<rparr>, Some ''8.8.8.8'')"
  by (simp add: NewClient_def fill_ServerName_def fill_WSSPath_def sample_client_def
      sample_client_addresses defaultSmuxMaxStream_def hasPrefix_def Let_def)

theorem NewClient_result_witness:
  "\<exists>cl c' r'. NewClient sample_client None = (Inr cl, c', r')
     \<and> wssURL cl = ''wss://2001:db8::1/chat'' \<and> tls_ServerName (tlsConf cl) = ''2001:db8::1''"
  using NewClient_result [OF sample_client_ok] sample_client_ok by auto

theorem fallback_dns_never_dials_witness:
  "snd (snd (NewClient sample_client None)) = Some ''8.8.8.8'' \<and> \<not> resolver_dials ''8.8.8.8''"
  using fallback_dns_never_dials [OF sample_client_ok]
  by (simp add: sample_client_ok) (simp add: sample_client_def)

end
