(* ===== verification/ClientPool.thy ===== *)
theory ClientPool
  imports CMux ClientConf
begin

text \<open>
  The client's pool of sessions (\<^verbatim>\<open>getMuxStream\<close> and \<^verbatim>\<open>dialNewSmuxSess\<close> of
  \<^verbatim>\<open>src/internal/core/client.go\<close>) and \<^verbatim>\<open>ForwardConn\<close>, which uses it.
\<close>

section \<open>The interface of a session, as the pool sees it\<close>

record 's opener_ops =
  o_closed :: "'s \<Rightarrow> bool"
  o_open :: "int \<Rightarrow> 's \<Rightarrow> (nat res \<times> 's) list"

text \<open>
  \<open>count\<close> is the number of open streams. Opening a stream never blocks; it fails with
  \<^verbatim>\<open>ErrTooManyStreams\<close> exactly when the limit is reached, and otherwise adds one stream or
  leaves the number as it is.
\<close>

locale stream_opener =
  fixes ops :: "'s opener_ops"
    and valid :: "'s \<Rightarrow> bool"
    and count :: "'s \<Rightarrow> nat"
  assumes open_returns: "valid s \<Longrightarrow> o_open ops l s \<noteq> []"
    and open_valid: "(r, s') \<in> set (o_open ops l s) \<Longrightarrow> valid s \<Longrightarrow> valid s'"
    and open_closed: "(r, s') \<in> set (o_open ops l s) \<Longrightarrow> valid s \<Longrightarrow> o_closed ops s' = o_closed ops s"
    and open_count: "(r, s') \<in> set (o_open ops l s) \<Longrightarrow> valid s \<Longrightarrow>
      count s' = (case r of Inl e \<Rightarrow> count s | Inr k \<Rightarrow> Suc (count s))"
    and open_ok: "(Inr k, s') \<in> set (o_open ops l s) \<Longrightarrow> valid s \<Longrightarrow> int (count s) < l \<and> \<not> o_closed ops s"
    and open_full: "(Inl e, s') \<in> set (o_open ops l s) \<Longrightarrow> valid s \<Longrightarrow>
      (e = ErrTooManyStreams) = (l \<le> int (count s))"

section \<open>The pool\<close>

text \<open>
  \<open>store\<close> holds every session the client ever dialled, and sessions are referred to by their index
  there; \<open>keys\<close> are the keys of the \<^verbatim>\<open>sync.Map\<close>. \<^verbatim>\<open>Range\<close> visits each key once in an
  arbitrary order, which is an argument.
\<close>

record 's smuxSessPool =
  store :: "'s list"
  keys :: "nat list"

definition pool_delete :: "nat \<Rightarrow> 's smuxSessPool \<Rightarrow> 's smuxSessPool" where
  "pool_delete i p = p\<lparr>keys := filter (\<lambda>j. j \<noteq> i) (keys p)\<rparr>"

definition pool_store :: "'s \<Rightarrow> 's smuxSessPool \<Rightarrow> 's smuxSessPool" where
  "pool_store s p = p\<lparr>store := store p @ [s], keys := keys p @ [length (store p)]\<rparr>"

definition set_sess :: "nat \<Rightarrow> 's \<Rightarrow> 's smuxSessPool \<Rightarrow> 's smuxSessPool" where
  "set_sess i s p = p\<lparr>store := (store p)[i := s]\<rparr>"

text \<open>
  The function \<^verbatim>\<open>try\<close> on the keys that \<^verbatim>\<open>Range\<close> visits: a closed session and one that fails
  are deleted, a full one is skipped, the first stream opened ends the iteration. A stream is a
  session's index and the stream's index in it.
\<close>

fun range_try ::
  "'s opener_ops \<Rightarrow> int \<Rightarrow> nat list \<Rightarrow> 's smuxSessPool \<Rightarrow> ((nat \<times> nat) option \<times> 's smuxSessPool) list" where
  "range_try ops limit [] p = [(None, p)]"
| "range_try ops limit (i # is) p =
     (if o_closed ops (store p ! i) then range_try ops limit is (pool_delete i p)
      else concat (map (\<lambda>(r, s').
          let p' = set_sess i s' p in
          (case r of
             Inr k \<Rightarrow> [(Some (i, k), p')]
           | Inl e \<Rightarrow>
               if e = ErrTooManyStreams then range_try ops limit is p'
               else range_try ops limit is (pool_delete i p')))
        (o_open ops limit (store p ! i))))"

definition open_on ::
  "'s opener_ops \<Rightarrow> int \<Rightarrow> nat \<Rightarrow> 's smuxSessPool \<Rightarrow> ((nat \<times> nat) res \<times> 's smuxSessPool) list" where
  "open_on ops limit i p =
     map (\<lambda>(r, s'). (case r of Inl e \<Rightarrow> Inl e | Inr k \<Rightarrow> Inr (i, k), set_sess i s' p))
       (o_open ops limit (store p ! i))"

text \<open>\<open>dial\<close> is what \<^verbatim>\<open>client.dialNewSmuxSess()\<close> returns, if it is called.\<close>

definition getMuxStream ::
  "'s opener_ops \<Rightarrow> int \<Rightarrow> nat list \<Rightarrow> 's res \<Rightarrow> 's smuxSessPool
     \<Rightarrow> ((nat \<times> nat) res \<times> 's smuxSessPool) list" where
  "getMuxStream ops limit order dial p =
     concat (map (\<lambda>(stream, p1).
         (case stream of
            Some x \<Rightarrow> [(Inr x, p1)]
          | None \<Rightarrow>
              (case dial of
                 Inl e \<Rightarrow> [(Inl e, p1)]
               | Inr s \<Rightarrow> open_on ops limit (length (store p1)) (pool_store s p1))))
       (range_try ops limit order p))"

definition dialNewSmuxSess :: "Client \<Rightarrow> unit res \<Rightarrow> session res" where
  "dialNewSmuxSess cl dialServer =
     (case dialServer of Inl e \<Rightarrow> Inl e | Inr u \<Rightarrow> smux_Client (smuxConfig cl))"

lemma range_try_cases:
  assumes "(res, p') \<in> set (range_try ops limit (i # is) p)"
  shows "o_closed ops (store p ! i) \<and> (res, p') \<in> set (range_try ops limit is (pool_delete i p))
    \<or> (\<exists>r s'. \<not> o_closed ops (store p ! i) \<and> (r, s') \<in> set (o_open ops limit (store p ! i))
        \<and> (case r of
             Inr k \<Rightarrow> res = Some (i, k) \<and> p' = set_sess i s' p
           | Inl e \<Rightarrow> (res, p') \<in> set (range_try ops limit is
               (if e = ErrTooManyStreams then set_sess i s' p else pool_delete i (set_sess i s' p)))))"
proof (cases "o_closed ops (store p ! i)")
  case False
  from assms False obtain r s' where r: "(r, s') \<in> set (o_open ops limit (store p ! i))"
    and m: "(res, p') \<in> set (case r of Inr k \<Rightarrow> [(Some (i, k), set_sess i s' p)]
      | Inl e \<Rightarrow> if e = ErrTooManyStreams then range_try ops limit is (set_sess i s' p)
          else range_try ops limit is (pool_delete i (set_sess i s' p)))"
    by (auto simp: Let_def)
  then show ?thesis using False
    by (intro disjI2 exI [of _ r] exI [of _ s']) (auto split: sum.splits if_splits)
qed (use assms in simp)

section \<open>What the pool guarantees\<close>

context stream_opener begin

definition pool_ok :: "int \<Rightarrow> 's smuxSessPool \<Rightarrow> bool" where
  "pool_ok limit p \<longleftrightarrow> distinct (keys p) \<and> set (keys p) \<subseteq> {..<length (store p)}
     \<and> (\<forall>s \<in> set (store p). valid s \<and> int (count s) \<le> limit)"

lemma pool_ok_delete: "pool_ok limit p \<Longrightarrow> pool_ok limit (pool_delete i p)"
  by (auto simp: pool_ok_def pool_delete_def)

lemma pool_ok_set:
  "pool_ok limit p \<Longrightarrow> valid s \<Longrightarrow> int (count s) \<le> limit \<Longrightarrow> pool_ok limit (set_sess i s p)"
  by (auto simp: pool_ok_def set_sess_def dest!: set_update_subset_insert [THEN subsetD])

lemma pool_ok_store:
  "pool_ok limit p \<Longrightarrow> valid s \<Longrightarrow> int (count s) \<le> limit \<Longrightarrow> pool_ok limit (pool_store s p)"
  by (auto simp: pool_ok_def pool_store_def)

lemma pool_nth: "pool_ok limit p \<Longrightarrow> i < length (store p) \<Longrightarrow> valid (store p ! i) \<and> int (count (store p ! i)) \<le> limit"
  by (auto simp: pool_ok_def)

lemma open_limit:
  "(r, s') \<in> set (o_open ops limit s) \<Longrightarrow> valid s \<Longrightarrow> int (count s) \<le> limit \<Longrightarrow>
     valid s' \<and> int (count s') \<le> limit"
  using open_ok open_count open_valid by (cases r) force+

text \<open>
  \<open>kept is p0 p1\<close>: after the keys \<open>is\<close> were visited, each of them that is still there belongs to
  an open session that has reached the limit; the others were not touched.
\<close>

definition kept :: "int \<Rightarrow> nat list \<Rightarrow> 's smuxSessPool \<Rightarrow> 's smuxSessPool \<Rightarrow> bool" where
  "kept limit is p0 p1 \<longleftrightarrow> length (store p1) = length (store p0) \<and> set (keys p1) \<subseteq> set (keys p0)
     \<and> set (keys p0) - set is \<subseteq> set (keys p1)
     \<and> (\<forall>j. j \<notin> set is \<longrightarrow> store p1 ! j = store p0 ! j)
     \<and> (\<forall>j \<in> set is \<inter> set (keys p1). \<not> o_closed ops (store p1 ! j) \<and> limit \<le> int (count (store p1 ! j)))"

text \<open>The pool after one key was visited without success.\<close>

definition visited :: "int \<Rightarrow> nat \<Rightarrow> 's smuxSessPool \<Rightarrow> 's smuxSessPool \<Rightarrow> bool" where
  "visited limit i p p1 \<longleftrightarrow> pool_ok limit p1 \<and> kept limit [i] p p1"

lemma range_try_step:
  assumes m: "(res, p') \<in> set (range_try ops limit (i # is) p)" and ok: "pool_ok limit p"
    and i: "i < length (store p)"
  shows "(\<exists>k s'. res = Some (i, k) \<and> p' = set_sess i s' p \<and> pool_ok limit p'
            \<and> \<not> o_closed ops s' \<and> 1 \<le> count s')
    \<or> (\<exists>p1. visited limit i p p1 \<and> (res, p') \<in> set (range_try ops limit is p1))"
proof -
  note v = pool_nth [OF ok i]
  from range_try_cases [OF m] show ?thesis
  proof (elim disjE exE conjE)
    assume c: "o_closed ops (store p ! i)" "(res, p') \<in> set (range_try ops limit is (pool_delete i p))"
    have "visited limit i p (pool_delete i p)"
      using pool_ok_delete [OF ok] by (auto simp: visited_def kept_def pool_delete_def)
    with c show ?thesis by blast
  next
    fix r s'
    assume c: "\<not> o_closed ops (store p ! i)" "(r, s') \<in> set (o_open ops limit (store p ! i))"
      and res: "case r of Inr k \<Rightarrow> res = Some (i, k) \<and> p' = set_sess i s' p
           | Inl e \<Rightarrow> (res, p') \<in> set (range_try ops limit is
               (if e = ErrTooManyStreams then set_sess i s' p else pool_delete i (set_sess i s' p)))"
    from open_limit [OF c(2)] v have s': "valid s'" "int (count s') \<le> limit" by auto
    note ok1 = pool_ok_set [OF ok s', of i]
    note f = open_closed [OF c(2)] open_count [OF c(2)]
    show ?thesis
    proof (cases r)
      case (Inl e)
      define p1 where "p1 = (if e = ErrTooManyStreams then set_sess i s' p else pool_delete i (set_sess i s' p))"
      have "limit \<le> int (count s')" "\<not> o_closed ops s'" if "e = ErrTooManyStreams"
        using open_full [of e s' limit "store p ! i"] c f v Inl that by auto
      then have "visited limit i p p1"
        using ok1 pool_ok_delete [OF ok1] i
        by (auto simp: visited_def kept_def p1_def set_sess_def pool_delete_def)
      with res Inl show ?thesis by (auto simp: p1_def)
    next
      case (Inr k)
      with f c v have "\<not> o_closed ops s'" "1 \<le> count s'" by auto
      with res Inr ok1 show ?thesis by auto
    qed
  qed
qed

lemma kept_Cons:
  assumes "kept limit [i] p p1" "kept limit is p1 p2" "i \<notin> set is"
  shows "kept limit (i # is) p p2"
proof -
  have A: "length (store p1) = length (store p)" "set (keys p1) \<subseteq> set (keys p)"
    "set (keys p) - {i} \<subseteq> set (keys p1)" "\<And>j. j \<noteq> i \<Longrightarrow> store p1 ! j = store p ! j"
    "i \<in> set (keys p1) \<Longrightarrow> \<not> o_closed ops (store p1 ! i) \<and> limit \<le> int (count (store p1 ! i))"
    using assms(1) unfolding kept_def by (elim conjE, simp)+
  have B: "length (store p2) = length (store p1)" "set (keys p2) \<subseteq> set (keys p1)"
    "set (keys p1) - set is \<subseteq> set (keys p2)" "\<And>j. j \<notin> set is \<Longrightarrow> store p2 ! j = store p1 ! j"
    "\<And>j. j \<in> set is \<inter> set (keys p2) \<Longrightarrow> \<not> o_closed ops (store p2 ! j) \<and> limit \<le> int (count (store p2 ! j))"
    using assms(2) unfolding kept_def by blast+
  have "length (store p2) = length (store p)" using A(1) B(1) by simp
  moreover have "set (keys p2) \<subseteq> set (keys p)" using A(2) B(2) by blast
  moreover have "set (keys p) - set (i # is) \<subseteq> set (keys p2)"
  proof
    fix j assume j: "j \<in> set (keys p) - set (i # is)"
    then have "j \<in> set (keys p1)" using A(3) by auto
    with j B(3) show "j \<in> set (keys p2)" by auto
  qed
  moreover have "store p2 ! j = store p ! j" if "j \<notin> set (i # is)" for j
    using A(4) [of j] B(4) [of j] that by simp
  moreover have "\<not> o_closed ops (store p2 ! j) \<and> limit \<le> int (count (store p2 ! j))"
    if "j \<in> set (i # is) \<inter> set (keys p2)" for j
  proof (cases "j = i")
    case True
    have "i \<in> set (keys p1)" using B(2) that True by auto
    then show ?thesis using A(5) B(4) [OF assms(3)] True by simp
  next
    case False
    then show ?thesis using B(5) [of j] that by simp
  qed
  ultimately show ?thesis unfolding kept_def by blast
qed

lemma range_try_spec:
  assumes "(res, p') \<in> set (range_try ops limit is p)" "pool_ok limit p" "distinct is"
    and "set is \<subseteq> set (keys p)"
  shows "pool_ok limit p' \<and>
    (case res of
       None \<Rightarrow> kept limit is p p'
     | Some (i, k) \<Rightarrow> i \<in> set (keys p') \<and> \<not> o_closed ops (store p' ! i) \<and> 1 \<le> count (store p' ! i)
         \<and> length (store p') = length (store p))"
  using assms
proof (induction "is" arbitrary: p)
  case Nil
  then show ?case by (auto simp: kept_def)
next
  case (Cons i "is")
  have i: "i < length (store p)" using Cons.prems by (auto simp: pool_ok_def)
  from range_try_step [OF Cons.prems(1,2) i] show ?case
  proof (elim disjE exE conjE)
    fix k s'
    assume "res = Some (i, k)" "p' = set_sess i s' p" "pool_ok limit p'" "\<not> o_closed ops s'" "1 \<le> count s'"
    then show ?thesis using i Cons.prems(4) by (auto simp: set_sess_def)
  next
    fix p1
    assume v: "visited limit i p p1" and m: "(res, p') \<in> set (range_try ops limit is p1)"
    have "set is \<subseteq> set (keys p1)" using v Cons.prems(3,4) by (auto simp: visited_def kept_def)
    with Cons.IH [OF m] v Cons.prems(3) have IH: "pool_ok limit p' \<and>
      (case res of None \<Rightarrow> kept limit is p1 p'
       | Some (i, k) \<Rightarrow> i \<in> set (keys p') \<and> \<not> o_closed ops (store p' ! i) \<and> 1 \<le> count (store p' ! i)
         \<and> length (store p') = length (store p1))"
      by (simp add: visited_def)
    moreover have "length (store p1) = length (store p)" using v by (simp add: visited_def kept_def)
    ultimately show ?thesis
      using kept_Cons [of limit i p p1 "is" p'] v Cons.prems(3)
      by (auto simp: visited_def split: option.splits)
  qed
qed

text \<open>A session that was just dialled: open and without streams.\<close>

definition fresh :: "'s \<Rightarrow> bool" where
  "fresh s \<longleftrightarrow> valid s \<and> \<not> o_closed ops s \<and> count s = 0"

lemma open_on_spec:
  assumes m: "(r, p') \<in> set (open_on ops limit (length (store p)) (pool_store s p))"
    and ok: "pool_ok limit p" and s: "fresh s" and pos: "1 \<le> limit"
  shows "pool_ok limit p' \<and> length (store p') = Suc (length (store p)) \<and> keys p' = keys p @ [length (store p)]
    \<and> (\<forall>j < length (store p). store p' ! j = store p ! j)
    \<and> (case r of Inl e \<Rightarrow> e \<noteq> ErrTooManyStreams
       | Inr (i, k) \<Rightarrow> i = length (store p) \<and> \<not> o_closed ops (store p' ! i) \<and> count (store p' ! i) = 1)"
proof -
  let ?i = "length (store p)"
  have "store (pool_store s p) ! ?i = s" by (simp add: pool_store_def)
  with m obtain r0 s' where o: "(r0, s') \<in> set (o_open ops limit s)"
    and r: "r = (case r0 of Inl e \<Rightarrow> Inl e | Inr k \<Rightarrow> Inr (?i, k))"
    and p': "p' = set_sess ?i s' (pool_store s p)" by (auto simp: open_on_def)
  have v: "valid s" "\<not> o_closed ops s" "count s = 0" using s by (simp_all add: fresh_def)
  from open_limit [OF o] v pos have s': "valid s'" "int (count s') \<le> limit" by auto
  have "pool_ok limit p'"
    unfolding p' using v pos by (intro pool_ok_set pool_ok_store ok s') simp_all
  moreover have "store p' = store p @ [s']" "keys p' = keys p @ [?i]"
    by (simp_all add: p' set_sess_def pool_store_def)
  moreover have "o_closed ops s' = o_closed ops s"
    "count s' = (case r0 of Inl e \<Rightarrow> count s | Inr k \<Rightarrow> Suc (count s))"
    using open_closed [OF o] open_count [OF o] v by auto
  moreover have "e \<noteq> ErrTooManyStreams" if "r0 = Inl e" for e
    using open_full [of e s' limit s] o v pos that by auto
  ultimately show ?thesis using v r by (auto simp: nth_append split: sum.splits)
qed

lemma getMuxStream_spec:
  assumes m: "(r, p') \<in> set (getMuxStream ops limit order dial p)" and ok: "pool_ok limit p"
    and order: "distinct order" "set order = set (keys p)"
    and dial: "\<And>s. dial = Inr s \<Longrightarrow> fresh s" and pos: "1 \<le> limit"
  shows "pool_ok limit p'
    \<and> (case r of Inl e \<Rightarrow> e \<noteq> ErrTooManyStreams \<or> dial = Inl e
       | Inr (i, k) \<Rightarrow> i \<in> set (keys p') \<and> \<not> o_closed ops (store p' ! i) \<and> 1 \<le> count (store p' ! i))
    \<and> (length (store p') \<noteq> length (store p) \<or> isl r \<longrightarrow>
        (\<forall>j \<in> set (keys p') - {length (store p)}.
           \<not> o_closed ops (store p' ! j) \<and> limit \<le> int (count (store p' ! j))))"
proof -
  from m obtain x p1 where t: "(x, p1) \<in> set (range_try ops limit order p)"
    and g: "(r, p') \<in> set (case x of Some x \<Rightarrow> [(Inr x, p1)]
      | None \<Rightarrow> (case dial of Inl e \<Rightarrow> [(Inl e, p1)]
               | Inr s \<Rightarrow> open_on ops limit (length (store p1)) (pool_store s p1)))"
    by (auto simp: getMuxStream_def)
  note T = range_try_spec [OF t ok order(1)] order(2)
  show ?thesis
  proof (cases x)
    case (Some y)
    with g T show ?thesis by (cases y) auto
  next
    case None
    with T have ok1: "pool_ok limit p1" and k: "kept limit order p p1" by auto
    have len: "length (store p1) = length (store p)" and sub: "set (keys p1) \<subseteq> set order"
      using k order(2) by (auto simp: kept_def)
    have full: "\<not> o_closed ops (store p1 ! j) \<and> limit \<le> int (count (store p1 ! j))"
      if "j \<in> set (keys p1)" for j using k sub that unfolding kept_def by blast
    show ?thesis
    proof (cases dial)
      case (Inl e)
      with g None ok1 full show ?thesis by auto
    next
      case (Inr s)
      with g None have o: "(r, p') \<in> set (open_on ops limit (length (store p1)) (pool_store s p1))" by simp
      note O = open_on_spec [OF o ok1 dial [OF Inr] pos]
      have "\<not> o_closed ops (store p' ! j) \<and> limit \<le> int (count (store p' ! j))"
        if "j \<in> set (keys p') - {length (store p)}" for j
      proof -
        have "j \<in> set (keys p1)" using O that len by auto
        moreover from this have "j < length (store p1)" using ok1 by (auto simp: pool_ok_def)
        ultimately show ?thesis using O full by simp
      qed
      with O show ?thesis by (auto split: sum.splits)
    qed
  qed
qed

end

section \<open>The sessions of the program\<close>

definition mux_opener :: "session opener_ops" where
  "mux_opener = \<lparr>o_closed = IsClosed, o_open = openStream\<rparr>"

lemma register_stream_nonempty: "register_stream i s \<noteq> []"
  by (simp add: register_stream_def Let_def)

lemma OpenStream_nonempty: "OpenStream s \<noteq> []"
proof (cases "IsClosed s \<or> goAway s \<or> nextStreamID s + 2 = (nextStreamID s + 2) mod 2")
  case False
  obtain n e s2 ys where "writeFrame (newFrame (ver_byte s) cmdSYN (nextStreamID s + 2))
      (s\<lparr>nextStreamID := nextStreamID s + 2\<rparr>) = ((n, e), s2) # ys"
    using writeFrame_nonempty by (metis neq_Nil_conv surj_pair)
  with False register_stream_nonempty show ?thesis
    by (cases e) (simp_all add: OpenStream_def Let_def)
qed (auto simp: OpenStream_def Let_def)

lemma next_id_fresh:
  assumes "session_inv s" "client s" "\<not> (die s \<or> goAway s \<or> nextStreamID s + 2 = (nextStreamID s + 2) mod 2)"
  shows "nextStreamID s + 2 \<notin> fst ` set (streams s)"
proof -
  have "odd (unat (nextStreamID s))" "\<forall>j \<in> set (used s). j \<le> nextStreamID s"
    using assms by (auto simp: session_inv_def ids_ok_def)
  moreover have "fst ` set (streams s) \<subseteq> set (used s)"
    using assms(1) by (force simp: session_inv_def map_ok_def used_def)
  ultimately show ?thesis using next_id_larger [of "nextStreamID s"] assms(3) by force
qed

text \<open>
  The connection never fails with this package's own \<^verbatim>\<open>ErrTooManyStreams\<close>, which is never passed
  to it.
\<close>

definition client_session :: "session \<Rightarrow> bool" where
  "client_session s \<longleftrightarrow> session_inv s \<and> client s
     \<and> ErrTooManyStreams \<notin> set (opt_list (readError s) @ opt_list (writeError s) @ opt_list (conn_fail s))"

lemma writeFrame_errors:
  assumes "((n, e), s') \<in> set (writeFrame f s)"
  shows "conn_fail s' = conn_fail s \<and> readError s' = readError s
    \<and> (writeError s' = writeError s \<or> writeError s' = conn_fail s)
    \<and> (\<forall>x. e = Some x \<longrightarrow> x = ErrClosedPipe \<or> writeError s = Some x \<or> conn_fail s = Some x)"
  using assms
  by (auto simp: writeFrame_def writeFrameInternal_def writeFrame_now_def notifyWriteError_def Let_def
      split: option.splits if_splits)

lemma register_stream_result:
  assumes "(r, s') \<in> set (register_stream i s)" "i \<notin> fst ` set (streams s)"
  shows "die s' = die s \<and> readError s' = readError s \<and> writeError s' = writeError s
    \<and> conn_fail s' = conn_fail s
    \<and> (case r of Inl e \<Rightarrow> s' = s \<and> (e = ErrClosedPipe \<or> readError s = Some e \<or> writeError s = Some e)
       | Inr k \<Rightarrow> \<not> die s \<and> length (streams s') = Suc (length (streams s)))"
  using assms
  by (auto simp: register_stream_def Let_def length_alist_put split: if_splits)

lemma OpenStream_result:
  assumes st: "(r, s') \<in> set (OpenStream s)" and ok: "client_session s"
  shows "client_session s' \<and> die s' = die s
    \<and> (case r of Inl e \<Rightarrow> streams s' = streams s \<and> e \<noteq> ErrTooManyStreams
       | Inr k \<Rightarrow> \<not> die s \<and> length (streams s') = Suc (length (streams s)))"
proof -
  have inv: "session_inv s" and cl: "client s"
    and clean: "ErrTooManyStreams \<notin> set (opt_list (readError s) @ opt_list (writeError s) @ opt_list (conn_fail s))"
    using ok by (simp_all add: client_session_def)
  have keep: "session_inv s'" "client s'"
    using OpenStream_inv [OF st inv cl] OpenStream_evolves [OF st] cl by (simp_all add: evolves_def)
  show ?thesis
  proof (cases "die s \<or> goAway s \<or> nextStreamID s + 2 = (nextStreamID s + 2) mod 2")
    case True
    with st keep clean show ?thesis
      by (auto simp: OpenStream_def IsClosed_def client_session_def Let_def split: if_splits)
  next
    case False
    let ?i = "nextStreamID s + 2" and ?s1 = "s\<lparr>nextStreamID := nextStreamID s + 2\<rparr>"
    from st False obtain n e s2 where
      w: "((n, e), s2) \<in> set (writeFrame (newFrame (ver_byte s) cmdSYN ?i) ?s1)"
      and r: "(r, s') \<in> set (case e of Some x \<Rightarrow> [(Inl x, s2)] | None \<Rightarrow> register_stream ?i s2)"
      by (auto simp: OpenStream_def IsClosed_def Let_def)
    note E = writeFrame_errors [OF w]
    have core: "die s2 = die s" "streams s2 = streams s"
      using writeFrame_core [OF w] by (simp_all add: same_core_def)
    have new: "?i \<notin> fst ` set (streams s2)"
      using next_id_fresh [OF inv cl] False core by simp
    show ?thesis
    proof (cases e)
      case None
      with r have g: "(r, s') \<in> set (register_stream ?i s2)" by simp
      from register_stream_result [OF g new] E clean core keep show ?thesis
        by (auto simp: client_session_def split: sum.splits)
    next
      case (Some x)
      with r E clean core keep show ?thesis by (auto simp: client_session_def)
    qed
  qed
qed

interpretation opener: stream_opener mux_opener client_session NumStreams
proof unfold_locales
  fix s l
  show "o_open mux_opener l s \<noteq> []" using OpenStream_nonempty by (simp add: mux_opener_def openStream_def)
next
  fix r s' l s
  assume m: "(r, s') \<in> set (o_open mux_opener l s)" and v: "client_session s"
  then show "client_session s'"
    "o_closed mux_opener s' = o_closed mux_opener s"
    "NumStreams s' = (case r of Inl e \<Rightarrow> NumStreams s | Inr k \<Rightarrow> Suc (NumStreams s))"
    using OpenStream_result [of r s' s]
    by (auto simp: mux_opener_def openStream_def IsClosed_def NumStreams_def split: if_splits sum.splits)
next
  fix k s' l s
  assume "(Inr k, s') \<in> set (o_open mux_opener l s)" "client_session s"
  then show "int (NumStreams s) < l \<and> \<not> o_closed mux_opener s"
    using OpenStream_result [of "Inr k" s' s]
    by (auto simp: mux_opener_def openStream_def IsClosed_def split: if_splits)
next
  fix e s' l s
  assume "(Inl e, s') \<in> set (o_open mux_opener l s)" "client_session s"
  then show "(e = ErrTooManyStreams) = (l \<le> int (NumStreams s))"
    using OpenStream_result [of "Inl e" s' s]
    by (auto simp: mux_opener_def openStream_def split: if_splits)
qed

section \<open>The client's pool\<close>

text \<open>
  A pool of sessions of the program, none of which has more than \<open>limit\<close> streams.
\<close>

definition client_pool :: "int \<Rightarrow> session smuxSessPool \<Rightarrow> bool" where
  "client_pool limit p \<longleftrightarrow> distinct (keys p) \<and> set (keys p) \<subseteq> {..<length (store p)}
     \<and> (\<forall>s \<in> set (store p). client_session s \<and> int (NumStreams s) \<le> limit)"

lemma client_pool_eq: "client_pool limit p = opener.pool_ok limit p"
  by (simp add: client_pool_def opener.pool_ok_def)

lemma pool_member_limit:
  "opener.pool_ok limit p \<Longrightarrow> i \<in> set (keys p) \<Longrightarrow> int (NumStreams (store p ! i)) \<le> limit"
  by (auto simp: opener.pool_ok_def)

lemma NewClient_pool:
  assumes "NewClient c r = (Inr cl, c', r')"
  shows "smuxConfig cl = defaultSmuxConfig \<and> 1 \<le> MuxMaxStream (conf cl)"
  using assms by (auto simp: NewClient_defs split: sum.splits if_splits)

lemma dialled_fresh:
  assumes "smuxConfig cl = defaultSmuxConfig" "dialNewSmuxSess cl ds = Inr s"
  shows "opener.fresh s"
proof -
  have "s = newSession defaultSmuxConfig True"
    using assms by (auto simp: dialNewSmuxSess_def defaultSmuxConfig_ok split: sum.splits)
  moreover have "session_inv (newSession defaultSmuxConfig True)"
    by (rule newSession_inv) (simp add: defaultSmuxConfig_def)
  ultimately show ?thesis
    unfolding opener.fresh_def client_session_def
    by (simp add: mux_opener_def IsClosed_def NumStreams_def newSession_def opt_list_def)
qed



section \<open>Dialling and forwarding\<close>

text \<open>
  \<^verbatim>\<open>dialTLS\<close> returns its connection, or the error; the second component is what it closed.
  \<open>raw\<close> is the outcome of \<^verbatim>\<open>dialServerRaw\<close>, \<open>handshake\<close> that of the TLS handshake.
\<close>

definition dialTLS :: "'c res \<Rightarrow> ('c \<Rightarrow> gerror option) \<Rightarrow> 'c res \<times> 'c list" where
  "dialTLS raw handshake =
     (case raw of
        Inl e \<Rightarrow> (Inl e, [])
      | Inr c \<Rightarrow> (case handshake c of Some e \<Rightarrow> (Inl e, [c]) | None \<Rightarrow> (Inr c, [])))"

definition dialServer :: "ClientConfig \<Rightarrow> 'c res \<Rightarrow> 'c res \<Rightarrow> 'c res" where
  "dialServer cf wss tls = (if EnableWSS cf then wss else tls)"

text \<open>
  What happens to the two connections of \<^verbatim>\<open>ForwardConn\<close>, in order. The tunnel closes both; the
  deferred call closes the right one again.
\<close>

datatype fwd_event =
    OpenTunnel int
  | CloseRightConn

definition ForwardConn ::
  "ClientConfig \<Rightarrow> 'c res \<Rightarrow> 'c res \<Rightarrow> ('c \<Rightarrow> gerror option) \<Rightarrow> gerror option \<times> fwd_event list" where
  "ForwardConn cf getMux dial tunnel =
     (let right = (if EnableMux cf then
                     (case getMux of Inl e \<Rightarrow> Inl (Errorf ''mux getStream'' e) | Inr c \<Rightarrow> Inr c)
                   else (case dial of Inl e \<Rightarrow> Inl (Errorf ''connect to remote'' e) | Inr c \<Rightarrow> Inr c)) in
      (case right of
         Inl e \<Rightarrow> (Some e, [])
       | Inr c \<Rightarrow>
           (case tunnel c of Some e \<Rightarrow> Some (Errorf ''openTunnel'' e) | None \<Rightarrow> None,
            [OpenTunnel (Timeout cf), CloseRightConn])))"

text \<open>
  \<^verbatim>\<open>ForwardConn\<close> returns nil exactly when it got a connection to the server and the tunnel
  ended normally. When it gets none, it returns the reason without opening a tunnel, and
  nothing closes the connection it was asked to forward.
\<close>

theorem ForwardConn_result:
  "(fst (ForwardConn cf getMux dial tunnel) = None) =
     (\<exists>c. (if EnableMux cf then getMux else dial) = Inr c \<and> tunnel c = None)
   \<and> (snd (ForwardConn cf getMux dial tunnel) = []) = isl (if EnableMux cf then getMux else dial)"
  by (auto simp: ForwardConn_def Let_def split: sum.splits option.splits if_splits)

section \<open>Two callers and one stream per session\<close>

text \<open>The session a client has just dialled, and the same with its first stream.\<close>

definition dialled :: session where
  "dialled = newSession defaultSmuxConfig True"

definition one_stream :: session where
  "one_stream = snd (hd (OpenStream dialled))"

lemma one_stream_open: "OpenStream dialled = [(Inr 0, one_stream)]"
  and one_stream_count: "NumStreams one_stream = 1" "\<not> IsClosed one_stream"
  and dialled_count: "NumStreams dialled = 0" "\<not> IsClosed dialled"
  by (simp_all add: one_stream_def dialled_def OpenStream_def newSession_def IsClosed_def NumStreams_def
      Let_def writeFrame_def writeFrameInternal_def writeFrame_now_def opt_list_def register_stream_def)

lemma dialled_session: "client_session dialled"
  using newSession_inv [of defaultSmuxConfig True]
  by (simp add: client_session_def dialled_def defaultSmuxConfig_def) (simp add: newSession_def opt_list_def)

lemma one_stream_session: "client_session one_stream"
  using OpenStream_result [of "Inr 0" one_stream dialled] dialled_session one_stream_open by simp

text \<open>
  \<^verbatim>\<open>getMuxStream\<close> stores a session it dialled in the shared pool before it opens its own
  stream there. With one stream per session allowed, another caller can take that stream first, and
  then the caller that dialled fails with \<^verbatim>\<open>ErrTooManyStreams\<close> although it could dial again.
\<close>

theorem getMuxStream_race:
  "\<exists>p2. (Inr (0, 0), p2) \<in> set (getMuxStream mux_opener 1 [0] dial
            (pool_store dialled \<lparr>store = [], keys = []\<rparr>))
      \<and> open_on mux_opener 1 0 p2 = [(Inl ErrTooManyStreams, p2)]"
  by (rule exI [of _ "\<lparr>store = [one_stream], keys = [0]\<rparr>"])
    (simp add: getMuxStream_def open_on_def pool_store_def set_sess_def mux_opener_def openStream_def
      one_stream_open one_stream_count dialled_count)

section \<open>Concrete pools\<close>

definition strict_client :: ClientConfig where
  "strict_client = sample_client\<lparr>MuxMaxStream := 1\<rparr>"

definition strict_filled :: ClientConfig where
  "strict_filled = strict_client\<lparr>ServerName := ''2001:db8::1'', WSSPath := ''/chat''\<rparr>"

lemma strict_client_ok:
  "NewClient strict_client None = (Inr (make_client strict_filled), strict_filled, Some ''8.8.8.8'')"
  by (simp add: NewClient_def fill_ServerName_def fill_WSSPath_def strict_client_def strict_filled_def
      sample_client_def sample_client_addresses defaultSmuxMaxStream_def hasPrefix_def Let_def)

lemma strict_client_fields:
  "MuxMaxStream (conf (make_client strict_filled)) = 1"
  "dialNewSmuxSess (make_client strict_filled) (Inr ()) = Inr dialled"
  by (simp_all add: make_client_def strict_filled_def strict_client_def Let_def dialNewSmuxSess_def
      defaultSmuxConfig_ok dialled_def)

definition full_pool :: "session smuxSessPool" where
  "full_pool = \<lparr>store = [one_stream], keys = [0]\<rparr>"

lemma full_pool_ok: "client_pool 1 full_pool"
  by (simp add: client_pool_def full_pool_def one_stream_session one_stream_count)

lemma full_pool_dials:
  "(Inr (1, 0), \<lparr>store = [one_stream, one_stream], keys = [0, 1]\<rparr>)
     \<in> set (getMuxStream mux_opener 1 [0] (Inr dialled) full_pool)"
  by (simp add: getMuxStream_def open_on_def pool_store_def set_sess_def mux_opener_def openStream_def
      one_stream_open one_stream_count dialled_count full_pool_def)



end
