(* ===== verification/DummyListener.thy ===== *)
theory DummyListener
  imports Prelude "HOL-Library.Multiset"
begin

text \<open>
  The in-memory dialler and listener of \<^verbatim>\<open>src/internal/core/dummy_conn.go\<close>.
\<close>

section \<open>The in-memory listener\<close>

text \<open>
  Calls of \<^verbatim>\<open>Dial\<close> and \<^verbatim>\<open>Accept\<close> that wait at the unbuffered channel, by number; a waiting dial
  has the number of its pipe. \<open>ends\<close> are the ends of pipes that were returned: \<open>(call, pipe, side)\<close>
  where side 1 belongs to the dialler and side 2 to the acceptor. \<open>failed\<close> are the calls that
  returned \<^verbatim>\<open>io.ErrClosedPipe\<close>.
\<close>

record dummyDialerListener =
  calls :: nat
  dialing :: "nat list"
  accepting :: "nat list"
  isClosed :: bool
  dialed :: "(nat \<times> nat) list"
  accepted :: "(nat \<times> nat) list"
  failed :: "nat list"

definition newDummyDialerListener :: dummyDialerListener where
  "newDummyDialerListener = \<lparr>calls = 0, dialing = [], accepting = [], isClosed = False,
     dialed = [], accepted = [], failed = []\<rparr>"

text \<open>
  \<open>connect\<close> makes a pipe, named after its call, and offers its end 2; a rendezvous gives end 1 to
  the dialler and end 2 to the acceptor.
\<close>

definition connect :: "dummyDialerListener \<Rightarrow> dummyDialerListener" where
  "connect d = d\<lparr>calls := Suc (calls d), dialing := dialing d @ [calls d]\<rparr>"

definition Accept :: "dummyDialerListener \<Rightarrow> dummyDialerListener" where
  "Accept d = d\<lparr>calls := Suc (calls d), accepting := accepting d @ [calls d]\<rparr>"

definition Close :: "dummyDialerListener \<Rightarrow> dummyDialerListener" where
  "Close d = d\<lparr>isClosed := True\<rparr>"

definition rendezvous :: "nat \<Rightarrow> nat \<Rightarrow> dummyDialerListener \<Rightarrow> dummyDialerListener" where
  "rendezvous i j d =
     d\<lparr>dialing := remove1 i (dialing d), accepting := remove1 j (accepting d),
       dialed := dialed d @ [(i, i)], accepted := accepted d @ [(j, i)]\<rparr>"

definition give_up :: "nat \<Rightarrow> dummyDialerListener \<Rightarrow> dummyDialerListener" where
  "give_up i d =
     (if i \<in> set (dialing d)
      then d\<lparr>dialing := remove1 i (dialing d), failed := failed d @ [i]\<rparr>
      else d\<lparr>accepting := remove1 i (accepting d), failed := failed d @ [i]\<rparr>)"

inductive dummy_step :: "dummyDialerListener \<Rightarrow> dummyDialerListener \<Rightarrow> bool" where
  dial: "dummy_step d (connect d)"
| accept: "dummy_step d (Accept d)"
| close: "dummy_step d (Close d)"
| meet: "i \<in> set (dialing d) \<Longrightarrow> j \<in> set (accepting d) \<Longrightarrow> dummy_step d (rendezvous i j d)"
| fail_closed: "isClosed d \<Longrightarrow> i \<in> set (dialing d) \<union> set (accepting d) \<Longrightarrow> dummy_step d (give_up i d)"

inductive dummy_run :: "dummyDialerListener \<Rightarrow> bool" where
  dummy_new: "dummy_run newDummyDialerListener"
| dummy_next: "dummy_run d \<Longrightarrow> dummy_step d d' \<Longrightarrow> dummy_run d'"

text \<open>Every call is in exactly one place.\<close>

definition places :: "dummyDialerListener \<Rightarrow> nat list" where
  "places d = dialing d @ accepting d @ map fst (dialed d) @ map fst (accepted d) @ failed d"

definition dummy_inv :: "dummyDialerListener \<Rightarrow> bool" where
  "dummy_inv d \<longleftrightarrow> mset (places d) = mset [0..<calls d]
     \<and> map snd (accepted d) = map snd (dialed d) \<and> (\<forall>x \<in> set (dialed d). fst x = snd x)
     \<and> (\<not> isClosed d \<longrightarrow> failed d = [])"

lemmas dummy_defs = connect_def Accept_def Close_def rendezvous_def give_up_def places_def

lemma mset_remove1_add: "i \<in> set xs \<Longrightarrow> add_mset i (mset xs - {#i#}) = mset xs"
  by simp

lemma dummy_step_inv: "dummy_step d d' \<Longrightarrow> dummy_inv d \<Longrightarrow> dummy_inv d'"
proof (induction rule: dummy_step.induct)
  case (meet i d j)
  then have "mset (places (rendezvous i j d)) = mset (places d)"
    using mset_remove1_add [of i "dialing d"] mset_remove1_add [of j "accepting d"]
    by (simp add: dummy_defs)
  with meet show ?case
    by (simp add: dummy_inv_def) (simp add: rendezvous_def)
next
  case (fail_closed d i)
  then have "mset (places (give_up i d)) = mset (places d)"
    using mset_remove1_add [of i "dialing d"] mset_remove1_add [of i "accepting d"]
    by (auto simp: dummy_defs) 
  with fail_closed show ?case
    by (simp add: dummy_inv_def) (simp add: give_up_def)
qed (auto simp: dummy_inv_def dummy_defs)

lemma dummy_run_inv: "dummy_run d \<Longrightarrow> dummy_inv d"
proof (induction rule: dummy_run.induct)
  case dummy_new
  show ?case by (simp add: dummy_inv_def places_def newDummyDialerListener_def)
qed (rule dummy_step_inv)

text \<open>
  In every execution of the in-memory listener each connection it returns to a dialler is one
  end of a pipe whose other end it returned to exactly one acceptor, and no two calls share one.
  Calls fail only after \<^verbatim>\<open>Close\<close>, and then no call is stuck.
\<close>

theorem dummy_listener_pairs:
  assumes "dummy_run d"
  shows "distinct (map snd (dialed d)) \<and> map snd (accepted d) = map snd (dialed d)
    \<and> (failed d \<noteq> [] \<longrightarrow> isClosed d)
    \<and> (isClosed d \<longrightarrow> (\<forall>i \<in> set (dialing d) \<union> set (accepting d). dummy_step d (give_up i d)))"
proof -
  from dummy_run_inv [OF assms] have inv: "mset (places d) = mset [0..<calls d]"
    "map snd (accepted d) = map snd (dialed d)" "\<forall>x \<in> set (dialed d). fst x = snd x"
    "failed d \<noteq> [] \<longrightarrow> isClosed d"
    by (auto simp: dummy_inv_def)
  from inv(1) have "distinct (places d)"
    by (metis distinct_upt mset_eq_imp_distinct_iff)
  moreover from inv(3) have "map fst (dialed d) = map snd (dialed d)"
    by (simp only: map_eq_conv)
  ultimately have "distinct (map snd (dialed d))"
    by (simp only: places_def distinct_append)
  with inv(2,4) show ?thesis
    by (simp add: dummy_step.fail_closed)
qed

definition paired :: dummyDialerListener where
  "paired = rendezvous 0 1 (Accept (connect newDummyDialerListener))"

theorem dummy_listener_pairs_witness:
  "map snd (dialed paired) = [0] \<and> map snd (accepted paired) = map snd (dialed paired)"
proof -
  have "dummy_run (Accept (connect newDummyDialerListener))"
    by (rule dummy_next [OF dummy_next [OF dummy_new dial] accept])
  moreover have "dummy_step (Accept (connect newDummyDialerListener)) paired"
    unfolding paired_def by (rule meet) (simp_all add: dummy_defs newDummyDialerListener_def)
  ultimately have "dummy_run paired" by (rule dummy_next)
  from dummy_listener_pairs [OF this] show ?thesis
    by (simp add: paired_def dummy_defs newDummyDialerListener_def)
qed

end
