(* ===== verification/GoFlag.thy ===== *)
theory GoFlag
  imports Prelude
begin

text \<open>
  Go's package \<^verbatim>\<open>flag\<close> as the program uses it: a \<^verbatim>\<open>FlagSet\<close> with \<^verbatim>\<open>ContinueOnError\<close>,
  Boolean flags (which never take the next argument) and flags with a value. A flag set is a
  table of kinds and a function that assigns one flag of a configuration \<open>'c\<close>.
\<close>

section \<open>Boolean values\<close>

definition parseBool :: "string \<Rightarrow> bool option" where
  "parseBool s =
     (if s \<in> set [''1'', ''t'', ''T'', ''true'', ''TRUE'', ''True''] then Some True
      else if s \<in> set [''0'', ''f'', ''F'', ''false'', ''FALSE'', ''False''] then Some False
      else None)"

text \<open>\<^verbatim>\<open>boolValue.Set\<close> stores what \<^verbatim>\<open>ParseBool\<close> returned, \<^verbatim>\<open>false\<close> on an error, and reports it.\<close>

definition set_bool :: "(bool \<Rightarrow> 'c \<Rightarrow> 'c) \<Rightarrow> string \<Rightarrow> 'c \<Rightarrow> gerror option \<times> 'c" where
  "set_bool upd v c =
     (case parseBool v of
        Some b \<Rightarrow> (None, upd b c)
      | None \<Rightarrow> (Some (NewError ''parse error''), upd False c))"

definition set_string :: "(string \<Rightarrow> 'c \<Rightarrow> 'c) \<Rightarrow> string \<Rightarrow> 'c \<Rightarrow> gerror option \<times> 'c" where
  "set_string upd v c = (None, upd v c)"

section \<open>One argument, and the loop over all of them\<close>

datatype flag_kind = BoolFlag | ValueFlag

text \<open>A name and, after the first \<^verbatim>\<open>=\<close> that is not its first byte, a value.\<close>

fun cut_value :: "string \<Rightarrow> string \<times> string option" where
  "cut_value [] = ([], None)"
| "cut_value (c # s) =
     (case index_byte CHR ''='' s of
        None \<Rightarrow> (c # s, None)
      | Some i \<Rightarrow> (c # take i s, Some (drop (Suc i) s)))"

text \<open>The three results of \<^verbatim>\<open>parseOne\<close>: no flag, an error, or a flag was seen.\<close>

datatype 'c parsed = NoFlag | Failed gerror 'c | Seen "string list" 'c

definition assign :: "('c \<Rightarrow> gerror option \<times> 'c) \<Rightarrow> string \<Rightarrow> string list \<Rightarrow> 'c \<Rightarrow> 'c parsed" where
  "assign f what args c =
     (case f c of
        (None, c') \<Rightarrow> Seen args c'
      | (Some e, c') \<Rightarrow> Failed (Errorf what e) c')"

definition parse_flag ::
  "(string \<Rightarrow> flag_kind option) \<Rightarrow> (string \<Rightarrow> string \<Rightarrow> 'c \<Rightarrow> gerror option \<times> 'c)
     \<Rightarrow> string \<Rightarrow> string list \<Rightarrow> 'c \<Rightarrow> 'c parsed" where
  "parse_flag kinds setter body args c =
     (case cut_value body of (name, value) \<Rightarrow>
       (case kinds name of
          None \<Rightarrow>
            if name = ''help'' \<or> name = ''h'' then Failed (NewError ''flag: help requested'') c
            else Failed (NewError (''flag provided but not defined: -'' @ name)) c
        | Some BoolFlag \<Rightarrow>
            (case value of
               Some v \<Rightarrow> assign (setter name v) (''invalid boolean value for -'' @ name) args c
             | None \<Rightarrow> assign (setter name ''true'') (''invalid boolean flag '' @ name) args c)
        | Some ValueFlag \<Rightarrow>
            (case (value, args) of
               (Some v, _) \<Rightarrow> assign (setter name v) (''invalid value for flag -'' @ name) args c
             | (None, a # rest) \<Rightarrow>
                 assign (setter name a) (''invalid value for flag -'' @ name) rest c
             | (None, []) \<Rightarrow> Failed (NewError (''flag needs an argument: -'' @ name)) c)))"

definition bad_flag_syntax :: "string \<Rightarrow> bool" where
  "bad_flag_syntax name \<longleftrightarrow> name = [] \<or> hd name = CHR ''-'' \<or> hd name = CHR ''=''"

fun parse_one ::
  "(string \<Rightarrow> flag_kind option) \<Rightarrow> (string \<Rightarrow> string \<Rightarrow> 'c \<Rightarrow> gerror option \<times> 'c)
     \<Rightarrow> string list \<Rightarrow> 'c \<Rightarrow> 'c parsed" where
  "parse_one kinds setter [] c = NoFlag"
| "parse_one kinds setter (s # args) c =
     (if length s < 2 \<or> hd s \<noteq> CHR ''-'' then NoFlag
      else if s = ''--'' then NoFlag
      else let name = (if s ! 1 = CHR ''-'' then drop 2 s else drop 1 s) in
        if bad_flag_syntax name then Failed (NewError (''bad flag syntax: '' @ s)) c
        else parse_flag kinds setter name args c)"

lemma assign_Seen_args: "assign f w args c = Seen args' c' \<Longrightarrow> args' = args"
  by (auto simp: assign_def split: prod.splits option.splits)

lemma parse_flag_Seen_length:
  "parse_flag kinds setter body args c = Seen args' c' \<Longrightarrow> length args' \<le> length args"
  by (auto simp: parse_flag_def dest: assign_Seen_args
      split: prod.splits option.splits flag_kind.splits list.splits if_splits)

lemma parse_one_Seen_length:
  "parse_one kinds setter args c = Seen args' c' \<Longrightarrow> length args' < length args"
  by (cases args) (auto simp: Let_def dest!: parse_flag_Seen_length split: if_splits)

text \<open>\<^verbatim>\<open>FlagSet.Parse\<close>: the error, if any, and the configuration as assigned so far.\<close>

function flag_parse ::
  "(string \<Rightarrow> flag_kind option) \<Rightarrow> (string \<Rightarrow> string \<Rightarrow> 'c \<Rightarrow> gerror option \<times> 'c)
     \<Rightarrow> string list \<Rightarrow> 'c \<Rightarrow> gerror option \<times> 'c" where
  "flag_parse kinds setter args c =
     (case parse_one kinds setter args c of
        NoFlag \<Rightarrow> (None, c)
      | Failed e c' \<Rightarrow> (Some e, c')
      | Seen args' c' \<Rightarrow> flag_parse kinds setter args' c')"
  by pat_completeness auto
termination
  by (relation "measure (\<lambda>(kinds, setter, args, c). length args)")
    (auto dest: parse_one_Seen_length)

declare flag_parse.simps [simp del]

section \<open>How single arguments are parsed\<close>

lemma flag_parse_Nil [simp]: "flag_parse kinds setter [] c = (None, c)"
  by (simp add: flag_parse.simps)

text \<open>An argument that is no flag ends the parse: whatever follows it is ignored.\<close>

lemma flag_parse_stops:
  "length s < 2 \<or> hd s \<noteq> CHR ''-'' \<Longrightarrow> flag_parse kinds setter (s # args) c = (None, c)"
  by (simp add: flag_parse.simps)

definition plain_flag_name :: "string \<Rightarrow> bool" where
  "plain_flag_name n \<longleftrightarrow> n \<noteq> [] \<and> hd n \<noteq> CHR ''-'' \<and> CHR ''='' \<notin> set n"

lemma cut_value_plain: "plain_flag_name n \<Longrightarrow> cut_value n = (n, None)"
proof (cases n)
  case (Cons c s)
  assume "plain_flag_name n"
  with Cons have "index_byte CHR ''='' s = None" by (simp add: plain_flag_name_def)
  with Cons show ?thesis by (simp del: index_byte_None)
qed (simp add: plain_flag_name_def)

lemma parse_one_plain:
  assumes "plain_flag_name n"
  shows "parse_one kinds setter ((CHR ''-'' # n) # args) c = parse_flag kinds setter n args c"
proof -
  from assms obtain x xs where n: "n = x # xs" "x \<noteq> CHR ''-''" "x \<noteq> CHR ''=''"
    by (cases n) (auto simp: plain_flag_name_def)
  then show ?thesis by (simp add: bad_flag_syntax_def)
qed

lemma flag_parse_bool:
  assumes "plain_flag_name n" "kinds n = Some BoolFlag" "setter n ''true'' c = (None, c')"
  shows "flag_parse kinds setter ((CHR ''-'' # n) # args) c = flag_parse kinds setter args c'"
  by (subst flag_parse.simps)
    (simp add: parse_one_plain assms parse_flag_def cut_value_plain assign_def
      del: parse_one.simps)

lemma flag_parse_value:
  assumes "plain_flag_name n" "kinds n = Some ValueFlag" "setter n v c = (None, c')"
  shows "flag_parse kinds setter ((CHR ''-'' # n) # v # args) c = flag_parse kinds setter args c'"
  by (subst flag_parse.simps)
    (simp add: parse_one_plain assms parse_flag_def cut_value_plain assign_def
      del: parse_one.simps)

lemma flag_parse_value_error:
  assumes "plain_flag_name n" "kinds n = Some ValueFlag" "setter n v c = (Some e, c')"
  shows "flag_parse kinds setter ((CHR ''-'' # n) # v # args) c =
    (Some (Errorf (''invalid value for flag -'' @ n) e), c')"
  by (subst flag_parse.simps)
    (simp add: parse_one_plain assms parse_flag_def cut_value_plain assign_def
      del: parse_one.simps)

lemma flag_parse_undefined:
  assumes "plain_flag_name n" "kinds n = None" "n \<noteq> ''help''" "n \<noteq> ''h''"
  shows "flag_parse kinds setter ((CHR ''-'' # n) # args) c =
    (Some (NewError (''flag provided but not defined: -'' @ n)), c)"
  by (subst flag_parse.simps)
    (simp add: parse_one_plain assms parse_flag_def cut_value_plain del: parse_one.simps)

end
