(* ===== verification/Sip003.thy ===== *)
theory Sip003
  imports NetAddr GoFlag
begin

text \<open>
  The SIP003 plugin interface, \<^verbatim>\<open>src/internal/core/sip003.go\<close>: reading the plugin's
  environment variables and turning \<^verbatim>\<open>SS_PLUGIN_OPTIONS\<close> into a command line.
\<close>

section \<open>Arguments from the environment\<close>

record SIP003Args =
  SS_REMOTE_HOST :: string
  SS_REMOTE_PORT :: string
  SS_LOCAL_HOST :: string
  SS_LOCAL_PORT :: string
  SS_PLUGIN_OPTIONS :: string
  VPN :: bool
  TFO :: bool

definition GetRemoteAddr :: "SIP003Args \<Rightarrow> string" where
  "GetRemoteAddr args = JoinHostPort (SS_REMOTE_HOST args) (SS_REMOTE_PORT args)"

definition GetLocalAddr :: "SIP003Args \<Rightarrow> string" where
  "GetLocalAddr args = JoinHostPort (SS_LOCAL_HOST args) (SS_LOCAL_PORT args)"

text \<open>The flag set \<^verbatim>\<open>additional\<close>: its two Boolean variables and how a flag assigns them.\<close>

record additional =
  tfo :: bool
  vpn :: bool

definition additional_kinds :: "string \<Rightarrow> flag_kind option" where
  "additional_kinds n = (if n = ''fast-open'' \<or> n = ''V'' then Some BoolFlag else None)"

definition additional_set :: "string \<Rightarrow> string \<Rightarrow> additional \<Rightarrow> gerror option \<times> additional" where
  "additional_set n v a =
     (if n = ''fast-open'' then set_bool (\<lambda>b. tfo_update (\<lambda>_. b)) v a
      else set_bool (\<lambda>b. vpn_update (\<lambda>_. b)) v a)"

text \<open>
  \<open>env\<close> is \<^verbatim>\<open>os.LookupEnv\<close>, with the empty string as the value of a variable that is not
  set; \<open>argv\<close> is \<^verbatim>\<open>os.Args[1:]\<close>. The error of \<^verbatim>\<open>additional.Parse\<close> is dropped.
\<close>

definition lookup_env :: "(string \<Rightarrow> string option) \<Rightarrow> string \<Rightarrow> string \<times> bool" where
  "lookup_env env k = (case env k of None \<Rightarrow> ([], False) | Some v \<Rightarrow> (v, True))"

definition GetSIP003Args ::
  "(string \<Rightarrow> string option) \<Rightarrow> string list \<Rightarrow> (SIP003Args option) res" where
  "GetSIP003Args env argv =
     (let (srh, srhOk) = lookup_env env ''SS_REMOTE_HOST'';
          (srp, srpOk) = lookup_env env ''SS_REMOTE_PORT'';
          (slh, slhOk) = lookup_env env ''SS_LOCAL_HOST'';
          (slp, slpOk) = lookup_env env ''SS_LOCAL_PORT'';
          (spo, spoOk) = lookup_env env ''SS_PLUGIN_OPTIONS''
      in if srhOk \<or> srpOk \<or> slhOk \<or> slpOk \<or> spoOk then
           (if \<not> (srhOk \<and> srpOk \<and> slhOk \<and> slpOk) then Inl ErrBrokenSIP003Args
            else let a = snd (flag_parse additional_kinds additional_set argv
                                \<lparr>tfo = False, vpn = False\<rparr>)
              in Inr (Some \<lparr>SS_REMOTE_HOST = srh, SS_REMOTE_PORT = srp, SS_LOCAL_HOST = slh,
                            SS_LOCAL_PORT = slp, SS_PLUGIN_OPTIONS = spo,
                            VPN = vpn a, TFO = tfo a\<rparr>))
         else Inr None)"

section \<open>Plugin options to a command line\<close>

definition invalid_option :: "string \<Rightarrow> gerror" where
  "invalid_option so = NewError (''invalid option string ['' @ so @ '']'')"

text \<open>The loop of \<^verbatim>\<open>FormatSSPluginOptions\<close>, with \<^verbatim>\<open>commandLineOption\<close> as accumulator.\<close>

fun format_loop :: "string list \<Rightarrow> string list \<Rightarrow> (string list) res" where
  "format_loop acc [] = Inr acc"
| "format_loop acc (so # op) =
     (case split_on CHR ''='' so of
        [k] \<Rightarrow> format_loop (acc @ [''-'' @ k]) op
      | [k, v] \<Rightarrow> format_loop (acc @ [''-'' @ k, v]) op
      | _ \<Rightarrow> Inl (invalid_option so))"

definition FormatSSPluginOptions :: "string \<Rightarrow> (string list) res" where
  "FormatSSPluginOptions spo = format_loop [] (split_on CHR '';'' spo)"

section \<open>Properties of the option syntax\<close>

text \<open>
  An option is a key with or without a value. \<open>opt_text\<close> writes it as SIP003 does, \<open>opt_args\<close>
  is what it means on a command line.
\<close>

type_synonym plugin_opt = "string \<times> string option"

fun opt_text :: "plugin_opt \<Rightarrow> string" where
  "opt_text (k, None) = k"
| "opt_text (k, Some v) = k @ CHR ''='' # v"

fun opt_args :: "plugin_opt \<Rightarrow> string list" where
  "opt_args (k, None) = [CHR ''-'' # k]"
| "opt_args (k, Some v) = [CHR ''-'' # k, v]"

definition sep_free :: "string \<Rightarrow> bool" where
  "sep_free s \<longleftrightarrow> CHR '';'' \<notin> set s \<and> CHR ''='' \<notin> set s"

fun opt_ok :: "plugin_opt \<Rightarrow> bool" where
  "opt_ok (k, None) = sep_free k"
| "opt_ok (k, Some v) = (sep_free k \<and> sep_free v)"

lemma split_opt_text:
  "opt_ok (k, None) \<Longrightarrow> split_on CHR ''='' (opt_text (k, None)) = [k]"
  "opt_ok (k, Some v) \<Longrightarrow> split_on CHR ''='' (opt_text (k, Some v)) = [k, v]"
  by (auto simp: sep_free_def split_on_free split_on_append)

lemma format_loop_opts:
  "\<forall>p \<in> set opts. opt_ok p \<Longrightarrow>
     format_loop acc (map opt_text opts) = Inr (acc @ concat (map opt_args opts))"
proof (induction opts arbitrary: acc)
  case (Cons p opts)
  obtain k v where p: "p = (k, v)" by (cases p)
  from Cons.prems have "opt_ok (k, v)" and "\<forall>q \<in> set opts. opt_ok q" by (auto simp: p)
  then show ?case
    using Cons.IH by (cases v) (simp_all add: p split_opt_text del: opt_text.simps opt_ok.simps)
qed simp

lemma opt_text_no_semicolon: "opt_ok p \<Longrightarrow> CHR '';'' \<notin> set (opt_text p)"
  by (cases p rule: opt_ok.cases) (auto simp: sep_free_def)



text \<open>A segment is bad when it has two or more \<^verbatim>\<open>=\<close>.\<close>

definition bad_segment :: "string \<Rightarrow> bool" where
  "bad_segment so \<longleftrightarrow> 2 \<le> count_list so CHR ''=''"

lemma split_eq_cases:
  assumes "\<not> bad_segment so"
  obtains k where "split_on CHR ''='' so = [k]" | k v where "split_on CHR ''='' so = [k, v]"
proof -
  have "length (split_on CHR ''='' so) < 3"
    using assms by (simp add: bad_segment_def length_split_on)
  moreover have "split_on CHR ''='' so \<noteq> []" by simp
  ultimately show ?thesis
    using that by (cases "split_on CHR ''='' so"; cases "tl (split_on CHR ''='' so)") auto
qed

lemma format_segment_ok:
  assumes "\<not> bad_segment so"
  shows "\<exists>as. (\<forall>acc op. format_loop acc (so # op) = format_loop (acc @ as) op)
      \<and> 1 \<le> length as \<and> length as \<le> 2"
proof (rule split_eq_cases [OF assms])
  fix k assume "split_on CHR ''='' so = [k]"
  then show ?thesis by (intro exI [of _ "[''-'' @ k]"]) simp
next
  fix k v assume "split_on CHR ''='' so = [k, v]"
  then show ?thesis by (intro exI [of _ "[''-'' @ k, v]"]) simp
qed

lemma format_segment_bad:
  assumes "bad_segment so"
  shows "format_loop acc (so # op) = Inl (invalid_option so)"
proof -
  have "Suc (Suc (Suc 0)) \<le> length (split_on CHR ''='' so)"
    using assms by (simp add: bad_segment_def length_split_on)
  then obtain a b c ws where "split_on CHR ''='' so = a # b # c # ws"
    by (auto simp only: Suc_le_length_iff)
  then show ?thesis by simp
qed

lemma format_loop_find:
  "case find bad_segment op of
     None \<Rightarrow> (\<exists>as. format_loop acc op = Inr (acc @ as)
               \<and> length op \<le> length as \<and> length as \<le> 2 * length op)
   | Some so \<Rightarrow> format_loop acc op = Inl (invalid_option so)"
proof (induction op arbitrary: acc)
  case (Cons so op)
  show ?case
  proof (cases "bad_segment so")
    case True
    then show ?thesis by (simp only: find.simps if_True option.case format_segment_bad)
  next
    case False
    then obtain as where as: "\<And>acc op. format_loop acc (so # op) = format_loop (acc @ as) op"
      "1 \<le> length as" "length as \<le> 2"
      using format_segment_ok by blast
    show ?thesis
    proof (cases "find bad_segment op")
      case None
      with Cons.IH [of "acc @ as"] obtain bs where "format_loop (acc @ as) op = Inr ((acc @ as) @ bs)"
        and "length op \<le> length bs" "length bs \<le> 2 * length op" by auto
      with False None as show ?thesis
        by (auto simp del: format_loop.simps intro!: exI [of _ "as @ bs"])
    next
      case (Some t)
      with Cons.IH [of "acc @ as"] False as(1) show ?thesis
        by (simp del: format_loop.simps)
    qed
  qed
qed simp

text \<open>
  (error branch) \<^verbatim>\<open>FormatSSPluginOptions\<close> fails exactly when some \<^verbatim>\<open>;\<close>-separated
  segment holds two or more \<^verbatim>\<open>=\<close>; the error names the first such segment. Otherwise it returns
  between one and two arguments per segment.
\<close>

theorem FormatSSPluginOptions_result:
  "case find bad_segment (split_on CHR '';'' spo) of
     None \<Rightarrow> (\<exists>as. FormatSSPluginOptions spo = Inr as
               \<and> Suc (count_list spo CHR '';'') \<le> length as
               \<and> length as \<le> 2 * Suc (count_list spo CHR '';''))
   | Some so \<Rightarrow> FormatSSPluginOptions spo =
       Inl (invalid_option so)"
  using format_loop_find [where op = "split_on CHR '';'' spo" and acc = "[]"]
  unfolding FormatSSPluginOptions_def length_split_on append_Nil .

section \<open>Properties of the environment\<close>

text \<open>
  (addresses) Whenever the four address variables are set, the arguments are found, and
  for hosts and ports without brackets (and ports without colons) the two addresses the program
  binds and dials split back into exactly the host and port of the environment, IPv6 hosts
  included.
\<close>

theorem GetSIP003Args_addresses:
  assumes "env ''SS_REMOTE_HOST'' = Some rh" "env ''SS_REMOTE_PORT'' = Some rp"
    and "env ''SS_LOCAL_HOST'' = Some lh" "env ''SS_LOCAL_PORT'' = Some lp"
    and "clean_host rh" "clean_port rp" "clean_host lh" "clean_port lp"
  shows "\<exists>a. GetSIP003Args env argv = Inr (Some a)
      \<and> SplitHostPort (GetRemoteAddr a) = Inr (rh, rp)
      \<and> SplitHostPort (GetLocalAddr a) = Inr (lh, lp)"
  using assms
  by (auto simp: GetSIP003Args_def lookup_env_def Let_def GetRemoteAddr_def GetLocalAddr_def
      SplitHostPort_JoinHostPort split: prod.splits option.splits)

definition sample_env :: "string \<Rightarrow> string option" where
  "sample_env = map_of [(''SS_REMOTE_HOST'', ''2001:db8::1''), (''SS_REMOTE_PORT'', ''443''),
     (''SS_LOCAL_HOST'', ''127.0.0.1''), (''SS_LOCAL_PORT'', ''1080'')]"

theorem GetSIP003Args_addresses_witness:
  "\<exists>a. GetSIP003Args sample_env [''-V''] = Inr (Some a)
     \<and> SplitHostPort (GetRemoteAddr a) = Inr (''2001:db8::1'', ''443'')
     \<and> SplitHostPort (GetLocalAddr a) = Inr (''127.0.0.1'', ''1080'')"
  by (rule GetSIP003Args_addresses)
    (simp_all add: sample_env_def clean_host_def clean_port_def)

end
