(* ===== verification/GoNumbers.thy ===== *)
theory GoNumbers
  imports Prelude
begin

text \<open>
  Numbers as text, as Go 1.13 reads and writes them for this program: decimal digits,
  \<^verbatim>\<open>strconv.ParseInt(s, 0, 64)\<close> and \<^verbatim>\<open>time.ParseDuration\<close>. Integers are 64 bits wide; the bounds are
  written out.
\<close>

section \<open>Decimal digits\<close>

fun digits :: "nat \<Rightarrow> string" where
  "digits n = (if n < 10 then [char_of (48 + n)] else digits (n div 10) @ [char_of (48 + n mod 10)])"

declare digits.simps [simp del]

definition itoa :: "int \<Rightarrow> string" where
  "itoa i = (if i < 0 then CHR ''-'' # digits (nat (- i)) else digits (nat i))"

definition is_digit :: "char \<Rightarrow> bool" where
  "is_digit c \<longleftrightarrow> 48 \<le> (of_char c :: nat) \<and> (of_char c :: nat) \<le> 57"

definition digit_val :: "char \<Rightarrow> nat" where
  "digit_val c = of_char c - 48"

text \<open>Reading a decimal number back.\<close>

definition undigits :: "string \<Rightarrow> nat" where
  "undigits s = foldl (\<lambda>a c. a * 10 + digit_val c) 0 s"

lemma digit_char [simp]:
  "d < 10 \<Longrightarrow> is_digit (char_of (48 + d))" "d < 10 \<Longrightarrow> digit_val (char_of (48 + d)) = d"
  by (simp_all add: is_digit_def digit_val_def)

lemma undigits_digits [simp]: "undigits (digits n) = n"
proof (induction n rule: digits.induct)
  case (1 n)
  show ?case
  proof (cases "n < 10")
    case True
    then show ?thesis by (subst digits.simps) (simp add: undigits_def)
  next
    case False
    with 1 show ?thesis by (subst digits.simps) (simp add: undigits_def)
  qed
qed

lemma digits_digit: "list_all is_digit (digits n)"
proof (induction n rule: digits.induct)
  case (1 n)
  then show ?case by (subst digits.simps) simp
qed

lemma digits_not_Nil [simp]: "digits n \<noteq> []"
  by (subst digits.simps) simp

lemma digits_no_leading_zero: "0 < n \<Longrightarrow> hd (digits n) \<noteq> CHR ''0''"
proof (induction n rule: digits.induct)
  case (1 n)
  show ?case
  proof (cases "n < 10")
    case True
    have "char_of (48 + n) \<noteq> CHR ''0''"
    proof
      assume "char_of (48 + n) = CHR ''0''"
      then have "digit_val (char_of (48 + n)) = digit_val CHR ''0''" by (rule arg_cong)
      with digit_char(2) [OF True] 1(2) show False by (simp add: digit_val_def)
    qed
    with True show ?thesis by (subst digits.simps) simp
  next
    case False
    with 1 show ?thesis by (subst digits.simps) simp
  qed
qed

section \<open>ParseInt\<close>

definition lower_byte :: "char \<Rightarrow> char" where
  "lower_byte c = char_of (or (of_char c :: nat) 32)"

definition maxUint64 :: int where "maxUint64 = 2 ^ 64 - 1"
definition maxInt64 :: int where "maxInt64 = 2 ^ 63 - 1"

definition errParse :: gerror where "errParse = NewError ''parse error''"
definition errRange :: gerror where "errRange = NewError ''value out of range''"

text \<open>The digit loop of \<^verbatim>\<open>ParseUint\<close> with base prefixes: the value, the error, and whether an
  underscore was skipped.\<close>

definition char_digit :: "char \<Rightarrow> nat option" where
  "char_digit c =
     (let l = lower_byte c in
      if is_digit c then Some (digit_val c)
      else if 97 \<le> (of_char l :: nat) \<and> (of_char l :: nat) \<le> 122 then Some (of_char l - 97 + 10)
      else None)"

fun uint_loop :: "nat \<Rightarrow> bool \<Rightarrow> int \<Rightarrow> string \<Rightarrow> (int \<times> bool, int \<times> gerror) sum" where
  "uint_loop base us n [] = Inl (n, us)"
| "uint_loop base us n (c # s) =
     (if c = CHR ''_'' then uint_loop base True n s
      else (case char_digit c of
          None \<Rightarrow> Inr (0, errParse)
        | Some d \<Rightarrow>
            if d \<ge> base then Inr (0, errParse)
            else if n * int base + int d > maxUint64 then Inr (maxUint64, errRange)
            else uint_loop base us (n * int base + int d) s))"

text \<open>The base and the digits that follow its prefix, for base argument 0.\<close>

definition base_prefix :: "string \<Rightarrow> nat \<times> string" where
  "base_prefix s =
     (if s \<noteq> [] \<and> s ! 0 = CHR ''0'' then
        (if length s \<ge> 3 \<and> lower_byte (s ! 1) = CHR ''b'' then (2, drop 2 s)
         else if length s \<ge> 3 \<and> lower_byte (s ! 1) = CHR ''o'' then (8, drop 2 s)
         else if length s \<ge> 3 \<and> lower_byte (s ! 1) = CHR ''x'' then (16, drop 2 s)
         else (8, drop 1 s))
      else (10, s))"

text \<open>\<^verbatim>\<open>underscoreOK\<close>; \<open>saw\<close> is the class of the previous character.\<close>

fun us_loop :: "bool \<Rightarrow> char \<Rightarrow> string \<Rightarrow> bool" where
  "us_loop hex saw [] = (saw \<noteq> CHR ''_'')"
| "us_loop hex saw (c # s) =
     (if is_digit c \<or> (hex \<and> 97 \<le> (of_char (lower_byte c) :: nat) \<and> (of_char (lower_byte c) :: nat) \<le> 102)
      then us_loop hex CHR ''0'' s
      else if c = CHR ''_'' then (if saw \<noteq> CHR ''0'' then False else us_loop hex CHR ''_'' s)
      else if saw = CHR ''_'' then False
      else us_loop hex CHR ''!'' s)"

definition underscoreOK :: "string \<Rightarrow> bool" where
  "underscoreOK s =
     (if length s \<ge> 2 \<and> s ! 0 = CHR ''0'' \<and> lower_byte (s ! 1) \<in> {CHR ''b'', CHR ''o'', CHR ''x''}
      then us_loop (lower_byte (s ! 1) = CHR ''x'') CHR ''0'' (drop 2 s)
      else us_loop False (CHR 0x5E) s)"

definition ParseUint :: "string \<Rightarrow> int \<times> gerror option" where
  "ParseUint s =
     (if s = [] then (0, Some errParse)
      else (case base_prefix s of (base, t) \<Rightarrow>
        (case uint_loop base False 0 t of
           Inr (n, e) \<Rightarrow> (n, Some e)
         | Inl (n, us) \<Rightarrow> if us \<and> \<not> underscoreOK s then (0, Some errParse) else (n, None))))"

text \<open>The value is returned, and assigned by the flag, even with an error.\<close>

definition ParseInt :: "string \<Rightarrow> int \<times> gerror option" where
  "ParseInt s =
     (if s = [] then (0, Some errParse)
      else let neg = (s ! 0 = CHR ''-'');
               t = (if s ! 0 = CHR ''-'' \<or> s ! 0 = CHR ''+'' then drop 1 s else s) in
        (case ParseUint t of (un, e) \<Rightarrow>
          if e \<noteq> None \<and> e \<noteq> Some errRange then (0, e)
          else if \<not> neg \<and> un \<ge> 2 ^ 63 then (2 ^ 63 - 1, Some errRange)
          else if neg \<and> un > 2 ^ 63 then (- (2 ^ 63), Some errRange)
          else (if neg then - un else un, None)))"

section \<open>ParseDuration\<close>

text \<open>
  Durations are nanoseconds. A fraction goes through floating-point arithmetic: \<open>frac f unit scale\<close>
  is \<^verbatim>\<open>int64(float64(f) * (float64(unit) / scale))\<close>.
\<close>

type_synonym fraction = "int \<Rightarrow> int \<Rightarrow> int \<Rightarrow> int"

definition exact_fraction :: fraction where
  "exact_fraction f unit scale = f * unit div scale"

definition errDuration :: gerror where "errDuration = NewError ''time: invalid duration''"

definition unit_of :: "string \<Rightarrow> int option" where
  "unit_of u =
     (if u = ''ns'' then Some 1
      else if u = ''us'' \<or> u = [CHR 0xC2, CHR 0xB5, CHR ''s''] \<or> u = [CHR 0xCE, CHR 0xBC, CHR ''s''] then Some 1000
      else if u = ''ms'' then Some 1000000
      else if u = ''s'' then Some 1000000000
      else if u = ''m'' then Some 60000000000
      else if u = ''h'' then Some 3600000000000
      else None)"

text \<open>\<^verbatim>\<open>leadingInt\<close>: \<open>None\<close> is its overflow.\<close>

fun leadingInt :: "int \<Rightarrow> string \<Rightarrow> (int \<times> string) option" where
  "leadingInt x [] = Some (x, [])"
| "leadingInt x (c # s) =
     (if \<not> is_digit c then Some (x, c # s)
      else if x > maxInt64 div 10 then None
      else if x * 10 + int (digit_val c) > maxInt64 then None
      else leadingInt (x * 10 + int (digit_val c)) s)"

text \<open>\<^verbatim>\<open>leadingFraction\<close> stops counting, but not reading, at an overflow.\<close>

fun leadingFraction :: "bool \<Rightarrow> int \<Rightarrow> int \<Rightarrow> string \<Rightarrow> int \<times> int \<times> string" where
  "leadingFraction over x scale [] = (x, scale, [])"
| "leadingFraction over x scale (c # s) =
     (if \<not> is_digit c then (x, scale, c # s)
      else if over then leadingFraction True x scale s
      else if x > maxInt64 div 10 \<or> x * 10 + int (digit_val c) > maxInt64 then leadingFraction True x scale s
      else leadingFraction False (x * 10 + int (digit_val c)) (scale * 10) s)"

definition take_fraction :: "string \<Rightarrow> int \<times> int \<times> bool \<times> string" where
  "take_fraction s =
     (if s \<noteq> [] \<and> hd s = CHR ''.'' then
        (case leadingFraction False 0 1 (tl s) of
           (f, scale, s') \<Rightarrow> (f, scale, length s' \<noteq> length (tl s), s'))
      else (0, 1, False, s))"

definition unit_char :: "char \<Rightarrow> bool" where
  "unit_char c \<longleftrightarrow> \<not> (c = CHR ''.'' \<or> is_digit c)"

text \<open>One round of the loop: a number with its unit, and the rest.\<close>

definition duration_item :: "fraction \<Rightarrow> string \<Rightarrow> (int \<times> string) option" where
  "duration_item frac s =
     (if \<not> (hd s = CHR ''.'' \<or> is_digit (hd s)) then None
      else (case leadingInt 0 s of
          None \<Rightarrow> None
        | Some (v, s1) \<Rightarrow>
          (case take_fraction s1 of (f, scale, post, s2) \<Rightarrow>
            let pre = (length s1 \<noteq> length s); u = takeWhile unit_char s2 in
            if \<not> pre \<and> \<not> post then None
            else if u = [] then None
            else (case unit_of u of
                None \<Rightarrow> None
              | Some unit \<Rightarrow>
                  if v > maxInt64 div unit then None
                  else let v' = v * unit + (if f > 0 then frac f unit scale else 0) in
                    if v' > maxInt64 \<or> v' < 0 then None
                    else Some (v', dropWhile unit_char s2)))))"

lemma leadingInt_length: "leadingInt x s = Some (v, s') \<Longrightarrow> length s' \<le> length s"
  by (induction x s arbitrary: v s' rule: leadingInt.induct) (fastforce split: if_splits)+

lemma leadingFraction_length: "leadingFraction ov x sc s = (f, sc', s') \<Longrightarrow> length s' \<le> length s"
  by (induction ov x sc s arbitrary: f sc' s' rule: leadingFraction.induct) (fastforce split: if_splits)+

lemma take_fraction_length: "take_fraction s = (f, sc, p, s') \<Longrightarrow> length s' \<le> length s"
  by (cases s) (auto simp: take_fraction_def dest: leadingFraction_length split: if_splits prod.splits)

lemma duration_item_length:
  assumes "duration_item frac s = Some (v, s')"
  shows "length s' < length s"
proof -
  from assms obtain n s1 where i: "leadingInt 0 s = Some (n, s1)"
    by (auto simp: duration_item_def split: option.splits if_splits)
  obtain f sc p s2 where t: "take_fraction s1 = (f, sc, p, s2)" by (metis prod_cases4)
  from assms have s': "s' = dropWhile unit_char s2" and u: "takeWhile unit_char s2 \<noteq> []"
    by (simp_all add: duration_item_def Let_def i t split: option.splits if_splits)
  from u have "length (dropWhile unit_char s2) < length s2"
    by (metis takeWhile_dropWhile_id length_append length_greater_0_conv less_add_same_cancel2)
  with leadingInt_length [OF i] take_fraction_length [OF t] s' show ?thesis by simp
qed

function duration_loop :: "fraction \<Rightarrow> int \<Rightarrow> string \<Rightarrow> int option" where
  "duration_loop frac d s =
     (if s = [] then Some d
      else (case duration_item frac s of
          None \<Rightarrow> None
        | Some (v, s') \<Rightarrow> if d + v > maxInt64 then None else duration_loop frac (d + v) s'))"
  by pat_completeness auto
termination
  by (relation "measure (\<lambda>(frac, d, s). length s)") (auto dest: duration_item_length)

declare duration_loop.simps [simp del]

definition ParseDuration :: "fraction \<Rightarrow> string \<Rightarrow> int res" where
  "ParseDuration frac s =
     (let neg = (s \<noteq> [] \<and> hd s = CHR ''-'');
          t = (if s \<noteq> [] \<and> (hd s = CHR ''-'' \<or> hd s = CHR ''+'') then tl s else s) in
      if t = ''0'' then Inr 0
      else if t = [] then Inl errDuration
      else (case duration_loop frac 0 t of
          None \<Rightarrow> Inl errDuration
        | Some d \<Rightarrow> Inr (if neg then - d else d)))"

section \<open>Bounds and round trips\<close>

lemma uint_loop_range: "uint_loop b us n s = Inl (m, us') \<Longrightarrow> 0 \<le> n \<Longrightarrow> n \<le> maxUint64 \<Longrightarrow> 0 \<le> m \<and> m \<le> maxUint64"
  by (induction b us n s rule: uint_loop.induct) (auto split: if_splits option.splits)

lemma uint_loop_error: "uint_loop b us m t = Inr (n, e) \<Longrightarrow> n = 0 \<or> n = maxUint64"
  by (induction b us m t rule: uint_loop.induct) (auto split: if_splits option.splits)

lemma ParseUint_range: "0 \<le> fst (ParseUint s) \<and> fst (ParseUint s) \<le> maxUint64"
proof -
  have pos: "0 \<le> maxUint64" by (simp add: maxUint64_def)
  obtain b t where bt: "base_prefix s = (b, t)" by (cases "base_prefix s")
  show ?thesis
  proof (cases "uint_loop b False 0 t")
    case (Inl p)
    then show ?thesis
      using uint_loop_range [of b False 0 t "fst p" "snd p"] pos
      by (auto simp: ParseUint_def bt split: prod.splits)
  next
    case (Inr p)
    then show ?thesis
      using uint_loop_error [of b False 0 t "fst p" "snd p"] pos
      by (auto simp: ParseUint_def bt split: prod.splits)
  qed
qed

text \<open>The value a flag stores is a 64-bit integer, also when there is an error.\<close>

lemma ParseInt_range: "fst (ParseInt s) \<in> {- (2 ^ 63) ..< 2 ^ 63}"
  using ParseUint_range [of "if s ! 0 = CHR ''-'' \<or> s ! 0 = CHR ''+'' then drop 1 s else s"]
  by (auto simp: ParseInt_def Let_def split: prod.splits)

lemma digits_0: "digits 0 = ''0''"
  by code_simp

lemma digit_facts:
  assumes "is_digit c"
  shows "c \<noteq> CHR ''_''" "c \<noteq> CHR ''-''" "c \<noteq> CHR ''+''" "c \<noteq> CHR ''.''" "char_digit c = Some (digit_val c)"
    "digit_val c < 10"
  using assms by (auto simp: is_digit_def char_digit_def digit_val_def)

lemma foldl_digits:
  "foldl (\<lambda>a c. a * 10 + digit_val c) n s =
     n * 10 ^ length s + foldl (\<lambda>a c. a * 10 + digit_val c) 0 s"
proof (induction s arbitrary: n)
  case (Cons c s)
  from Cons [of "n * 10 + digit_val c"] Cons [of "digit_val c"] show ?case
    by (simp add: algebra_simps)
qed simp

lemma undigits_Cons: "undigits (c # s) = digit_val c * 10 ^ length s + undigits s"
  using foldl_digits [of "digit_val c" s] by (simp add: undigits_def)

lemma uint_loop_digits:
  "list_all is_digit s \<Longrightarrow> n * 10 ^ length s + int (undigits s) \<le> maxUint64 \<Longrightarrow> 0 \<le> n \<Longrightarrow>
     uint_loop 10 us n s = Inl (n * 10 ^ length s + int (undigits s), us)"
proof (induction s arbitrary: n)
  case (Cons c s)
  then have d: "is_digit c" by simp
  have eq: "n * 10 ^ length (c # s) + int (undigits (c # s)) =
      (n * 10 + int (digit_val c)) * 10 ^ length s + int (undigits s)"
    by (simp add: undigits_Cons algebra_simps)
  have "1 * (n * 10 + int (digit_val c)) \<le> 10 ^ length s * (n * 10 + int (digit_val c))"
    using Cons.prems(3) by (intro mult_right_mono) simp_all
  then have "n * 10 + int (digit_val c) \<le> maxUint64"
    using Cons.prems(2) unfolding eq by (simp add: mult.commute)
  then show ?case
    using Cons.IH [of "n * 10 + int (digit_val c)"] Cons.prems digit_facts [OF d] unfolding eq
    by simp
qed (simp add: undigits_def)

lemma ParseUint_digits:
  assumes "int n \<le> maxUint64"
  shows "ParseUint (digits n) = (int n, None)"
proof (cases "n = 0")
  case True
  then show ?thesis by (simp add: digits_0 ParseUint_def base_prefix_def)
next
  case False
  then have "base_prefix (digits n) = (10, digits n)"
    using digits_no_leading_zero [of n] by (simp add: base_prefix_def hd_conv_nth)
  then show ?thesis
    using uint_loop_digits [OF digits_digit, of 0 n False] assms by (simp add: ParseUint_def)
qed

lemma hd_digits: "is_digit (hd (digits n))"
  using digits_digit [of n] by (metis digits_not_Nil list_all_iff hd_in_set)

text \<open>Reading back what \<^verbatim>\<open>strconv.Itoa\<close> writes.\<close>

lemma ParseInt_itoa:
  assumes "- (2 ^ 63) \<le> i" "i < 2 ^ 63"
  shows "ParseInt (itoa i) = (i, None)"
proof (cases "i < 0")
  case True
  have "ParseUint (digits (nat (- i))) = (- i, None)"
    using True assms(1) by (subst ParseUint_digits) (simp_all add: maxUint64_def)
  with True assms(1) show ?thesis by (simp add: ParseInt_def itoa_def)
next
  case False
  have "ParseUint (digits (nat i)) = (i, None)"
    using False assms(2) by (subst ParseUint_digits) (simp_all add: maxUint64_def)
  moreover have "digits (nat i) ! 0 \<noteq> CHR ''-''" "digits (nat i) ! 0 \<noteq> CHR ''+''"
    using digit_facts(2,3) [OF hd_digits [of "nat i"]] by (simp_all add: hd_conv_nth)
  ultimately show ?thesis using False assms(2) by (simp add: ParseInt_def itoa_def Let_def)
qed

lemma leadingInt_digits:
  "list_all is_digit s \<Longrightarrow> (r = [] \<or> \<not> is_digit (hd r)) \<Longrightarrow> 0 \<le> n \<Longrightarrow>
     n * 10 ^ length s + int (undigits s) \<le> maxInt64 \<Longrightarrow>
     leadingInt n (s @ r) = Some (n * 10 ^ length s + int (undigits s), r)"
proof (induction s arbitrary: n)
  case Nil
  then show ?case by (cases r) (simp_all add: undigits_def)
next
  case (Cons c s)
  have eq: "n * 10 ^ length (c # s) + int (undigits (c # s)) =
      (n * 10 + int (digit_val c)) * 10 ^ length s + int (undigits s)"
    by (simp add: undigits_Cons algebra_simps)
  have "1 * (n * 10 + int (digit_val c)) \<le> 10 ^ length s * (n * 10 + int (digit_val c))"
    using Cons.prems(3) by (intro mult_right_mono) simp_all
  then have "n * 10 + int (digit_val c) \<le> maxInt64"
    using Cons.prems(4) unfolding eq by (simp add: mult.commute)
  moreover from this have "n \<le> maxInt64 div 10" by linarith
  ultimately show ?case
    using Cons.IH [of "n * 10 + int (digit_val c)"] Cons.prems unfolding eq by simp
qed

lemma unit_chars: "unit_of u = Some k \<Longrightarrow> u \<noteq> [] \<and> list_all unit_char u \<and> 0 < k"
  by (auto simp: unit_of_def unit_char_def is_digit_def split: if_splits)

text \<open>A whole number of any unit is read exactly, without floating-point arithmetic.\<close>

lemma ParseDuration_whole:
  assumes "unit_of u = Some k" "int n * k \<le> maxInt64"
  shows "ParseDuration frac (digits n @ u) = Inr (int n * k)"
proof -
  have u: "u \<noteq> []" "list_all unit_char u" "0 < k" using unit_chars [OF assms(1)] by auto
  have hu: "\<not> is_digit (hd u)" "hd u \<noteq> CHR ''.''"
    using u(1,2) by (cases u; simp add: unit_char_def)+
  have n: "int n \<le> maxInt64 div k" using zdiv_mono1 [OF assms(2) u(3)] u(3) by simp
  have hd: "is_digit (hd (digits n @ u))" using hd_digits [of n] by simp
  have "int n \<le> maxInt64" using assms(2) u(3) by (smt (verit) mult_le_cancel_left1 of_nat_0_le_iff)
  then have "leadingInt 0 (digits n @ u) = Some (int n, u)"
    using leadingInt_digits [OF digits_digit, of u 0 n] hu(1) by simp
  moreover have "take_fraction u = (0, 1, False, u)" using hu(2) by (simp add: take_fraction_def)
  moreover have tw: "takeWhile unit_char u = u" "dropWhile unit_char u = []"
    using u(2) by (simp_all add: list_all_iff takeWhile_eq_all_conv)
  ultimately have "duration_item frac (digits n @ u) = Some (int n * k, [])"
    using hd assms u n by (simp add: duration_item_def tw Let_def not_less del: takeWhile_eq_all_conv)
  moreover have "digits n @ u \<noteq> ''0''" using u(1) by (cases "digits n") (auto simp: append_eq_Cons_conv)
  moreover have "hd (digits n @ u) \<noteq> CHR ''-''" "hd (digits n @ u) \<noteq> CHR ''+''"
    using digit_facts(2,3) [OF hd] by simp_all
  ultimately show ?thesis
    using assms(2) by (simp add: ParseDuration_def Let_def duration_loop.simps)
qed

end
