(* ===== verification/CmdFlags.thy ===== *)
theory CmdFlags
  imports Sip003 GoNumbers CoreConfig
begin

text \<open>
  What the commands under \<^verbatim>\<open>src/cmd\<close> share: flag values that are numbers and durations, and reading
  the configuration from the SIP003 environment or from the command line.
\<close>

section \<open>Flag values\<close>

text \<open>\<^verbatim>\<open>intValue.Set\<close> and \<^verbatim>\<open>durationValue.Set\<close> store a value even when they report an error.\<close>

definition set_int :: "(int \<Rightarrow> 'c \<Rightarrow> 'c) \<Rightarrow> string \<Rightarrow> 'c \<Rightarrow> gerror option \<times> 'c" where
  "set_int upd v c = (case ParseInt v of (i, e) \<Rightarrow> (e, upd i c))"

definition set_duration ::
  "fraction \<Rightarrow> (int \<Rightarrow> 'c \<Rightarrow> 'c) \<Rightarrow> string \<Rightarrow> 'c \<Rightarrow> gerror option \<times> 'c" where
  "set_duration frac upd v c =
     (case ParseDuration frac v of
        Inl e \<Rightarrow> (Some errParse, upd 0 c)
      | Inr d \<Rightarrow> (None, upd d c))"

section \<open>Where the configuration comes from\<close>

text \<open>
  \<open>from_env\<close> overwrites fields from the environment. The flag set already exists, so its flags then
  override those fields again. An error of \<^verbatim>\<open>Parse\<close> is fatal on the command line and only logged
  for plugin options. The error of the result is the message of \<^verbatim>\<open>logrus.Fatal\<close>.
\<close>

definition plugin_config ::
  "(string \<Rightarrow> flag_kind option) \<Rightarrow> (string \<Rightarrow> string \<Rightarrow> 'c \<Rightarrow> gerror option \<times> 'c)
     \<Rightarrow> (SIP003Args \<Rightarrow> 'c \<Rightarrow> 'c) \<Rightarrow> 'c \<Rightarrow> (string \<Rightarrow> string option) \<Rightarrow> string list \<Rightarrow> 'c res" where
  "plugin_config kinds setter from_env defaults env argv =
     (case GetSIP003Args env argv of
        Inl e \<Rightarrow> Inl (Errorf ''sip003 error'' e)
      | Inr (Some a) \<Rightarrow>
          (case FormatSSPluginOptions (SS_PLUGIN_OPTIONS a) of
             Inl e \<Rightarrow> Inl (Errorf ''invalid sip003 SS_PLUGIN_OPTIONS'' e)
           | Inr opts \<Rightarrow> Inr (snd (flag_parse kinds setter opts (from_env a defaults))))
      | Inr None \<Rightarrow>
          (case flag_parse kinds setter argv defaults of
             (Some e, c) \<Rightarrow> Inl e
           | (None, c) \<Rightarrow> Inr c))"

section \<open>Options applied one by one\<close>

text \<open>
  The reference meaning of a list of options: each is a known flag of its kind whose value is
  accepted, and they are assigned in order. \<open>None\<close> when one of them is not.
\<close>

fun set_opt ::
  "(string \<Rightarrow> flag_kind option) \<Rightarrow> (string \<Rightarrow> string \<Rightarrow> 'c \<Rightarrow> gerror option \<times> 'c)
     \<Rightarrow> plugin_opt \<Rightarrow> 'c \<Rightarrow> 'c option" where
  "set_opt kinds setter (k, None) c =
     (if plain_flag_name k \<and> kinds k = Some BoolFlag
      then (case setter k ''true'' c of (None, c') \<Rightarrow> Some c' | _ \<Rightarrow> None) else None)"
| "set_opt kinds setter (k, Some v) c =
     (if plain_flag_name k \<and> kinds k = Some ValueFlag
      then (case setter k v c of (None, c') \<Rightarrow> Some c' | _ \<Rightarrow> None) else None)"

fun set_opts ::
  "(string \<Rightarrow> flag_kind option) \<Rightarrow> (string \<Rightarrow> string \<Rightarrow> 'c \<Rightarrow> gerror option \<times> 'c)
     \<Rightarrow> plugin_opt list \<Rightarrow> 'c \<Rightarrow> 'c option" where
  "set_opts kinds setter [] c = Some c"
| "set_opts kinds setter (p # ps) c = Option.bind (set_opt kinds setter p c) (set_opts kinds setter ps)"

lemma flag_parse_opt:
  "set_opt kinds setter p c = Some c' \<Longrightarrow>
     flag_parse kinds setter (opt_args p @ rest) c = flag_parse kinds setter rest c'"
  by (cases p rule: opt_args.cases)
    (auto simp: flag_parse_bool flag_parse_value split: if_splits prod.splits option.splits)

lemma flag_parse_opts:
  "set_opts kinds setter ps c = Some c' \<Longrightarrow>
     flag_parse kinds setter (concat (map opt_args ps) @ rest) c = flag_parse kinds setter rest c'"
proof (induction ps arbitrary: c)
  case (Cons p ps)
  then obtain c1 where "set_opt kinds setter p c = Some c1" "set_opts kinds setter ps c1 = Some c'"
    by (auto simp: bind_eq_Some_conv)
  with Cons.IH flag_parse_opt show ?case by fastforce
qed simp

lemma set_opts_field:
  assumes "\<And>k v c e c'. k \<notin> K \<Longrightarrow> setter k v c = (e, c') \<Longrightarrow> f c' = f c"
  shows "set_opts kinds setter ps c = Some c' \<Longrightarrow> fst ` set ps \<inter> K = {} \<Longrightarrow> f c' = f c"
proof (induction ps arbitrary: c)
  case (Cons p ps)
  obtain k v where p: "p = (k, v)" by (cases p)
  from Cons.prems(1) obtain c1 where c1: "set_opt kinds setter p c = Some c1"
    "set_opts kinds setter ps c1 = Some c'"
    by (auto simp: bind_eq_Some_conv)
  from c1(1) obtain w e where "setter k w c = (e, c1)"
    unfolding p by (cases v) (auto split: if_splits prod.splits option.splits)
  with assms Cons.prems(2) p have "f c1 = f c" by auto
  with Cons.IH [OF c1(2)] Cons.prems(2) show ?case by simp
qed simp

text \<open>A plugin's environment: the four addresses and the options.\<close>

definition plugin_env :: "string \<Rightarrow> string \<Rightarrow> string \<Rightarrow> string \<Rightarrow> plugin_opt list \<Rightarrow> string \<Rightarrow> string option" where
  "plugin_env rh rp lh lp opts =
     [''SS_REMOTE_HOST'' \<mapsto> rh, ''SS_REMOTE_PORT'' \<mapsto> rp, ''SS_LOCAL_HOST'' \<mapsto> lh, ''SS_LOCAL_PORT'' \<mapsto> lp,
      ''SS_PLUGIN_OPTIONS'' \<mapsto> join_with CHR '';'' (map opt_text opts)]"

definition plugin_args ::
  "string \<Rightarrow> string \<Rightarrow> string \<Rightarrow> string \<Rightarrow> plugin_opt list \<Rightarrow> string list \<Rightarrow> SIP003Args" where
  "plugin_args rh rp lh lp opts argv =
     (let a = snd (flag_parse additional_kinds additional_set argv \<lparr>additional.tfo = False, vpn = False\<rparr>) in
      \<lparr>SS_REMOTE_HOST = rh, SS_REMOTE_PORT = rp, SS_LOCAL_HOST = lh, SS_LOCAL_PORT = lp,
       SS_PLUGIN_OPTIONS = join_with CHR '';'' (map opt_text opts), VPN = vpn a, TFO = additional.tfo a\<rparr>)"

lemma GetSIP003Args_plugin:
  "GetSIP003Args (plugin_env rh rp lh lp opts) argv = Inr (Some (plugin_args rh rp lh lp opts argv))"
  by (simp add: GetSIP003Args_def plugin_env_def plugin_args_def lookup_env_def Let_def split: prod.split)

lemma plugin_config_env:
  assumes "opts \<noteq> []" "\<forall>p \<in> set opts. opt_ok p"
  shows "plugin_config kinds setter from_env defaults (plugin_env rh rp lh lp opts) argv =
    Inr (snd (flag_parse kinds setter (concat (map opt_args opts))
      (from_env (plugin_args rh rp lh lp opts argv) defaults)))"
proof -
  have "SS_PLUGIN_OPTIONS (plugin_args rh rp lh lp opts argv) = join_with CHR '';'' (map opt_text opts)"
    by (simp add: plugin_args_def Let_def)
  moreover have "FormatSSPluginOptions (join_with CHR '';'' (map opt_text opts)) = Inr (concat (map opt_args opts))"
    using assms split_on_join [of "map opt_text opts" "CHR '';''"]
    by (auto simp: FormatSSPluginOptions_def format_loop_opts opt_text_no_semicolon)
  ultimately show ?thesis
    by (simp add: plugin_config_def GetSIP003Args_plugin)
qed

text \<open>
  Options that are all known and accepted are assigned in order. What follows an unknown option is
  ignored, and it has no other effect.
\<close>

lemma plugin_config_opts:
  assumes "good \<noteq> []" "\<forall>p \<in> set good. opt_ok p"
    and "set_opts kinds setter good (from_env (plugin_args rh rp lh lp good argv) defaults) = Some c"
  shows "plugin_config kinds setter from_env defaults (plugin_env rh rp lh lp good) argv = Inr c"
  using flag_parse_opts [OF assms(3), of "[]"] by (simp add: plugin_config_env [OF assms(1,2)])

lemma plugin_config_unknown:
  assumes "\<forall>p \<in> set (good @ (k, v) # rest). opt_ok p"
    and "set_opts kinds setter good (from_env (plugin_args rh rp lh lp (good @ (k, v) # rest) argv) defaults) = Some c"
    and "plain_flag_name k" "kinds k = None" "k \<noteq> ''help''" "k \<noteq> ''h''"
  shows "plugin_config kinds setter from_env defaults (plugin_env rh rp lh lp (good @ (k, v) # rest)) argv = Inr c"
proof -
  have "flag_parse kinds setter (opt_args (k, v) @ concat (map opt_args rest)) c =
      (Some (NewError (''flag provided but not defined: -'' @ k)), c)"
    using flag_parse_undefined [of k kinds, OF assms(3-6)] by (cases v) simp_all
  then show ?thesis
    using flag_parse_opts [OF assms(2), of "opt_args (k, v) @ concat (map opt_args rest)"]
    by (simp add: plugin_config_env [OF _ assms(1)])
qed

end
