(* ===== verification/CmdClient.thy ===== *)
theory CmdClient
  imports CmdFlags ClientConf
begin

text \<open>
  The command \<^verbatim>\<open>src/cmd/mtt-client/client.go\<close>: its flags, the SIP003 environment, and the client
  they make.
\<close>

section \<open>Flags\<close>

definition client_defaults :: ClientConfig where
  "client_defaults =
     \<lparr>BindAddr = [], RemoteAddr = [], EnableWSS = False, WSSPath = ''/'', EnableMux = False,
      MuxMaxStream = 4, ServerName = [], InsecureSkipVerify = False, Timeout = 5 * 60 * second,
      EnableTFO = False, VpnMode = False, FallbackDNS = [], Verbose = False\<rparr>"

definition client_kinds :: "string \<Rightarrow> flag_kind option" where
  "client_kinds = map_of
     [(''b'', ValueFlag), (''s'', ValueFlag), (''wss'', BoolFlag), (''wss-path'', ValueFlag),
      (''n'', ValueFlag), (''sv'', BoolFlag), (''mux'', BoolFlag), (''mux-max-stream'', ValueFlag),
      (''timeout'', ValueFlag), (''fast-open'', BoolFlag), (''fallback-dns'', ValueFlag),
      (''verbose'', BoolFlag)]"

definition client_set ::
  "fraction \<Rightarrow> string \<Rightarrow> string \<Rightarrow> ClientConfig \<Rightarrow> gerror option \<times> ClientConfig" where
  "client_set frac n v =
     (if n = ''b'' then set_string (\<lambda>x. BindAddr_update (\<lambda>_. x)) v
      else if n = ''s'' then set_string (\<lambda>x. RemoteAddr_update (\<lambda>_. x)) v
      else if n = ''wss'' then set_bool (\<lambda>x. EnableWSS_update (\<lambda>_. x)) v
      else if n = ''wss-path'' then set_string (\<lambda>x. WSSPath_update (\<lambda>_. x)) v
      else if n = ''n'' then set_string (\<lambda>x. ServerName_update (\<lambda>_. x)) v
      else if n = ''sv'' then set_bool (\<lambda>x. InsecureSkipVerify_update (\<lambda>_. x)) v
      else if n = ''mux'' then set_bool (\<lambda>x. EnableMux_update (\<lambda>_. x)) v
      else if n = ''mux-max-stream'' then set_int (\<lambda>x. MuxMaxStream_update (\<lambda>_. x)) v
      else if n = ''timeout'' then set_duration frac (\<lambda>x. Timeout_update (\<lambda>_. x)) v
      else if n = ''fast-open'' then set_bool (\<lambda>x. EnableTFO_update (\<lambda>_. x)) v
      else if n = ''fallback-dns'' then set_string (\<lambda>x. FallbackDNS_update (\<lambda>_. x)) v
      else set_bool (\<lambda>x. Verbose_update (\<lambda>_. x)) v)"

definition client_from_env :: "SIP003Args \<Rightarrow> ClientConfig \<Rightarrow> ClientConfig" where
  "client_from_env a c =
     c\<lparr>BindAddr := GetLocalAddr a, RemoteAddr := GetRemoteAddr a, EnableTFO := TFO a, VpnMode := VPN a\<rparr>"

section \<open>The command\<close>

definition client_config ::
  "fraction \<Rightarrow> (string \<Rightarrow> string option) \<Rightarrow> string list \<Rightarrow> ClientConfig res" where
  "client_config frac = plugin_config client_kinds (client_set frac) client_from_env client_defaults"

text \<open>
  \<open>Inl\<close> is the message of \<^verbatim>\<open>logrus.Fatal\<close> that ends the process. Once started, the process runs
  until \<^verbatim>\<open>Start\<close> returns, which is fatal when it returns an error, or a signal arrives.
\<close>

definition client_main :: "fraction \<Rightarrow> (string \<Rightarrow> string option) \<Rightarrow> string list \<Rightarrow> Client res" where
  "client_main frac env argv =
     and_then (client_config frac env argv) (\<lambda>c.
       (case fst (NewClient c None) of
          Inl e \<Rightarrow> Inl (Errorf ''init client failed'' e)
        | Inr cl \<Rightarrow> Inr cl))"

datatype ended = ExitZero | ExitFatal gerror

definition client_ends :: "gerror option \<Rightarrow> ended" where
  "client_ends start = (case start of Some e \<Rightarrow> ExitFatal (Errorf ''client exited'' e) | None \<Rightarrow> ExitZero)"

section \<open>Properties\<close>

lemmas client_set_defs = client_set_def set_string_def set_bool_def set_int_def set_duration_def

lemma client_set_ServerName: "k \<notin> {''n''} \<Longrightarrow> client_set frac k v c = (e, c') \<Longrightarrow> ServerName c' = ServerName c"
  by (auto simp: client_set_defs split: if_splits option.splits sum.splits prod.splits)

lemma client_set_RemoteAddr: "k \<notin> {''s''} \<Longrightarrow> client_set frac k v c = (e, c') \<Longrightarrow> RemoteAddr c' = RemoteAddr c"
  by (auto simp: client_set_defs split: if_splits option.splits sum.splits prod.splits)

lemma client_set_BindAddr: "k \<notin> {''b''} \<Longrightarrow> client_set frac k v c = (e, c') \<Longrightarrow> BindAddr c' = BindAddr c"
  by (auto simp: client_set_defs split: if_splits option.splits sum.splits prod.splits)


text \<open>
  C37: An unknown plugin option neither stops the client nor is reported to it: the options before it
  are applied and all options after it are ignored.
\<close>

theorem unknown_option_drops_the_rest:
  assumes "\<forall>p \<in> set (good @ (k, v) # rest). opt_ok p"
    and "set_opts client_kinds (client_set frac) good
        (client_from_env (plugin_args rh rp lh lp (good @ (k, v) # rest) argv) client_defaults) = Some c"
    and "plain_flag_name k" "client_kinds k = None" "k \<noteq> ''help''" "k \<noteq> ''h''"
  shows "client_config frac (plugin_env rh rp lh lp (good @ (k, v) # rest)) argv = Inr c"
  unfolding client_config_def using assms by (rule plugin_config_unknown)

text \<open>
  A whole number of seconds given to \<^verbatim>\<open>-timeout\<close> becomes the client's timeout exactly, up to the
  largest 64-bit duration, and a number given to \<^verbatim>\<open>-mux-max-stream\<close> its stream limit.
\<close>

theorem client_number_flags:
  assumes "int n * second \<le> maxInt64" "- (2 ^ 63) \<le> i" "i < 2 ^ 63"
  shows "client_set frac ''timeout'' (digits n @ ''s'') c = (None, c\<lparr>Timeout := int n * second\<rparr>)
    \<and> client_set frac ''mux-max-stream'' (itoa i) c = (None, c\<lparr>MuxMaxStream := i\<rparr>)"
proof -
  have "ParseDuration frac (digits n @ ''s'') = Inr (int n * second)"
    using assms(1) by (intro ParseDuration_whole) (simp_all add: unit_of_def second_def)
  then show ?thesis
    using ParseInt_itoa [OF assms(2,3)] by (simp add: client_set_defs)
qed

section \<open>A sample plugin run\<close>

definition sample_opts :: "plugin_opt list" where
  "sample_opts = [(''wss'', None), (''mux-max-stream'', Some ''8'')]"

definition from_sample :: ClientConfig where
  "from_sample =
     client_from_env (plugin_args ''2001:db8::1'' ''443'' ''127.0.0.1'' ''1080'' sample_opts []) client_defaults"

lemma sample_opts_ok: "sample_opts \<noteq> []" "\<forall>p \<in> set sample_opts. opt_ok p"
  "fst ` set sample_opts \<inter> {''n'', ''s'', ''b''} = {}"
  by (simp_all add: sample_opts_def sep_free_def)

lemma itoa_8: "itoa 8 = ''8''"
  by code_simp

lemma sample_opts_set:
  "set_opts client_kinds (client_set frac) sample_opts from_sample =
     Some (from_sample\<lparr>EnableWSS := True, MuxMaxStream := 8\<rparr>)"
  using ParseInt_itoa [of 8]
  by (simp add: sample_opts_def client_kinds_def plain_flag_name_def client_set_defs parseBool_def itoa_8)

lemma sample_fields:
  "RemoteAddr from_sample = JoinHostPort ''2001:db8::1'' ''443''" "RemoteAddr from_sample \<noteq> []"
  "BindAddr from_sample = ''127.0.0.1:1080''" "Timeout from_sample = 300 * second"
  "ServerName from_sample = []" "FallbackDNS from_sample = []"
  by (simp_all add: from_sample_def client_from_env_def client_defaults_def plugin_args_def GetRemoteAddr_def
      GetLocalAddr_def JoinHostPort_def Let_def)

lemma sample_plugin_runs:
  "\<exists>cl. client_main frac (plugin_env ''2001:db8::1'' ''443'' ''127.0.0.1'' ''1080'' sample_opts) [] = Inr cl"
proof -
  have "client_config frac (plugin_env ''2001:db8::1'' ''443'' ''127.0.0.1'' ''1080'' sample_opts) [] =
      Inr (from_sample\<lparr>EnableWSS := True, MuxMaxStream := 8\<rparr>)"
    unfolding client_config_def
    using sample_opts_ok(1,2) sample_opts_set [unfolded from_sample_def]
    by (subst from_sample_def) (rule plugin_config_opts)
  moreover have "SplitHostPort (JoinHostPort ''2001:db8::1'' ''443'') = Inr (''2001:db8::1'', ''443'')"
    by (rule SplitHostPort_JoinHostPort) (simp_all add: clean_host_def clean_port_def)
  then have "\<exists>cl. fst (NewClient (from_sample\<lparr>EnableWSS := True, MuxMaxStream := 8\<rparr>) None) = Inr cl"
    by (simp add: NewClient_def fill_ServerName_def fill_WSSPath_def sample_fields defaultSmuxMaxStream_def
        second_def Let_def) (simp add: JoinHostPort_def)
  ultimately show ?thesis by (auto simp: client_main_def)
qed


definition typo_opts :: "plugin_opt list" where
  "typo_opts = [(''wss'', None)] @ (''mode'', Some ''ws'') # [(''n'', Some ''example.com'')]"

definition from_typo :: ClientConfig where
  "from_typo = client_from_env (plugin_args ''h'' ''443'' ''127.0.0.1'' ''1080'' typo_opts []) client_defaults"

theorem unknown_option_drops_the_rest_witness:
  "client_config exact_fraction (plugin_env ''h'' ''443'' ''127.0.0.1'' ''1080'' typo_opts) [] =
     Inr (from_typo\<lparr>EnableWSS := True\<rparr>)
   \<and> ServerName (from_typo\<lparr>EnableWSS := True\<rparr>) = []"
proof
  have "set_opts client_kinds (client_set exact_fraction) [(''wss'', None)] from_typo = Some (from_typo\<lparr>EnableWSS := True\<rparr>)"
    by (simp add: client_kinds_def plain_flag_name_def client_set_defs parseBool_def)
  then show "client_config exact_fraction (plugin_env ''h'' ''443'' ''127.0.0.1'' ''1080'' typo_opts) [] =
      Inr (from_typo\<lparr>EnableWSS := True\<rparr>)"
    unfolding from_typo_def typo_opts_def
    by (intro unknown_option_drops_the_rest) (simp_all add: sep_free_def client_kinds_def plain_flag_name_def)
  show "ServerName (from_typo\<lparr>EnableWSS := True\<rparr>) = []"
    by (simp add: from_typo_def client_from_env_def client_defaults_def)
qed

theorem client_number_flags_witness:
  "client_set exact_fraction ''timeout'' (digits 90 @ ''s'') client_defaults
     = (None, client_defaults\<lparr>Timeout := 90 * second\<rparr>)"
  using client_number_flags [of 90 0 exact_fraction client_defaults] by (simp add: second_def maxInt64_def)

end
