(* ===== verification/ServerCert.thy ===== *)
theory ServerCert
  imports CoreConfig
begin

text \<open>
  The self-signed certificate of the servers: \<^verbatim>\<open>generateCertificate\<close>, \<^verbatim>\<open>randServerName\<close> and
  \<^verbatim>\<open>randStr\<close> of \<^verbatim>\<open>src/internal/core/server.go\<close>. Key generation, signing and encoding belong to
  Go's crypto packages and are the fields of a record of functions.
\<close>

section \<open>Random names\<close>

text \<open>
  A random source is the function \<^verbatim>\<open>Intn\<close>: its result for the \<open>i\<close>-th call with bound \<open>n\<close>. The
  package documents that it lies in \<open>[0, n)\<close>.
\<close>

type_synonym rand = "nat \<Rightarrow> nat \<Rightarrow> nat"

definition rand_ok :: "rand \<Rightarrow> bool" where
  "rand_ok r \<longleftrightarrow> (\<forall>i n. 0 < n \<longrightarrow> r i n < n)"

definition letters :: string where
  "letters = ''abcdefghijklmnopqrstuvwxyz''"

definition randStr :: "nat \<Rightarrow> rand \<Rightarrow> string" where
  "randStr len r = map (\<lambda>i. letters ! r i (length letters)) [0..<len]"

text \<open>\<open>g\<close> is the package's global source; each \<^verbatim>\<open>randStr\<close> makes a source of its own.\<close>

definition randServerName :: "rand \<Rightarrow> rand \<Rightarrow> rand \<Rightarrow> string" where
  "randServerName g r1 r2 = randStr (g 0 5 + 3) r1 @ ''.'' @ randStr (g 1 3 + 1) r2"

section \<open>Dates\<close>

record moment =
  year :: int
  month :: nat
  day :: nat
  time_of_day :: nat

definition leap :: "int \<Rightarrow> bool" where
  "leap y \<longleftrightarrow> y mod 4 = 0 \<and> (y mod 100 \<noteq> 0 \<or> y mod 400 = 0)"

text \<open>\<^verbatim>\<open>t.AddDate(n, 0, 0)\<close>: the only date it has to normalise is 29 February.\<close>

definition add_years :: "int \<Rightarrow> moment \<Rightarrow> moment" where
  "add_years n t =
     (let t' = t\<lparr>year := year t + n\<rparr> in
      if month t = 2 \<and> day t = 29 \<and> \<not> leap (year t + n) then t'\<lparr>month := 3, day := 1\<rparr> else t')"

section \<open>The certificate\<close>

definition KeyUsageDigitalSignature :: int where "KeyUsageDigitalSignature = 1"
definition KeyUsageKeyEncipherment :: int where "KeyUsageKeyEncipherment = 4"

datatype ext_usage = ExtKeyUsageServerAuth | ExtKeyUsageClientAuth

record template =
  SerialNumber :: int
  CommonName :: string
  DNSNames :: "string list"
  NotBefore :: moment
  NotAfter :: moment
  KeyUsage :: int
  ExtKeyUsage :: "ext_usage list"
  BasicConstraintsValid :: bool

record pem_block =
  pem_Type :: string
  pem_Bytes :: "byte list"

text \<open>
  The library functions the code calls. \<^verbatim>\<open>X509KeyPair\<close> decodes the two PEM texts that
  \<^verbatim>\<open>EncodeToMemory\<close> made, so it is a function of the blocks.
\<close>

record ('key, 'pub, 'cert) crypto =
  GenerateKey :: "'key res"
  PublicKey :: "'key \<Rightarrow> 'pub"
  rand_Int :: "int \<Rightarrow> int res"
  CreateCertificate :: "template \<Rightarrow> template \<Rightarrow> 'pub \<Rightarrow> 'key \<Rightarrow> byte list res"
  MarshalPKCS8PrivateKey :: "'key \<Rightarrow> byte list res"
  X509KeyPair :: "pem_block \<Rightarrow> pem_block \<Rightarrow> 'cert res"

definition serial_number :: "('key, 'pub, 'cert) crypto \<Rightarrow> int res" where
  "serial_number X =
     (case rand_Int X (push_bit 128 1) of
        Inl e \<Rightarrow> Inl (Errorf ''generate serial number'' e)
      | Inr n \<Rightarrow> Inr n)"

text \<open>\<^verbatim>\<open>time.Now()\<close> is called twice, hence \<open>now1\<close> and \<open>now2\<close>.\<close>

definition cert_template :: "int \<Rightarrow> string \<Rightarrow> moment \<Rightarrow> moment \<Rightarrow> template" where
  "cert_template serial name now1 now2 =
     \<lparr>SerialNumber = serial, CommonName = name, DNSNames = [name],
      NotBefore = now1, NotAfter = add_years 10 now2,
      KeyUsage = or KeyUsageKeyEncipherment KeyUsageDigitalSignature,
      ExtKeyUsage = [ExtKeyUsageServerAuth], BasicConstraintsValid = True\<rparr>"

definition generateCertificate ::
  "('key, 'pub, 'cert) crypto \<Rightarrow> string \<Rightarrow> moment \<Rightarrow> moment \<Rightarrow> string \<Rightarrow> 'cert list res" where
  "generateCertificate X randomName now1 now2 serverName =
     and_then (GenerateKey X) (\<lambda>key.
     and_then (serial_number X) (\<lambda>serial.
       let name = (if serverName = [] then randomName else serverName);
           t = cert_template serial name now1 now2 in
     and_then (CreateCertificate X t t (PublicKey X key) key) (\<lambda>certDER.
     and_then (MarshalPKCS8PrivateKey X key) (\<lambda>b.
     and_then (X509KeyPair X \<lparr>pem_Type = ''CERTIFICATE'', pem_Bytes = certDER\<rparr>
                 \<lparr>pem_Type = ''EC PRIVATE KEY'', pem_Bytes = b\<rparr>) (\<lambda>tlsCert.
       Inr [tlsCert])))))"

section \<open>Generated names\<close>

definition lower :: "char \<Rightarrow> bool" where
  "lower c \<longleftrightarrow> c \<in> set letters"

lemma randStr_lower: "rand_ok r \<Longrightarrow> c \<in> set (randStr n r) \<Longrightarrow> lower c"
proof -
  assume "rand_ok r" "c \<in> set (randStr n r)"
  moreover have "0 < length letters" by (simp add: letters_def)
  ultimately show "lower c" by (auto simp: randStr_def lower_def rand_ok_def)
qed

lemma length_randStr [simp]: "length (randStr n r) = n"
  by (simp add: randStr_def)

lemma dot_not_lower: "\<not> lower CHR ''.''"
  by (simp add: lower_def letters_def)

text \<open>
  C36: A random server name is a host name of two labels of lower-case letters, the first of three to
  seven letters and the second of one to three, whatever the random sources return.
\<close>

theorem randServerName_is_host_name:
  assumes "rand_ok g" "rand_ok r1" "rand_ok r2"
  shows "\<exists>a b. split_on CHR ''.'' (randServerName g r1 r2) = [a, b]
    \<and> length a \<in> {3..7} \<and> length b \<in> {1..3} \<and> list_all lower a \<and> list_all lower b"
proof -
  have free: "CHR ''.'' \<notin> set (randStr n r)" if "rand_ok r" for n r
    using randStr_lower [OF that] dot_not_lower by metis
  have "g 0 5 < 5" "g 1 3 < 3" using assms(1) by (simp_all add: rand_ok_def)
  then show ?thesis
    using free [OF assms(2)] free [OF assms(3)] randStr_lower [OF assms(2)] randStr_lower [OF assms(3)]
    by (intro exI [of _ "randStr (g 0 5 + 3) r1"] exI [of _ "randStr (g 1 3 + 1) r2"])
      (auto simp: randServerName_def split_on_append split_on_free list_all_iff)
qed

theorem randServerName_is_host_name_witness:
  "randServerName (\<lambda>i n. n - 1) (\<lambda>i n. i mod n) (\<lambda>i n. 0) = ''abcdefg.aaa''
   \<and> (\<exists>a b. split_on CHR ''.'' (randServerName (\<lambda>i n. n - 1) (\<lambda>i n. i mod n) (\<lambda>i n. 0)) = [a, b]
       \<and> length a \<in> {3..7} \<and> length b \<in> {1..3} \<and> list_all lower a \<and> list_all lower b)"
proof
  show "randServerName (\<lambda>i n. n - 1) (\<lambda>i n. i mod n) (\<lambda>i n. 0) = ''abcdefg.aaa''"
    by (simp add: randServerName_def randStr_def letters_def upt_rec)
qed (rule randServerName_is_host_name; simp add: rand_ok_def)

section \<open>What the certificate says\<close>

text \<open>
  What Go documents of its crypto packages: the serial number is below its bound, and a key pair that
  loads is made of the certificate and the key it was given. \<open>leaf\<close> are the contents of a
  certificate that was loaded.
\<close>

definition crypto_ok :: "('key, 'pub, 'cert) crypto \<Rightarrow> ('cert \<Rightarrow> template \<times> 'pub) \<Rightarrow> bool" where
  "crypto_ok X leaf \<longleftrightarrow>
     (\<forall>m n. rand_Int X m = Inr n \<longrightarrow> 0 \<le> n \<and> n < m)
     \<and> (\<forall>t p k der ty b c. CreateCertificate X t t p k = Inr der
          \<longrightarrow> X509KeyPair X \<lparr>pem_Type = ''CERTIFICATE'', pem_Bytes = der\<rparr> \<lparr>pem_Type = ty, pem_Bytes = b\<rparr> = Inr c
          \<longrightarrow> leaf c = (t, p))"

lemma generateCertificate_cases:
  "generateCertificate X rnd now1 now2 name = Inr cs \<longleftrightarrow>
    (\<exists>key serial der b c. GenerateKey X = Inr key \<and> rand_Int X (2 ^ 128) = Inr serial
      \<and> CreateCertificate X (cert_template serial (if name = [] then rnd else name) now1 now2)
          (cert_template serial (if name = [] then rnd else name) now1 now2) (PublicKey X key) key = Inr der
      \<and> MarshalPKCS8PrivateKey X key = Inr b
      \<and> X509KeyPair X \<lparr>pem_Type = ''CERTIFICATE'', pem_Bytes = der\<rparr>
          \<lparr>pem_Type = ''EC PRIVATE KEY'', pem_Bytes = b\<rparr> = Inr c
      \<and> cs = [c])"
  by (auto simp: generateCertificate_def serial_number_def and_then_eq_Inr Let_def push_bit_eq_mult
      split: sum.splits)


section \<open>A concrete library\<close>

text \<open>
  The encodings keep nothing but the serial number and the length of the name, which is enough for
  one template.
\<close>

definition some_day :: moment where
  "some_day = \<lparr>year = 2020, month = 2, day = 29, time_of_day = 0\<rparr>"

definition sample_template :: template where
  "sample_template = cert_template 7 ''example.com'' some_day some_day"

definition sample_crypto :: "(nat, nat, template \<times> nat) crypto" where
  "sample_crypto =
     \<lparr>GenerateKey = Inr 3, PublicKey = (\<lambda>k. k + 1),
      rand_Int = (\<lambda>m. if 7 < m then Inr 7 else Inl (NewError ''rand'')),
      CreateCertificate = (\<lambda>t t' p k. if t = sample_template \<and> p = k + 1 \<and> k = 3 then Inr [1] else Inl (NewError ''x509'')),
      MarshalPKCS8PrivateKey = (\<lambda>k. Inr [2]),
      X509KeyPair = (\<lambda>c k. if pem_Bytes c = [1] then Inr (sample_template, 4) else Inl (NewError ''tls''))\<rparr>"

lemma sample_crypto_ok: "crypto_ok sample_crypto id"
  by (auto simp: crypto_ok_def sample_crypto_def split: if_splits)

lemma sample_certificate:
  "generateCertificate sample_crypto rnd some_day some_day ''example.com'' = Inr [(sample_template, 4)]"
  by (simp add: generateCertificate_def serial_number_def sample_crypto_def sample_template_def Let_def
      push_bit_eq_mult)


end
