(* ===== verification/ServeMux.thy ===== *)
theory ServeMux
  imports Prelude
begin

text \<open>
  How \<^verbatim>\<open>net/http\<close> (Go 1.13) routes a request when one pattern is registered, which is all the server
  of this repository does: \<^verbatim>\<open>path.Clean\<close> on rooted paths, \<^verbatim>\<open>cleanPath\<close>, and \<^verbatim>\<open>Handle\<close>,
  \<^verbatim>\<open>match\<close>, \<^verbatim>\<open>shouldRedirect\<close> and \<^verbatim>\<open>Handler\<close> of \<^verbatim>\<open>ServeMux\<close>.
\<close>

section \<open>Cleaning a path\<close>

definition clean_step :: "string \<Rightarrow> string list \<Rightarrow> string list" where
  "clean_step e st =
     (if e = [] \<or> e = ''.'' then st else if e = ''..'' then tl st else e # st)"

definition path_Clean :: "string \<Rightarrow> string" where
  "path_Clean p = CHR ''/'' # join_with CHR ''/'' (rev (fold clean_step (split_on CHR ''/'' p) []))"

definition cleanPath :: "string \<Rightarrow> string" where
  "cleanPath p =
     (if p = [] then ''/''
      else let p = (if hd p \<noteq> CHR ''/'' then CHR ''/'' # p else p); np = path_Clean p in
        if last p = CHR ''/'' \<and> np \<noteq> ''/'' then np @ ''/'' else np)"

section \<open>One pattern\<close>

text \<open>\<open>Handle\<close> panics on the empty pattern.\<close>

definition Handle :: "string \<Rightarrow> string option" where
  "Handle pattern = (if pattern = [] then None else Some pattern)"

definition pattern_match :: "string \<Rightarrow> string \<Rightarrow> bool" where
  "pattern_match pattern path \<longleftrightarrow>
     path = pattern \<or> (last pattern = CHR ''/'' \<and> hasPrefix path pattern)"

definition mux_handler :: "string \<Rightarrow> string \<Rightarrow> string \<Rightarrow> bool" where
  "mux_handler pattern host path \<longleftrightarrow>
     (hd pattern \<noteq> CHR ''/'' \<and> pattern_match pattern (host @ path)) \<or> pattern_match pattern path"

definition shouldRedirect :: "string \<Rightarrow> string \<Rightarrow> string \<Rightarrow> bool" where
  "shouldRedirect pattern host path =
     (if path = pattern \<or> host @ path = pattern then False
      else if path = [] then False
      else if path @ ''/'' = pattern \<or> host @ path @ ''/'' = pattern then last path \<noteq> CHR ''/''
      else False)"

datatype routed = Handled | Redirected string | NotFound

definition route_request :: "string \<Rightarrow> string \<Rightarrow> string \<Rightarrow> routed" where
  "route_request pattern host path =
     (let p = cleanPath path in
      if shouldRedirect pattern host p then Redirected (p @ ''/'')
      else if p \<noteq> path then Redirected p
      else if mux_handler pattern host path then Handled
      else NotFound)"

section \<open>Clean paths\<close>

text \<open>
  A path is plain when it is \<open>/\<close> followed by segments, none of which is empty, \<open>.\<close> or
  \<open>..\<close>, possibly with a slash at the end.
\<close>

definition plain_seg :: "string \<Rightarrow> bool" where
  "plain_seg s \<longleftrightarrow> s \<noteq> [] \<and> s \<noteq> ''.'' \<and> s \<noteq> ''..'' \<and> CHR ''/'' \<notin> set s"

definition rooted :: "string list \<Rightarrow> string" where
  "rooted ss = CHR ''/'' # join_with CHR ''/'' ss"

definition plain_path :: "string \<Rightarrow> bool" where
  "plain_path p \<longleftrightarrow>
     (\<exists>ss. (\<forall>s \<in> set ss. plain_seg s) \<and> (p = rooted ss \<or> (ss \<noteq> [] \<and> p = rooted ss @ ''/'')))"

lemma fold_clean_plain: "\<forall>s \<in> set ss. plain_seg s \<Longrightarrow> fold clean_step ss st = rev ss @ st"
  by (induction ss arbitrary: st) (auto simp: clean_step_def plain_seg_def)

lemma fold_clean_result:
  assumes "\<forall>s \<in> set ss. CHR ''/'' \<notin> set s" "\<forall>s \<in> set st. plain_seg s"
  shows "\<forall>s \<in> set (fold clean_step ss st). plain_seg s"
  using assms
proof (induction ss arbitrary: st)
  case (Cons s ss)
  have "\<forall>x \<in> set (clean_step s st). plain_seg x"
    using Cons.prems by (cases st) (auto simp: clean_step_def plain_seg_def)
  with Cons show ?case by simp
qed simp

lemma path_Clean_plain:
  "\<exists>ss. (\<forall>s \<in> set ss. plain_seg s) \<and> path_Clean p = rooted ss"
  using fold_clean_result [of "split_on CHR ''/'' p" "[]"]
  by (intro exI [of _ "rev (fold clean_step (split_on CHR ''/'' p) [])"])
    (auto simp: path_Clean_def rooted_def dest: split_on_pieces_free)

lemma split_on_snoc: "split_on c (s @ [c]) = split_on c s @ [[]]"
proof (induction s)
  case (Cons x s)
  then show ?case by (cases "split_on c s") auto
qed simp

lemma path_Clean_rooted:
  assumes "\<forall>s \<in> set ss. plain_seg s"
  shows "path_Clean (rooted ss) = rooted ss" "path_Clean (rooted ss @ ''/'') = rooted ss"
proof -
  have "ss \<noteq> [] \<Longrightarrow> split_on CHR ''/'' (join_with CHR ''/'' ss) = ss"
    using assms by (intro split_on_join) (auto simp: plain_seg_def)
  then have f: "fold clean_step (split_on CHR ''/'' (rooted ss)) [] = rev ss"
    using fold_clean_plain [OF assms, of "[]"]
    by (cases "ss = []") (simp_all add: rooted_def clean_step_def)
  then show "path_Clean (rooted ss) = rooted ss"
    by (simp add: path_Clean_def) (simp add: rooted_def)
  from f show "path_Clean (rooted ss @ ''/'') = rooted ss"
    by (simp add: path_Clean_def split_on_snoc clean_step_def) (simp add: rooted_def)
qed

lemma rooted_eq_slash: "\<forall>s \<in> set ss. plain_seg s \<Longrightarrow> rooted ss = ''/'' \<longleftrightarrow> ss = []"
  by (cases ss rule: remdups_adj.cases) (auto simp: rooted_def plain_seg_def)

lemma last_join:
  "ss \<noteq> [] \<Longrightarrow> \<forall>s \<in> set ss. plain_seg s \<Longrightarrow>
     join_with CHR ''/'' ss \<noteq> [] \<and> last (join_with CHR ''/'' ss) \<noteq> CHR ''/''"
proof (induction "CHR ''/''" ss rule: join_with.induct)
  case (2 w)
  then show ?case by (auto simp: plain_seg_def dest: last_in_set)
next
  case (3 w v ws)
  then show ?case by auto
qed simp

lemma last_rooted: "ss \<noteq> [] \<Longrightarrow> \<forall>s \<in> set ss. plain_seg s \<Longrightarrow> last (rooted ss) \<noteq> CHR ''/''"
  using last_join [of ss] by (auto simp: rooted_def)

lemma cleanPath_plain: "plain_path p \<Longrightarrow> cleanPath p = p"
proof -
  assume "plain_path p"
  then obtain ss where ss: "\<forall>s \<in> set ss. plain_seg s"
    and p: "p = rooted ss \<or> (ss \<noteq> [] \<and> p = rooted ss @ ''/'')"
    by (auto simp: plain_path_def)
  have h: "rooted ss = CHR ''/'' # tl (rooted ss)" by (simp add: rooted_def)
  from p show ?thesis
  proof
    assume "p = rooted ss"
    with h show ?thesis
      using path_Clean_rooted(1) [OF ss] last_rooted [OF _ ss] rooted_eq_slash [OF ss]
      by (auto simp: cleanPath_def Let_def) (metis list.sel(1) list.distinct(1))+
  next
    assume "ss \<noteq> [] \<and> p = rooted ss @ ''/''"
    with h show ?thesis
      using path_Clean_rooted(2) [OF ss] rooted_eq_slash [OF ss]
      by (simp add: cleanPath_def Let_def) (metis hd_append2 list.sel(1) list.distinct(1))
  qed
qed

lemma plain_cleanPath: "plain_path (cleanPath p)"
proof (cases "p = []")
  case True
  then show ?thesis
    by (auto simp: cleanPath_def plain_path_def rooted_def intro: exI [of _ "[]"])
next
  case False
  define q where "q = (if hd p \<noteq> CHR ''/'' then CHR ''/'' # p else p)"
  obtain ss where ss: "\<forall>s \<in> set ss. plain_seg s" "path_Clean q = rooted ss"
    using path_Clean_plain by blast
  have "cleanPath p = rooted ss \<or> (ss \<noteq> [] \<and> cleanPath p = rooted ss @ ''/'')"
    using False ss rooted_eq_slash [OF ss(1)]
    by (auto simp: cleanPath_def Let_def simp flip: q_def)
  with ss(1) show ?thesis by (auto simp: plain_path_def)
qed

lemma cleanPath_fixed: "cleanPath p = p \<longleftrightarrow> plain_path p"
  using cleanPath_plain plain_cleanPath by metis

lemma cleanPath_idem: "cleanPath (cleanPath p) = cleanPath p"
  by (simp add: cleanPath_plain plain_cleanPath)

section \<open>Where requests for the pattern itself end up\<close>

lemma route_pattern:
  assumes "hasPrefix pattern ''/''"
  shows "route_request pattern host pattern = Handled \<longleftrightarrow> plain_path pattern"
proof -
  have "pattern_match pattern pattern" by (simp add: pattern_match_def)
  then show ?thesis
    using cleanPath_fixed [of pattern]
    by (auto simp: route_request_def Let_def shouldRedirect_def mux_handler_def)
qed

text \<open>A pattern without the leading slash names a host, and matches no request for that path.\<close>

lemma route_relative_pattern:
  assumes "pattern \<noteq> []" "\<not> hasPrefix pattern ''/''" "last pattern \<noteq> CHR ''/''"
  shows "route_request pattern host (CHR ''/'' # pattern) \<noteq> Handled"
proof -
  have "host @ CHR ''/'' # pattern \<noteq> pattern"
  proof
    assume "host @ CHR ''/'' # pattern = pattern"
    then have "length (host @ CHR ''/'' # pattern) = length pattern" by (rule arg_cong)
    then show False by simp
  qed
  with assms(3) show ?thesis
    by (auto simp: route_request_def Let_def mux_handler_def pattern_match_def)
qed

end
