(* ===== verification/ServerConf.thy ===== *)
theory ServerConf
  imports ServerCert ServeMux Listening
begin

text \<open>
  The single-destination server of \<^verbatim>\<open>src/internal/core/server.go\<close>: its configuration,
  \<^verbatim>\<open>NewServer\<close>, \<^verbatim>\<open>Start\<close> and \<^verbatim>\<open>ActiveAndServe\<close>, and its handlers.
\<close>

section \<open>State\<close>

record ServerConfig =
  BindAddr :: string
  BindUnix :: bool
  DstAddr :: string
  EnableWSS :: bool
  WSSPath :: string
  EnableMux :: bool
  Key :: string
  Cert :: string
  ServerName :: string
  DisableTLS :: bool
  Timeout :: int
  EnableTFO :: bool
  Verbose :: bool

text \<open>\<open>tlsConf\<close> is the certificate list of the server's \<^verbatim>\<open>tls.Config\<close>, \<open>None\<close> its nil pointer.\<close>

record 'cert Server =
  conf :: ServerConfig
  tlsConf :: "'cert list option"
  tcpConfig :: tcpConfig
  netDialer_Timeout :: int
  netDialer_Control :: "platform \<Rightarrow> control"
  upgrader_HandshakeTimeout :: int
  upgrader_Subprotocols :: "string list"
  smuxConfig :: Config
  debugLog :: bool

section \<open>NewServer\<close>

text \<open>
  \<open>gen\<close> is \<^verbatim>\<open>generateCertificate\<close> (whose randomness and clock are in its arguments), \<open>load\<close> is
  \<^verbatim>\<open>tls.LoadX509KeyPair\<close>.
\<close>

definition server_certs ::
  "(string \<Rightarrow> 'cert list res) \<Rightarrow> (string \<Rightarrow> string \<Rightarrow> 'cert res) \<Rightarrow> ServerConfig \<Rightarrow> 'cert list option res" where
  "server_certs gen load c =
     (if DisableTLS c = False then
        (if Cert c = [] \<and> Key c = [] then
           (case gen (ServerName c) of
              Inl e \<Rightarrow> Inl (Errorf ''generate certificate'' e)
            | Inr cers \<Rightarrow> Inr (Some cers))
         else
           (case load (Cert c) (Key c) of
              Inl e \<Rightarrow> Inl (Errorf ''failed to load key and cert'' e)
            | Inr cer \<Rightarrow> Inr (Some [cer])))
      else Inr None)"

definition make_server :: "ServerConfig \<Rightarrow> 'cert list option \<Rightarrow> 'cert Server" where
  "make_server c certs =
     (let tcp = \<lparr>vpnMode = False, tfo = EnableTFO c\<rparr> in
      \<lparr>conf = c, tlsConf = certs, tcpConfig = tcp,
       netDialer_Timeout = defaultHandShakeTimeout,
       netDialer_Control = (\<lambda>p. getControlFunc p (Some tcp)),
       upgrader_HandshakeTimeout = defaultHandShakeTimeout,
       upgrader_Subprotocols = serverSubprotocols,
       smuxConfig = defaultSmuxConfig, debugLog = Verbose c\<rparr>)"

definition NewServer ::
  "(string \<Rightarrow> 'cert list res) \<Rightarrow> (string \<Rightarrow> string \<Rightarrow> 'cert res) \<Rightarrow> ServerConfig \<Rightarrow> 'cert Server res" where
  "NewServer gen load c =
     (if BindAddr c = [] then Inl (NewError ''need bind address'')
      else if DstAddr c = [] then Inl (NewError ''need destination server address'')
      else if Timeout c \<le> 0 then Inl (NewError ''timeout value must at least 1 sec'')
      else and_then (server_certs gen load c) (\<lambda>certs. Inr (make_server c certs)))"

section \<open>Handlers\<close>

definition server_handleClientConn ::
  "'cert Server \<Rightarrow> gerror option \<Rightarrow> gerror option \<Rightarrow> action list" where
  "server_handleClientConn s dial_err tunnel_err =
     Dial (DstAddr (conf s)) #
       (if dial_err \<noteq> None then [Warn]
        else Tunnel (Timeout (conf s)) # (if tunnel_err \<noteq> None then [Warn] else []) @ [CloseRight])"

definition server_ServeHTTP :: "'cert Server \<Rightarrow> string \<Rightarrow> gerror option \<Rightarrow> action list" where
  "server_ServeHTTP s header upgrade_err =
     (if upgrade_err \<noteq> None then [Warn]
      else [if serve_mux (first_common (upgrader_Subprotocols s) (Subprotocols header)) (EnableMux (conf s))
            then ServeStreams (DstAddr (conf s)) else ServeConn (DstAddr (conf s))])"

text \<open>The goroutine of a connection without WebSocket; \<open>handshake_err\<close> matters only under TLS.\<close>

definition serve_raw :: "'cert Server \<Rightarrow> gerror option \<Rightarrow> action list" where
  "serve_raw s handshake_err =
     (if DisableTLS (conf s) = False \<and> handshake_err \<noteq> None then [Warn]
      else if EnableMux (conf s) then [ServeStreams (DstAddr (conf s))]
      else [ServeConn (DstAddr (conf s))]) @ [CloseLeft]"

text \<open>A handler's calls with those of \<^verbatim>\<open>handleClientConn\<close> written out.\<close>

definition with_conn :: "'cert Server \<Rightarrow> gerror option \<Rightarrow> gerror option \<Rightarrow> action list \<Rightarrow> action list" where
  "with_conn s dial_err tunnel_err acts =
     concat (map (\<lambda>a. case a of
                        ServeConn d \<Rightarrow> server_handleClientConn s dial_err tunnel_err
                      | _ \<Rightarrow> [a]) acts)"

section \<open>ActiveAndServe and Start\<close>

datatype ('l, 'cert) bound =
    PlainListener 'l
  | TLSListener "'cert list option" 'l

definition bind_listener :: "'cert Server \<Rightarrow> 'l \<Rightarrow> ('l, 'cert) bound" where
  "bind_listener s l = (if \<not> DisableTLS (conf s) then TLSListener (tlsConf s) l else PlainListener l)"

text \<open>
  \<open>serve\<close> is what \<^verbatim>\<open>http.Serve\<close> returns, \<open>accepts\<close> are the outcomes of \<^verbatim>\<open>l.Accept()\<close>.
\<close>

datatype 'c serving =
    HandlePanics
  | HttpServe "gerror option"
  | AcceptLoop "'c list" "gerror option"

definition ActiveAndServe ::
  "'cert Server \<Rightarrow> gerror option \<Rightarrow> 'c res list \<Rightarrow> 'l \<Rightarrow> ('l, 'cert) bound \<times> 'c serving" where
  "ActiveAndServe s serve accepts l =
     (bind_listener s l,
      if EnableWSS (conf s) then
        (case Handle (WSSPath (conf s)) of
           None \<Rightarrow> HandlePanics
         | Some pattern \<Rightarrow> HttpServe (map_option (Errorf ''http.Serve'') serve))
      else (case accept_all accepts of (cs, e) \<Rightarrow> AcceptLoop cs e))"

definition server_socket :: "'cert Server \<Rightarrow> platform \<Rightarrow> listen_action list" where
  "server_socket s p =
     (if BindUnix (conf s) then listenUnix (BindAddr (conf s))
      else listenTCP p (tcpConfig s) (BindAddr (conf s)))"

definition Server_Start ::
  "'cert Server \<Rightarrow> platform \<Rightarrow> 'l res \<Rightarrow> gerror option \<Rightarrow> 'c res list
     \<Rightarrow> listen_action list \<times> (('l, 'cert) bound \<times> 'c serving) res" where
  "Server_Start s p listen serve accepts =
     (server_socket s p,
      (case listen of
         Inl e \<Rightarrow> Inl (Errorf ''listener.Listen'' e)
       | Inr l \<Rightarrow> Inr (ActiveAndServe s serve accepts l)))"

section \<open>Properties\<close>

text \<open>
  \<^verbatim>\<open>NewServer\<close> succeeds exactly when both addresses are given, the timeout is positive and, unless
  TLS is disabled, the certificate can be had: generated when neither file is named, loaded
  otherwise (a single file name is never ignored).
\<close>

theorem NewServer_succeeds_iff:
  "(\<exists>s. NewServer gen load c = Inr s) =
     (BindAddr c \<noteq> [] \<and> DstAddr c \<noteq> [] \<and> Timeout c > 0
      \<and> (if DisableTLS c then True
         else if Cert c = [] \<and> Key c = [] then \<exists>cs. gen (ServerName c) = Inr cs
         else \<exists>cer. load (Cert c) (Key c) = Inr cer))"
  by (auto simp: NewServer_def server_certs_def and_then_eq_Inr split: sum.splits)

text \<open>
  Unless TLS is disabled in the configuration, a server made by \<^verbatim>\<open>NewServer\<close> accepts no
  connection outside TLS: whatever socket it serves on is wrapped, and with a certificate, which
  is the loaded one or, when no files are named, the generated one.
\<close>

theorem server_never_serves_plain:
  assumes "NewServer gen load c = Inr s" "\<not> DisableTLS c"
  shows "\<exists>cs. fst (ActiveAndServe s serve accepts l) = TLSListener (Some cs) l
    \<and> (if Cert c = [] \<and> Key c = [] then gen (ServerName c) = Inr cs
       else \<exists>cer. load (Cert c) (Key c) = Inr cer \<and> cs = [cer])"
  using assms
  by (auto simp: NewServer_def server_certs_def and_then_eq_Inr ActiveAndServe_def bind_listener_def
      make_server_def Let_def split: sum.splits if_splits)

text \<open>
  C39: A WebSocket connection whose destination cannot be reached is left open by \<^verbatim>\<open>ServeHTTP\<close>, whereas
  the same failure on a raw connection closes it.
\<close>

theorem failed_dial_leaves_websocket_open:
  assumes "selectSubprotocol header = websocketSubprotocolSmuxOFF" "NewServer gen load c = Inr s"
    "\<not> EnableMux c"
  shows "with_conn s (Some e) te (server_ServeHTTP s header None) = [Dial (DstAddr c), Warn]
    \<and> with_conn s (Some e) te (serve_raw s None) = [Dial (DstAddr c), Warn, CloseLeft]"
  using assms
  by (auto simp: NewServer_def and_then_eq_Inr make_server_def Let_def server_ServeHTTP_def
      serve_raw_def with_conn_def server_handleClientConn_def serve_mux_def selectSubprotocol_def
      websocketSubprotocolSmuxON_def websocketSubprotocolSmuxOFF_def split: if_splits)

section \<open>A sample server\<close>

definition sample_server :: ServerConfig where
  "sample_server =
     \<lparr>BindAddr = ''0.0.0.0:443'', BindUnix = False, DstAddr = ''127.0.0.1:1080'', EnableWSS = True,
      WSSPath = ''/chat'', EnableMux = False, Key = [], Cert = [], ServerName = ''example.com'',
      DisableTLS = False, Timeout = 300, EnableTFO = True, Verbose = False\<rparr>"

definition sample_gen :: "string \<Rightarrow> (template \<times> nat) list res" where
  "sample_gen = generateCertificate sample_crypto ''abc.de'' some_day some_day"

definition sample_made :: "(template \<times> nat) Server" where
  "sample_made = make_server sample_server (Some [(sample_template, 4)])"

lemma sample_server_made: "NewServer sample_gen load sample_server = Inr sample_made"
  by (simp add: NewServer_def sample_made_def server_certs_def sample_gen_def) (simp add: sample_server_def sample_certificate)

theorem server_never_serves_plain_witness:
  "fst (ActiveAndServe sample_made None [] (0 :: nat))
     = TLSListener (Some [(sample_template, 4)]) 0"
proof -
  have "\<not> DisableTLS sample_server" "sample_gen (ServerName sample_server) = Inr [(sample_template, 4)]"
    "Cert sample_server = []" "Key sample_server = []"
    by (simp_all add: sample_server_def sample_gen_def sample_certificate)
  then show ?thesis
    using server_never_serves_plain [OF sample_server_made, of None "[]" 0] by auto
qed

theorem failed_dial_leaves_websocket_open_witness:
  "with_conn sample_made (Some ErrTimeout) None (server_ServeHTTP sample_made ''smux_off'' None)
   = [Dial ''127.0.0.1:1080'', Warn]"
proof -
  have "selectSubprotocol ''smux_off'' = websocketSubprotocolSmuxOFF"
    by (simp add: selectSubprotocol_def serverSubprotocols_def Subprotocols_def TrimSpace_def is_space_def
        websocketSubprotocolSmuxON_def websocketSubprotocolSmuxOFF_def)
  moreover have "\<not> EnableMux sample_server" "DstAddr sample_server = ''127.0.0.1:1080''"
    by (simp_all add: sample_server_def)
  ultimately show ?thesis
    using failed_dial_leaves_websocket_open [OF _ sample_server_made, of "''smux_off''" ErrTimeout None]
    by simp
qed

end
