(* ===== verification/CmdServer.thy ===== *)
theory CmdServer
  imports CmdFlags ServerConf
begin

text \<open>
  The command \<^verbatim>\<open>src/cmd/mtt-server/server.go\<close>: its flags, the SIP003 environment, and the server
  they make.
\<close>

section \<open>Flags\<close>

definition server_defaults :: ServerConfig where
  "server_defaults =
     \<lparr>BindAddr = [], BindUnix = False, DstAddr = [], EnableWSS = False, WSSPath = ''/'',
      EnableMux = False, Key = [], Cert = [], ServerName = [], DisableTLS = False,
      Timeout = 5 * 60 * second, EnableTFO = False, Verbose = False\<rparr>"

definition server_kinds :: "string \<Rightarrow> flag_kind option" where
  "server_kinds = map_of
     [(''b'', ValueFlag), (''bind-unix'', BoolFlag), (''d'', ValueFlag), (''cert'', ValueFlag),
      (''key'', ValueFlag), (''disable-tls'', BoolFlag), (''n'', ValueFlag), (''wss'', BoolFlag),
      (''wss-path'', ValueFlag), (''mux'', BoolFlag), (''timeout'', ValueFlag),
      (''fast-open'', BoolFlag), (''verbose'', BoolFlag)]"

definition server_set ::
  "fraction \<Rightarrow> string \<Rightarrow> string \<Rightarrow> ServerConfig \<Rightarrow> gerror option \<times> ServerConfig" where
  "server_set frac n v =
     (if n = ''b'' then set_string (\<lambda>x. BindAddr_update (\<lambda>_. x)) v
      else if n = ''bind-unix'' then set_bool (\<lambda>x. BindUnix_update (\<lambda>_. x)) v
      else if n = ''d'' then set_string (\<lambda>x. DstAddr_update (\<lambda>_. x)) v
      else if n = ''cert'' then set_string (\<lambda>x. Cert_update (\<lambda>_. x)) v
      else if n = ''key'' then set_string (\<lambda>x. Key_update (\<lambda>_. x)) v
      else if n = ''disable-tls'' then set_bool (\<lambda>x. DisableTLS_update (\<lambda>_. x)) v
      else if n = ''n'' then set_string (\<lambda>x. ServerName_update (\<lambda>_. x)) v
      else if n = ''wss'' then set_bool (\<lambda>x. EnableWSS_update (\<lambda>_. x)) v
      else if n = ''wss-path'' then set_string (\<lambda>x. WSSPath_update (\<lambda>_. x)) v
      else if n = ''mux'' then set_bool (\<lambda>x. EnableMux_update (\<lambda>_. x)) v
      else if n = ''timeout'' then set_duration frac (\<lambda>x. Timeout_update (\<lambda>_. x)) v
      else if n = ''fast-open'' then set_bool (\<lambda>x. EnableTFO_update (\<lambda>_. x)) v
      else set_bool (\<lambda>x. Verbose_update (\<lambda>_. x)) v)"

definition server_from_env :: "SIP003Args \<Rightarrow> ServerConfig \<Rightarrow> ServerConfig" where
  "server_from_env a c = c\<lparr>BindAddr := GetRemoteAddr a, DstAddr := GetLocalAddr a, EnableTFO := TFO a\<rparr>"

section \<open>The command\<close>

definition server_config ::
  "fraction \<Rightarrow> (string \<Rightarrow> string option) \<Rightarrow> string list \<Rightarrow> ServerConfig res" where
  "server_config frac = plugin_config server_kinds (server_set frac) server_from_env server_defaults"

definition server_main ::
  "(string \<Rightarrow> 'cert list res) \<Rightarrow> (string \<Rightarrow> string \<Rightarrow> 'cert res) \<Rightarrow> fraction
     \<Rightarrow> (string \<Rightarrow> string option) \<Rightarrow> string list \<Rightarrow> 'cert Server res" where
  "server_main gen load frac env argv =
     and_then (server_config frac env argv) (\<lambda>c.
       (case NewServer gen load c of
          Inl e \<Rightarrow> Inl (Errorf ''init server failed'' e)
        | Inr s \<Rightarrow> Inr s))"

section \<open>Properties\<close>

lemmas server_set_defs = server_set_def set_string_def set_bool_def set_duration_def

lemma server_set_BindAddr: "k \<notin> {''b''} \<Longrightarrow> server_set frac k v c = (e, c') \<Longrightarrow> BindAddr c' = BindAddr c"
  by (auto simp: server_set_defs split: if_splits option.splits sum.splits prod.splits)

lemma server_set_DstAddr: "k \<notin> {''d''} \<Longrightarrow> server_set frac k v c = (e, c') \<Longrightarrow> DstAddr c' = DstAddr c"
  by (auto simp: server_set_defs split: if_splits option.splits sum.splits prod.splits)

lemma server_set_DisableTLS:
  "k \<notin> {''disable-tls''} \<Longrightarrow> server_set frac k v c = (e, c') \<Longrightarrow> DisableTLS c' = DisableTLS c"
  by (auto simp: server_set_defs split: if_splits option.splits sum.splits prod.splits)

lemma NewServer_conf: "NewServer gen load c = Inr s \<Longrightarrow> conf s = c"
  by (auto simp: NewServer_def and_then_eq_Inr make_server_def Let_def split: if_splits)

text \<open>
  A server started as a SIP003 plugin with valid options, none of which overrides an address,
  listens on the plugin's remote address (the one a client plugin dials) and connects every
  client to the plugin's local address; and it serves over TLS unless \<^verbatim>\<open>disable-tls\<close> is among
  its options.
\<close>

theorem plugin_server_addresses:
  assumes "server_main gen load frac (plugin_env rh rp lh lp opts) argv = Inr s"
    and "opts \<noteq> []" "\<forall>p \<in> set opts. opt_ok p"
    and "set_opts server_kinds (server_set frac) opts
        (server_from_env (plugin_args rh rp lh lp opts argv) server_defaults) = Some c"
    and "fst ` set opts \<inter> {''b'', ''d'', ''disable-tls''} = {}"
  shows "BindAddr (conf s) = JoinHostPort rh rp \<and> DstAddr (conf s) = JoinHostPort lh lp
    \<and> (\<exists>cs. bind_listener s l = TLSListener cs l)"
proof -
  let ?a = "plugin_args rh rp lh lp opts argv"
  have a: "GetLocalAddr ?a = JoinHostPort lh lp" "GetRemoteAddr ?a = JoinHostPort rh rp"
    by (simp_all add: plugin_args_def GetLocalAddr_def GetRemoteAddr_def Let_def)
  have "server_config frac (plugin_env rh rp lh lp opts) argv = Inr c"
    unfolding server_config_def using assms(2-4) by (rule plugin_config_opts)
  with assms(1) have new: "conf s = c"
    by (auto simp: server_main_def dest: NewServer_conf split: sum.splits)
  have "BindAddr c = JoinHostPort rh rp" "DstAddr c = JoinHostPort lh lp" "\<not> DisableTLS c"
    using set_opts_field [where K = "{''b''}" and f = BindAddr, OF server_set_BindAddr assms(4)]
      set_opts_field [where K = "{''d''}" and f = DstAddr, OF server_set_DstAddr assms(4)]
      set_opts_field [where K = "{''disable-tls''}" and f = DisableTLS, OF server_set_DisableTLS assms(4)]
      assms(5) by (auto simp: server_from_env_def server_defaults_def a)
  with new show ?thesis by (simp add: bind_listener_def)
qed

section \<open>A sample plugin run\<close>

definition sample_server_opts :: "plugin_opt list" where
  "sample_server_opts = [(''wss'', None), (''n'', Some ''example.com'')]"

definition from_server_sample :: ServerConfig where
  "from_server_sample =
     server_from_env (plugin_args ''0.0.0.0'' ''443'' ''127.0.0.1'' ''1080'' sample_server_opts []) server_defaults"

lemma sample_server_opts_ok: "sample_server_opts \<noteq> []" "\<forall>p \<in> set sample_server_opts. opt_ok p"
  "fst ` set sample_server_opts \<inter> {''b'', ''d'', ''disable-tls''} = {}"
  by (simp_all add: sample_server_opts_def sep_free_def)

lemma sample_server_opts_set:
  "set_opts server_kinds (server_set frac) sample_server_opts from_server_sample =
     Some (from_server_sample\<lparr>EnableWSS := True, ServerName := ''example.com''\<rparr>)"
  by (simp add: sample_server_opts_def server_kinds_def plain_flag_name_def server_set_defs parseBool_def)

lemma server_sample_fields:
  "BindAddr from_server_sample = ''0.0.0.0:443''" "DstAddr from_server_sample = ''127.0.0.1:1080''"
  "Timeout from_server_sample = 300 * second" "DisableTLS from_server_sample = False"
  "Cert from_server_sample = []" "Key from_server_sample = []"
  by (simp_all add: from_server_sample_def server_from_env_def server_defaults_def plugin_args_def
      GetRemoteAddr_def GetLocalAddr_def JoinHostPort_def Let_def)

definition no_files :: "string \<Rightarrow> string \<Rightarrow> (template \<times> nat) res" where
  "no_files cert key = Inl (EnvError ''open'')"

lemma sample_server_runs:
  "\<exists>s. server_main sample_gen load frac
     (plugin_env ''0.0.0.0'' ''443'' ''127.0.0.1'' ''1080'' sample_server_opts) [] = Inr s"
proof -
  have "server_config frac (plugin_env ''0.0.0.0'' ''443'' ''127.0.0.1'' ''1080'' sample_server_opts) [] =
      Inr (from_server_sample\<lparr>EnableWSS := True, ServerName := ''example.com''\<rparr>)"
    unfolding server_config_def
    using sample_server_opts_ok(1,2) sample_server_opts_set [unfolded from_server_sample_def]
    by (subst from_server_sample_def) (rule plugin_config_opts)
  then show ?thesis
    by (simp add: server_main_def NewServer_def server_certs_def server_sample_fields second_def
        sample_gen_def sample_certificate)
qed

theorem plugin_server_addresses_witness:
  "\<exists>s. server_main sample_gen no_files exact_fraction
       (plugin_env ''0.0.0.0'' ''443'' ''127.0.0.1'' ''1080'' sample_server_opts) [] = Inr s
     \<and> BindAddr (conf s) = ''0.0.0.0:443'' \<and> DstAddr (conf s) = ''127.0.0.1:1080''
     \<and> (\<exists>cs. bind_listener s (0 :: nat) = TLSListener cs 0)"
proof -
  obtain s where
    "server_main sample_gen no_files exact_fraction
       (plugin_env ''0.0.0.0'' ''443'' ''127.0.0.1'' ''1080'' sample_server_opts) [] = Inr s"
    using sample_server_runs by blast
  moreover from plugin_server_addresses [OF this sample_server_opts_ok(1,2)
      sample_server_opts_set [unfolded from_server_sample_def] sample_server_opts_ok(3), of 0]
  have "BindAddr (conf s) = ''0.0.0.0:443'' \<and> DstAddr (conf s) = ''127.0.0.1:1080''
      \<and> (\<exists>cs. bind_listener s (0 :: nat) = TLSListener cs 0)"
    by (simp add: JoinHostPort_def)
  ultimately show ?thesis by blast
qed

end
