(* ===== verification/MuServer.thy ===== *)
theory MuServer
  imports CoreConfig GoNumbers
begin

text \<open>
  The multi-user server: its table of users \<^verbatim>\<open>src/internal/core/multi_user_http_mux.go\<close> and its
  controller \<^verbatim>\<open>multi_user_server.go\<close>. Every operation of the table holds the table's lock, so a
  concurrent execution is a sequence of these operations.
\<close>

section \<open>The interface of a user table\<close>

text \<open>
  What the server relies on of \<^verbatim>\<open>map[string]string\<close>; \<open>valid\<close> is the representation's invariant.
\<close>

locale user_table =
  fixes emp :: 't
    and look :: "'t \<Rightarrow> string \<Rightarrow> string option"
    and put :: "string \<Rightarrow> string \<Rightarrow> 't \<Rightarrow> 't"
    and rem :: "string \<Rightarrow> 't \<Rightarrow> 't"
    and size :: "'t \<Rightarrow> nat"
    and valid :: "'t \<Rightarrow> bool"
  assumes valid_emp: "valid emp"
    and valid_put: "valid t \<Longrightarrow> valid (put k v t)"
    and valid_rem: "valid t \<Longrightarrow> valid (rem k t)"
    and look_emp: "look emp = Map.empty"
    and look_put: "valid t \<Longrightarrow> look (put k v t) = (look t)(k \<mapsto> v)"
    and look_rem: "valid t \<Longrightarrow> look (rem k t) = (look t)(k := None)"
    and size_look: "valid t \<Longrightarrow> size t = card (dom (look t))"
    and finite_look: "valid t \<Longrightarrow> finite (dom (look t))"
begin

lemma valid_fold_put: "valid t \<Longrightarrow> valid (fold (\<lambda>a. put (f a) (g a)) as t)"
  by (induction "as" arbitrary: t) (simp_all add: valid_put)

lemma valid_fold_rem: "valid t \<Longrightarrow> valid (fold (\<lambda>a. rem (f a)) as t)"
  by (induction "as" arbitrary: t) (simp_all add: valid_rem)

text \<open>In a bunch with repeated keys the last one counts.\<close>

lemma look_fold_put:
  "valid t \<Longrightarrow> look (fold (\<lambda>a. put (f a) (g a)) as t) = look t ++ map_of (rev (map (\<lambda>a. (f a, g a)) as))"
  by (induction "as" arbitrary: t) (simp_all add: valid_put look_put fun_eq_iff map_add_def split: option.split)

lemma look_fold_rem:
  "valid t \<Longrightarrow> look (fold (\<lambda>a. rem (f a)) as t) = (look t) |` (- f ` set as)"
  by (induction "as" arbitrary: t) (auto simp: valid_rem look_rem restrict_map_def fun_eq_iff)

lemma size_zero: "valid t \<Longrightarrow> size t = 0 \<longleftrightarrow> look t = Map.empty"
  by (simp add: size_look finite_look)

end

text \<open>The provider: association lists with distinct keys.\<close>

interpretation tab: user_table "[]" map_of alist_put alist_del length keys_distinct
  by unfold_locales (auto simp: length_alist_card_dom finite_dom_map_of)

section \<open>The table of users\<close>

record Args =
  Path :: string
  Dst :: string

record mux =
  pathMap :: "(string \<times> string) list"
  enableMux :: bool
  timeout :: int
  muxSmuxConfig :: Config

definition newMux :: "bool \<Rightarrow> int \<Rightarrow> mux" where
  "newMux enable t =
     \<lparr>pathMap = [], enableMux = enable, timeout = t, muxSmuxConfig = defaultSmuxConfig\<rparr>"

definition mux_add :: "Args list \<Rightarrow> mux \<Rightarrow> mux" where
  "mux_add a m = m\<lparr>pathMap := fold (\<lambda>x. alist_put (Path x) (Dst x)) a (pathMap m)\<rparr>"

definition mux_del :: "Args list \<Rightarrow> mux \<Rightarrow> mux" where
  "mux_del a m = m\<lparr>pathMap := fold (\<lambda>x. alist_del (Path x)) a (pathMap m)\<rparr>"

definition mux_reset :: "mux \<Rightarrow> mux" where
  "mux_reset m = m\<lparr>pathMap := []\<rparr>"

definition mux_get :: "mux \<Rightarrow> string \<Rightarrow> string option" where
  "mux_get m path = map_of (pathMap m) path"

definition mux_len :: "mux \<Rightarrow> nat" where
  "mux_len m = length (pathMap m)"

section \<open>Serving users\<close>

definition mux_handleClientConn :: "mux \<Rightarrow> string \<Rightarrow> gerror option \<Rightarrow> action list" where
  "mux_handleClientConn m dst dial_err =
     Dial dst # (if dial_err \<noteq> None then [Warn] else [Tunnel (timeout m), CloseRight])"

definition mux_ServeHTTP :: "mux \<Rightarrow> string \<Rightarrow> string \<Rightarrow> gerror option \<Rightarrow> action list" where
  "mux_ServeHTTP m path header upgrade_err =
     (case mux_get m path of
        None \<Rightarrow> [Warn]
      | Some dst \<Rightarrow>
          (if upgrade_err \<noteq> None then [Warn]
           else [if serve_mux (selectSubprotocol header) (enableMux m) then ServeStreams dst
                 else ServeConn dst, CloseLeft]))"

section \<open>The controller\<close>

definition maxControlBodySize :: nat where
  "maxControlBodySize = 1024 * 1024 * 2"

definition OptAdd :: int where "OptAdd = 1"
definition OptDel :: int where "OptDel = 2"
definition OptReset :: int where "OptReset = 3"
definition OptPing :: int where "OptPing = 9"
definition ResOK :: int where "ResOK = 1"
definition ResErr :: int where "ResErr = 2"

lemmas opt_defs = OptAdd_def OptDel_def OptReset_def OptPing_def ResOK_def ResErr_def

record MUCmd =
  Opt :: int
  ArgsBunch :: "Args list"

record MURes =
  Res :: int
  ErrString :: string
  CurrentUsers :: int

text \<open>
  \<^verbatim>\<open>json.Marshal\<close> of a \<^verbatim>\<open>MURes\<close>: the fields in order, without those that have their zero value
  (\<^verbatim>\<open>omitempty\<close>).
\<close>

definition hex_digit :: "nat \<Rightarrow> char" where
  "hex_digit n = (if n < 10 then char_of (48 + n) else char_of (87 + n))"

definition json_char :: "char \<Rightarrow> string" where
  "json_char c =
     (let n = of_char c :: nat in
      if c = CHR 0x22 \<or> c = CHR 0x5C then [CHR 0x5C, c]
      else if n = 10 then [CHR 0x5C, CHR ''n'']
      else if n = 13 then [CHR 0x5C, CHR ''r'']
      else if n = 9 then [CHR 0x5C, CHR ''t'']
      else if n < 32 \<or> c = CHR ''<'' \<or> c = CHR ''>'' \<or> c = CHR ''&''
      then [CHR 0x5C] @ ''u00'' @ [hex_digit (n div 16), hex_digit (n mod 16)]
      else [c])"

definition json_string :: "string \<Rightarrow> string" where
  "json_string s = CHR 0x22 # concat (map json_char s) @ [CHR 0x22]"

definition MURes_fields :: "MURes \<Rightarrow> (string \<times> string) list" where
  "MURes_fields r =
     (if Res r = 0 then [] else [(''res'', itoa (Res r))])
     @ (if ErrString r = [] then [] else [(''err_string'', json_string (ErrString r))])
     @ (if CurrentUsers r = 0 then [] else [(''current_users'', itoa (CurrentUsers r))])"

definition marshal_MURes :: "MURes \<Rightarrow> string" where
  "marshal_MURes r =
     ''{'' @ join_with (CHR '','') (map (\<lambda>(k, v). json_string k @ '':'' @ v) (MURes_fields r)) @ ''}''"

definition sendMURes :: "int \<Rightarrow> int \<Rightarrow> string \<Rightarrow> string" where
  "sendMURes res currentUsers errStr =
     marshal_MURes \<lparr>Res = res, ErrString = errStr, CurrentUsers = currentUsers\<rparr>"

text \<open>
  A request: its method, the bytes its body yields and the error that ends them, if it is not the
  end of the body. \<^verbatim>\<open>io.LimitReader\<close> cuts the body off; an error past the cut is not seen.
  \<open>unmarshal\<close> is \<^verbatim>\<open>json.Unmarshal\<close> into a fresh \<^verbatim>\<open>MUCmd\<close>.
\<close>

record request =
  Method :: string
  body :: "byte list"
  body_err :: "gerror option"

definition read_limited :: "request \<Rightarrow> byte list \<times> gerror option" where
  "read_limited r =
     (take maxControlBodySize (body r),
      if length (body r) < maxControlBodySize then body_err r else None)"

text \<open>The response is what was written, \<open>None\<close> when nothing was.\<close>

definition run_cmd :: "MUCmd \<Rightarrow> mux \<Rightarrow> mux \<times> string" where
  "run_cmd c m =
     (if Opt c = OptAdd then
        (if ArgsBunch c = [] then (m, sendMURes ResErr 0 ''empty args'')
         else (mux_add (ArgsBunch c) m, sendMURes ResOK 0 []))
      else if Opt c = OptDel then
        (if ArgsBunch c = [] then (m, sendMURes ResErr 0 ''empty args'')
         else (mux_del (ArgsBunch c) m, sendMURes ResOK 0 []))
      else if Opt c = OptReset then (mux_reset m, sendMURes ResOK 0 [])
      else if Opt c = OptPing then (m, sendMURes ResOK (int (mux_len m)) [])
      else (m, sendMURes ResErr 0 ''invalid opt''))"

definition MU_ServeHTTP ::
  "(byte list \<Rightarrow> MUCmd res) \<Rightarrow> request \<Rightarrow> mux \<Rightarrow> mux \<times> string option" where
  "MU_ServeHTTP unmarshal r m =
     (if Method r \<noteq> ''POST'' then (m, None)
      else let (buf, er) = read_limited r in
        (if length buf = maxControlBodySize then (m, None)
         else if er \<noteq> None then (m, None)
         else (case unmarshal buf of
             Inl e \<Rightarrow> (m, None)
           | Inr c \<Rightarrow> (case run_cmd c m of (m', s) \<Rightarrow> (m', Some s)))))"

section \<open>The controller refines operations on a finite map\<close>

text \<open>What a command means: the users are a partial map from paths to destinations.\<close>

definition args_map :: "Args list \<Rightarrow> string \<rightharpoonup> string" where
  "args_map a = map_of (rev (map (\<lambda>x. (Path x, Dst x)) a))"

definition spec_users :: "MUCmd \<Rightarrow> (string \<rightharpoonup> string) \<Rightarrow> (string \<rightharpoonup> string)" where
  "spec_users c U =
     (if Opt c = OptAdd then U ++ args_map (ArgsBunch c)
      else if Opt c = OptDel then U |` (- Path ` set (ArgsBunch c))
      else if Opt c = OptReset then Map.empty
      else U)"

definition mux_inv :: "mux \<Rightarrow> bool" where
  "mux_inv m \<longleftrightarrow> keys_distinct (pathMap m)"

lemma mux_ops_inv [inv_intros]:
  "mux_inv (newMux b t)" "mux_inv m \<Longrightarrow> mux_inv (mux_add a m)" "mux_inv m \<Longrightarrow> mux_inv (mux_del a m)"
  "mux_inv (mux_reset m)"
  using tab.valid_fold_put [of "pathMap m" Path Dst a] tab.valid_fold_rem [of "pathMap m" Path a]
  by (simp_all add: mux_inv_def newMux_def mux_add_def mux_del_def mux_reset_def)

lemma mux_get_eq: "mux_get m = map_of (pathMap m)"
  by (rule ext) (simp add: mux_get_def)

lemma mux_ops_get:
  "mux_get (mux_reset m) = Map.empty"
  "mux_inv m \<Longrightarrow> mux_get (mux_add a m) = mux_get m ++ args_map a"
  "mux_inv m \<Longrightarrow> mux_get (mux_del a m) = mux_get m |` (- Path ` set a)"
  using tab.look_fold_put [of "pathMap m" Path Dst a] tab.look_fold_rem [of "pathMap m" Path a]
  by (simp_all add: mux_inv_def mux_get_eq mux_add_def mux_del_def mux_reset_def args_map_def)

lemma mux_len_users: "mux_inv m \<Longrightarrow> mux_len m = card (dom (mux_get m))"
  using tab.size_look [of "pathMap m"] by (simp add: mux_inv_def mux_len_def mux_get_eq)

lemma run_cmd_fields:
  "pathMap (fst (run_cmd c m)) = x \<Longrightarrow> fst (run_cmd c m) = m\<lparr>pathMap := x\<rparr>"
  by (auto simp: run_cmd_def mux_add_def mux_del_def mux_reset_def)

lemma controller_refines_inv: "mux_inv m \<Longrightarrow> mux_inv (fst (run_cmd c m))"
  using mux_ops_inv by (simp add: run_cmd_def)

lemma run_cmd_get: "mux_inv m \<Longrightarrow> mux_get (fst (run_cmd c m)) = spec_users c (mux_get m)"
  using mux_ops_get by (auto simp: run_cmd_def spec_users_def opt_defs args_map_def)

text \<open>
  C15: Every control command has exactly its effect on the map from paths to destinations (an add
  overrides, a later argument of the same bunch wins, a delete removes, a reset empties), touches
  nothing else, and keeps the table a map.
\<close>

theorem controller_refines:
  assumes "mux_inv m" "run_cmd c m = (m', resp)"
  shows "mux_get m' = spec_users c (mux_get m) \<and> mux_inv m' \<and> m' = m\<lparr>pathMap := pathMap m'\<rparr>"
proof -
  have "mux_get m' = spec_users c (mux_get m) \<and> mux_inv m'"
    using run_cmd_get [OF assms(1), of c] controller_refines_inv [OF assms(1), of c] assms(2) by simp
  moreover have "m' = m\<lparr>pathMap := pathMap m'\<rparr>"
    using run_cmd_fields [of c m "pathMap m'"] assms(2) by simp
  ultimately show ?thesis by blast
qed

text \<open>
  Where a history of commands, newest first, leaves a path: decided by the newest command that
  concerns it.
\<close>

fun last_dst :: "string \<Rightarrow> Args list \<Rightarrow> string option" where
  "last_dst p [] = None"
| "last_dst p (x # xs) =
     (case last_dst p xs of Some d \<Rightarrow> Some d | None \<Rightarrow> if Path x = p then Some (Dst x) else None)"

fun route :: "MUCmd list \<Rightarrow> string \<Rightarrow> string option" where
  "route [] p = None"
| "route (c # older) p =
     (if Opt c = OptAdd \<and> last_dst p (ArgsBunch c) \<noteq> None then last_dst p (ArgsBunch c)
      else if Opt c = OptDel \<and> p \<in> Path ` set (ArgsBunch c) then None
      else if Opt c = OptReset then None
      else route older p)"

lemma last_dst_map: "last_dst p a = args_map a p"
  by (induction a) (auto simp: args_map_def map_add_def split: option.splits)

lemma history_inv: "mux_inv m \<Longrightarrow> mux_inv (fold (\<lambda>c m. fst (run_cmd c m)) cs m)"
proof (induction cs arbitrary: m)
  case (Cons c cs)
  have "mux_inv (fst (run_cmd c m))"
    using controller_refines_inv [OF Cons.prems] by simp
  with Cons show ?case by simp
qed simp

lemma spec_users_route:
  "spec_users c (route older) = route (c # older)"
  by (rule ext) (auto simp: spec_users_def opt_defs last_dst_map map_add_def restrict_map_def split: option.split)

lemma history_get:
  "mux_get (fold (\<lambda>c m. fst (run_cmd c m)) cs (newMux b t)) = route (rev cs)"
proof (induction cs rule: rev_induct)
  case Nil
  show ?case by (rule ext) (simp add: newMux_def mux_get_def)
next
  case (snoc c cs)
  have "mux_inv (fold (\<lambda>c m. fst (run_cmd c m)) cs (newMux b t))"
    by (simp add: history_inv mux_ops_inv)
  from run_cmd_get [OF this, of c] snoc show ?case by (simp add: spec_users_route)
qed

lemma history_config:
  "enableMux (fold (\<lambda>c m. fst (run_cmd c m)) cs m) = enableMux m
   \<and> timeout (fold (\<lambda>c m. fst (run_cmd c m)) cs m) = timeout m"
proof (induction cs arbitrary: m)
  case (Cons c cs)
  have "enableMux (fst (run_cmd c m)) = enableMux m \<and> timeout (fst (run_cmd c m)) = timeout m"
    by (simp add: run_cmd_def mux_add_def mux_del_def mux_reset_def)
  with Cons show ?case by simp
qed simp

text \<open>
  C25: After any history of control commands, a request is served exactly when the newest command
  concerning its path added it, and then to the destination that command gave; a request for any
  other path is refused without being upgraded.
\<close>

theorem served_by_history:
  "mux_ServeHTTP (fold (\<lambda>c m. fst (run_cmd c m)) cs (newMux b t)) path header None =
     (case route (rev cs) path of
        None \<Rightarrow> [Warn]
      | Some dst \<Rightarrow> [if serve_mux (selectSubprotocol header) b then ServeStreams dst else ServeConn dst,
                     CloseLeft])"
proof -
  have "enableMux (newMux b t) = b" by (simp add: newMux_def)
  with history_config [of cs "newMux b t"] show ?thesis
    by (simp add: mux_ServeHTTP_def history_get split: option.split)
qed

section \<open>Responses\<close>

lemma digits_small: "digits 1 = ''1''" "digits (Suc 0) = ''1''" "digits 2 = ''2''" "digits (Suc (Suc 0)) = ''2''"
  by code_simp+

lemma response_texts:
  "sendMURes ResOK 0 [] = ''{'' @ json_string ''res'' @ '':1}''"
  "0 < n \<Longrightarrow> sendMURes ResOK (int n) [] =
     ''{'' @ json_string ''res'' @ '':1,'' @ json_string ''current_users'' @ '':'' @ digits n @ ''}''"
  "e \<noteq> [] \<Longrightarrow> sendMURes ResErr 0 e =
     ''{'' @ json_string ''res'' @ '':2,'' @ json_string ''err_string'' @ '':'' @ json_string e @ ''}''"
  by (simp_all add: sendMURes_def marshal_MURes_def MURes_fields_def itoa_def opt_defs
      digits_small)

text \<open>
  A ping is answered with the number of users, in decimal, unless there are none: then the
  response has no \<^verbatim>\<open>current_users\<close> field at all. A ping changes nothing.
\<close>

theorem ping_reports_users:
  assumes "mux_inv m" "Opt c = OptPing"
  shows "run_cmd c m = (m,
     if mux_get m = Map.empty then ''{'' @ json_string ''res'' @ '':1}''
     else ''{'' @ json_string ''res'' @ '':1,'' @ json_string ''current_users'' @ '':''
            @ digits (card (dom (mux_get m))) @ ''}'')
    \<and> undigits (digits (card (dom (mux_get m)))) = card (dom (mux_get m))"
proof -
  have "mux_len m = card (dom (mux_get m))" "finite (dom (mux_get m))"
    using mux_len_users [OF assms(1)] by (simp_all add: mux_get_eq finite_dom_map_of)
  moreover have "run_cmd c m = (m, sendMURes ResOK (int (mux_len m)) [])"
    using assms(2) by (simp add: run_cmd_def opt_defs)
  ultimately show ?thesis
    using response_texts(1) response_texts(2) [of "mux_len m"]
    by (auto simp: undigits_digits card_gt_0_iff)
qed

text \<open>
  A control request goes unanswered exactly when it is not a POST, its body reaches 2 MiB
  (a body of exactly 2 MiB is refused too), the body breaks off with an error, or the body is not
  a command; and then the table is untouched.
\<close>

theorem unanswered_requests:
  "(snd (MU_ServeHTTP unmarshal r m) = None) =
     (if Method r = ''POST''
      then length (body r) \<ge> maxControlBodySize \<or> (\<exists>e. body_err r = Some e)
        \<or> (\<exists>e. unmarshal (body r) = Inl e)
      else True)
   \<and> (MU_ServeHTTP unmarshal r m = (m, None)) = (snd (MU_ServeHTTP unmarshal r m) = None)"
  by (auto simp: MU_ServeHTTP_def read_limited_def min_def split: sum.splits prod.splits if_splits)

section \<open>Concrete commands\<close>

definition add_two :: MUCmd where
  "add_two = \<lparr>Opt = 1, ArgsBunch = [\<lparr>Path = ''/a'', Dst = ''h:1''\<rparr>, \<lparr>Path = ''/b'', Dst = ''h:2''\<rparr>,
     \<lparr>Path = ''/a'', Dst = ''h:3''\<rparr>]\<rparr>"

theorem controller_refines_witness:
  "mux_get (fst (run_cmd add_two (newMux False 60))) ''/a'' = Some ''h:3''"
proof -
  have "run_cmd add_two (newMux False 60) =
      (fst (run_cmd add_two (newMux False 60)), snd (run_cmd add_two (newMux False 60)))" by simp
  from controller_refines [OF mux_ops_inv(1) this] show ?thesis
    by (simp add: spec_users_def add_two_def opt_defs args_map_def newMux_def)
qed

theorem ping_reports_users_witness:
  "snd (run_cmd \<lparr>Opt = 9, ArgsBunch = []\<rparr> (fst (run_cmd add_two (newMux False 60)))) =
     ''{'' @ json_string ''res'' @ '':1,'' @ json_string ''current_users'' @ '':2}''"
proof -
  let ?m = "fst (run_cmd add_two (newMux False 60))"
  have "pathMap ?m = [(''/a'', ''h:3''), (''/b'', ''h:2'')]"
    by (simp add: run_cmd_def add_two_def opt_defs mux_add_def newMux_def)
  then have "mux_get ?m = [''/a'' \<mapsto> ''h:3'', ''/b'' \<mapsto> ''h:2'']"
    by (simp add: mux_get_eq fun_upd_twist)
  moreover have "mux_inv ?m" by (simp add: controller_refines_inv mux_ops_inv)
  ultimately show ?thesis
    using ping_reports_users [of ?m "\<lparr>Opt = 9, ArgsBunch = []\<rparr>"]
    by (simp add: opt_defs digits_small)
qed

end
