(* ===== verification/MuConf.thy ===== *)
theory MuConf
  imports MuServer ServerConf
begin

text \<open>
  Start-up of the multi-user server, \<^verbatim>\<open>src/internal/core/multi_user_server.go\<close>: its configuration,
  \<^verbatim>\<open>NewMUServer\<close>, \<^verbatim>\<open>StartServer\<close> and \<^verbatim>\<open>StartController\<close>.
\<close>

section \<open>State\<close>

record MUServerConfig =
  ServerAddr :: string
  ServerBindUnix :: bool
  HTTPControllerAddr :: string
  Key :: string
  Cert :: string
  ServerName :: string
  DisableTLS :: bool
  EnableMux :: bool
  EnableTFO :: bool
  Timeout :: int
  Verbose :: bool

record MUServer =
  conf :: MUServerConfig
  users :: mux
  server_Addr :: string
  controller_Addr :: string
  infoLog :: bool

definition NewMUServer :: "MUServerConfig \<Rightarrow> MUServer res" where
  "NewMUServer c =
     Inr \<lparr>conf = c, users = newMux (EnableMux c) (Timeout c), server_Addr = ServerAddr c,
          controller_Addr = HTTPControllerAddr c, infoLog = Verbose c\<rparr>"

section \<open>StartServer\<close>

text \<open>
  \<^verbatim>\<open>http.Server.ServeTLS\<close> loads the two files unless its configuration has a certificate and
  neither file is named; \<open>[]\<close> is no configuration.
\<close>

definition ServeTLS :: "(string \<Rightarrow> string \<Rightarrow> 'cert res) \<Rightarrow> 'cert list \<Rightarrow> string \<Rightarrow> string \<Rightarrow> 'cert list res" where
  "ServeTLS load certs certFile keyFile =
     (if certs = [] \<or> certFile \<noteq> [] \<or> keyFile \<noteq> []
      then and_then (load certFile keyFile) (\<lambda>cer. Inr [cer])
      else Inr certs)"

definition mu_socket :: "MUServer \<Rightarrow> platform \<Rightarrow> listen_action list" where
  "mu_socket mus p =
     (if ServerBindUnix (conf mus) then listenUnix (ServerAddr (conf mus))
      else listenTCP p \<lparr>vpnMode = False, tfo = EnableTFO (conf mus)\<rparr> (ServerAddr (conf mus)))"

text \<open>
  How the server serves the listener it opened: plainly, or over TLS with these certificates; or the
  error it returns instead.
\<close>

definition StartServer ::
  "(string \<Rightarrow> 'cert list res) \<Rightarrow> (string \<Rightarrow> string \<Rightarrow> 'cert res) \<Rightarrow> MUServer \<Rightarrow> 'l res
     \<Rightarrow> ('l, 'cert) bound res" where
  "StartServer gen load mus listen =
     (case listen of
        Inl e \<Rightarrow> Inl (Errorf ''listener.Listen'' e)
      | Inr l \<Rightarrow>
          (if DisableTLS (conf mus) then Inr (PlainListener l)
           else and_then
             (if Cert (conf mus) = [] \<and> Key (conf mus) = [] then
                (case gen (ServerName (conf mus)) of
                   Inl e \<Rightarrow> Inl (Errorf ''generate certificate'' e)
                 | Inr cers \<Rightarrow> Inr cers)
              else Inr [])
             (\<lambda>certs. and_then (ServeTLS load certs (Cert (conf mus)) (Key (conf mus)))
               (\<lambda>cs. Inr (TLSListener (Some cs) l)))))"

text \<open>The controller is plain HTTP on its own address, whatever the TLS settings.\<close>

definition StartController :: "MUServer \<Rightarrow> listen_action list" where
  "StartController mus = [ListenTCP (controller_Addr mus) NilControl]"

section \<open>Properties\<close>

text \<open>A single-destination configuration with the TLS settings of a multi-user one.\<close>

definition same_tls :: "ServerConfig \<Rightarrow> MUServerConfig \<Rightarrow> bool" where
  "same_tls c m \<longleftrightarrow> ServerConfig.Key c = Key m \<and> ServerConfig.Cert c = Cert m
     \<and> ServerConfig.ServerName c = ServerName m \<and> ServerConfig.DisableTLS c = DisableTLS m"

text \<open>
  C34: The two servers decide alike how to serve: with the same TLS settings, the multi-user server
  starts on a listener exactly when \<^verbatim>\<open>NewServer\<close> gets its certificate, and both then serve that
  listener plainly, or over TLS with the same certificates.
\<close>

theorem servers_agree_on_tls:
  assumes "same_tls c m" "NewMUServer m = Inr mus"
    and gen: "\<forall>name cs. gen name = Inr cs \<longrightarrow> cs \<noteq> []"
  shows "(case (server_certs gen load c, StartServer gen load mus (Inr l)) of
      (Inl e, r) \<Rightarrow> \<exists>e'. r = Inl e'
    | (Inr certs, r) \<Rightarrow> r = Inr (bind_listener (make_server c certs) l))"
proof -
  have m: "conf mus = m" using assms(2) by (auto simp: NewMUServer_def)
  show ?thesis
  proof (cases "Cert m = [] \<and> Key m = [] \<and> \<not> DisableTLS m")
    case True
    then show ?thesis using assms(1) m gen
      by (cases "gen (ServerName m)")
        (auto simp: same_tls_def server_certs_def StartServer_def ServeTLS_def bind_listener_def
          make_server_def Let_def)
  next
    case False
    then show ?thesis using assms(1) m
      by (cases "load (Cert m) (Key m)")
        (auto simp: same_tls_def server_certs_def StartServer_def ServeTLS_def bind_listener_def
          make_server_def Let_def)
  qed
qed

text \<open>
  A multi-user server starts with no users: whatever its configuration, every path is refused until
  a command has added it.
\<close>

theorem fresh_server_refuses:
  "\<exists>mus. NewMUServer m = Inr mus \<and> mux_ServeHTTP (users mus) path header upgrade_err = [Warn]"
  by (simp add: NewMUServer_def mux_ServeHTTP_def mux_get_def newMux_def)

section \<open>A sample multi-user server\<close>

definition sample_mu :: MUServerConfig where
  "sample_mu =
     \<lparr>ServerAddr = ''0.0.0.0:443'', ServerBindUnix = False, HTTPControllerAddr = ''127.0.0.1:8080'',
      Key = [], Cert = [], ServerName = ''example.com'', DisableTLS = False, EnableMux = True,
      EnableTFO = False, Timeout = 60, Verbose = False\<rparr>"

lemma sample_gen_nonempty: "\<forall>name cs. sample_gen name = Inr cs \<longrightarrow> cs \<noteq> []"
  by (auto simp: sample_gen_def generateCertificate_cases)

theorem servers_agree_on_tls_witness:
  "\<exists>mus. NewMUServer sample_mu = Inr mus
     \<and> StartServer sample_gen (\<lambda>c k. Inl EOF) mus (Inr 0)
       = Inr (TLSListener (Some [(sample_template, 4)]) (0 :: nat))"
proof -
  obtain mus where mus: "NewMUServer sample_mu = Inr mus" by (simp add: NewMUServer_def)
  have "same_tls sample_server sample_mu"
    by (simp add: same_tls_def sample_mu_def) (simp add: sample_server_def)
  from servers_agree_on_tls [where gen = sample_gen and load = "\<lambda>c k. Inl EOF" and l = "0 :: nat",
      OF this mus sample_gen_nonempty]
  have "case server_certs sample_gen (\<lambda>c k. Inl EOF) sample_server of
      Inl e \<Rightarrow> \<exists>e'. StartServer sample_gen (\<lambda>c k. Inl EOF) mus (Inr (0 :: nat)) = Inl e'
    | Inr certs \<Rightarrow> StartServer sample_gen (\<lambda>c k. Inl EOF) mus (Inr 0)
        = Inr (bind_listener (make_server sample_server certs) (0 :: nat))"
    by (simp split: sum.splits)
  moreover have "server_certs sample_gen (\<lambda>c k. Inl EOF) sample_server = Inr (Some [(sample_template, 4)])"
    by (simp add: server_certs_def sample_server_def sample_gen_def sample_certificate)
  moreover have "bind_listener (make_server sample_server (Some [(sample_template, 4)])) (0 :: nat)
      = TLSListener (Some [(sample_template, 4)]) 0"
    by (simp add: bind_listener_def make_server_def Let_def) (simp add: sample_server_def)
  ultimately show ?thesis using mus by auto
qed

end
