(* ===== verification/Deployment.thy ===== *)
theory Deployment
  imports CmdClient CmdServer MuConf
begin

text \<open>
  Properties of a client and a server together: which paths meet, and whether both sides agree that
  a connection carries streams.
\<close>

section \<open>The WebSocket request of a client\<close>

text \<open>
  The path a client requests is that of its URL, which ends at a query or a fragment. Escapes are not
  decoded here, so the property below is about paths without them.
\<close>

definition request_path :: "Client \<Rightarrow> string" where
  "request_path cl = takeWhile (\<lambda>x. x \<noteq> CHR ''?'' \<and> x \<noteq> CHR ''#'') (ClientConfig.WSSPath (Client.conf cl))"

definition protocol_header :: "Client \<Rightarrow> string" where
  "protocol_header cl = join_comma (ws_Subprotocols (wsDialer cl))"

definition unescaped :: "string \<Rightarrow> bool" where
  "unescaped p \<longleftrightarrow> CHR ''?'' \<notin> set p \<and> CHR ''#'' \<notin> set p \<and> CHR ''%'' \<notin> set p"

text \<open>Whether the server's request multiplexer passes the client's request to \<^verbatim>\<open>ServeHTTP\<close>.\<close>

definition reaches_server :: "Client \<Rightarrow> 'cert Server \<Rightarrow> string \<Rightarrow> bool" where
  "reaches_server cl s host =
     (case Handle (ServerConfig.WSSPath (Server.conf s)) of
        None \<Rightarrow> False
      | Some pattern \<Rightarrow> route_request pattern host (request_path cl) = Handled)"

lemma client_path:
  assumes "NewClient c r = (Inr cl, c', r')" "unescaped (ClientConfig.WSSPath c)"
  shows "request_path cl =
    (if hasPrefix (ClientConfig.WSSPath c) ''/'' then ClientConfig.WSSPath c
     else CHR ''/'' # ClientConfig.WSSPath c)"
proof -
  have "takeWhile (\<lambda>x. x \<noteq> CHR ''?'' \<and> x \<noteq> CHR ''#'') p = p" if "unescaped p" for p
    using that by (auto simp: unescaped_def takeWhile_eq_all_conv)
  moreover have "ClientConfig.WSSPath (Client.conf cl) = ClientConfig.WSSPath (fill_WSSPath c)"
    using assms(1) by (auto simp: NewClient_defs split: sum.splits if_splits)
  moreover have "unescaped (CHR ''/'' # ClientConfig.WSSPath c)"
    using assms(2) by (simp add: unescaped_def)
  ultimately show ?thesis
    using assms(2) by (simp add: request_path_def fill_WSSPath_def)
qed

lemma server_path: "NewServer gen load c = Inr s \<Longrightarrow> ServerConfig.WSSPath (Server.conf s) = ServerConfig.WSSPath c"
  by (simp add: NewServer_conf)


section \<open>Streams or a plain connection\<close>

lemma selected:
  "selectSubprotocol websocketSubprotocolSmuxON = websocketSubprotocolSmuxON"
  "selectSubprotocol websocketSubprotocolSmuxOFF = websocketSubprotocolSmuxOFF"
  "websocketSubprotocolSmuxON \<noteq> websocketSubprotocolSmuxOFF"
  by (simp_all add: selectSubprotocol_def serverSubprotocols_def Subprotocols_def TrimSpace_def is_space_def
      websocketSubprotocolSmuxON_def websocketSubprotocolSmuxOFF_def)

text \<open>
  C31: On a WebSocket connection the client's mode decides: whatever the server's own \<^verbatim>\<open>EnableMux\<close>
  says, a connection of a multiplexing client is served as streams and one of any other client as
  a plain connection, by the single-destination server and by the multi-user server alike.
\<close>

theorem client_mode_decides:
  assumes "NewClient c r = (Inr cl, c', r')" "NewServer gen load sc = Inr s"
  shows "server_ServeHTTP s (protocol_header cl) None =
      [if ClientConfig.EnableMux c then ServeStreams (DstAddr sc) else ServeConn (DstAddr sc)]
    \<and> mux_ServeHTTP m path (protocol_header cl) None =
        (case mux_get m path of
           None \<Rightarrow> [Warn]
         | Some dst \<Rightarrow> [if ClientConfig.EnableMux c then ServeStreams dst else ServeConn dst, CloseLeft])"
proof -
  have h: "protocol_header cl = (if ClientConfig.EnableMux c then websocketSubprotocolSmuxON
      else websocketSubprotocolSmuxOFF)"
    using assms(1) by (auto simp: protocol_header_def NewClient_defs split: sum.splits if_splits)
  have s: "Server.conf s = sc" "upgrader_Subprotocols s = serverSubprotocols"
    using assms(2)
    by (auto simp: NewServer_def and_then_eq_Inr make_server_def Let_def split: if_splits)
  have mode: "serve_mux (selectSubprotocol (protocol_header cl)) b = ClientConfig.EnableMux c" for b
    using selected by (simp add: h serve_mux_def)
  have first: "first_common serverSubprotocols (Subprotocols hd) = selectSubprotocol hd" for hd
    by (simp add: selectSubprotocol_def)
  show ?thesis
    by (simp add: server_ServeHTTP_def mux_ServeHTTP_def s first mode split: option.split)
qed

section \<open>A sample pair\<close>


theorem client_mode_decides_witness:
  "\<exists>cl c' r'. NewClient sample_client None = (Inr cl, c', r')
     \<and> server_ServeHTTP sample_made (protocol_header cl) None = [ServeStreams ''127.0.0.1:1080'']"
proof -
  have "ClientConfig.EnableMux sample_client" "DstAddr sample_server = ''127.0.0.1:1080''"
    by (simp_all add: sample_client_def sample_server_def)
  with client_mode_decides [OF sample_client_ok sample_server_made] sample_client_ok show ?thesis
    by auto
qed

end
