(* ===== verification/WsFrame.thy ===== *)
theory WsFrame
  imports Prelude
begin

text \<open>
  WebSocket frames as gorilla writes and reads them (\<^verbatim>\<open>flushFrame\<close>, \<^verbatim>\<open>maskBytes\<close> and the header part of
  \<^verbatim>\<open>advanceFrame\<close> in \<^verbatim>\<open>src/vendor/github.com/gorilla/websocket\<close>). The program negotiates no
  compression.
\<close>

unbundle bit_operations_syntax

section \<open>Big-endian integers\<close>

fun be_bytes :: "nat \<Rightarrow> nat \<Rightarrow> byte list" where
  "be_bytes 0 n = []"
| "be_bytes (Suc k) n = be_bytes k (n div 256) @ [of_nat n]"

definition be_value :: "byte list \<Rightarrow> nat" where
  "be_value bs = foldl (\<lambda>a b. a * 256 + unat b) 0 bs"

lemma length_be_bytes [simp]: "length (be_bytes k n) = k"
  by (induction k arbitrary: n) auto

lemma be_value_bytes: "be_value (be_bytes k n) = n mod 256 ^ k"
proof (induction k arbitrary: n)
  case (Suc k)
  have "be_value (be_bytes (Suc k) n) = (n div 256 mod 256 ^ k) * 256 + n mod 256"
    using Suc [of "n div 256"] by (simp add: be_value_def unat_of_nat)
  also have "\<dots> = n mod (256 * 256 ^ k)" by (simp add: mod_mult2_eq)
  finally show ?case by simp
qed (simp add: be_value_def)

section \<open>Masking\<close>

text \<open>\<^verbatim>\<open>maskBytes(key, pos, b)\<close> byte by byte: the masked bytes. The new position is \<open>(pos + length b) mod 4\<close>.\<close>

fun maskBytes :: "byte list \<Rightarrow> nat \<Rightarrow> byte list \<Rightarrow> byte list" where
  "maskBytes key pos [] = []"
| "maskBytes key pos (b # bs) = (b XOR key ! (pos mod 4)) # maskBytes key (Suc pos) bs"

lemma length_maskBytes [simp]: "length (maskBytes key pos bs) = length bs"
  by (induction key pos bs rule: maskBytes.induct) auto

lemma maskBytes_twice [simp]: "maskBytes key pos (maskBytes key pos bs) = bs"
  by (induction key pos bs rule: maskBytes.induct) (simp_all add: xor.assoc)

lemma maskBytes_append: "maskBytes key pos (bs @ cs) = maskBytes key pos bs @ maskBytes key (pos + length bs) cs"
  by (induction bs arbitrary: pos) simp_all

lemma maskBytes_cong: "p mod 4 = q mod 4 \<Longrightarrow> maskBytes key p bs = maskBytes key q bs"
proof (induction bs arbitrary: p q)
  case (Cons b bs)
  from Cons.prems have "Suc p mod 4 = Suc q mod 4" by (metis mod_Suc_eq)
  from Cons.IH [OF this] Cons.prems show ?case by simp
qed simp

text \<open>
  How \<^verbatim>\<open>mask.go\<close> computes it on a machine with words of \<open>w\<close> bytes, the slice starting at the address
  \<open>addr\<close>: byte by byte to a word boundary, then a word at a time with the rotated key, then the rest. The
  position is not advanced over the words, since a word holds whole keys.
\<close>

definition xor_words :: "byte list \<Rightarrow> byte list \<Rightarrow> byte list" where
  "xor_words k bs = map (\<lambda>i. bs ! i XOR k ! (i mod length k)) [0..<length bs]"

definition maskBytes_words :: "nat \<Rightarrow> nat \<Rightarrow> byte list \<Rightarrow> nat \<Rightarrow> byte list \<Rightarrow> byte list \<times> nat" where
  "maskBytes_words w addr key pos bs =
     (if length bs < 2 * w then (maskBytes key pos bs, (pos + length bs) mod 4)
      else let h = (if addr mod w \<noteq> 0 then w - addr mod w else 0);
               pos' = pos + h;
               body = drop h bs;
               k = map (\<lambda>i. key ! ((pos' + i) mod 4)) [0..<w];
               n = length body div w * w;
               tl = drop n body in
        (maskBytes key pos (take h bs) @ xor_words k (take n body) @ maskBytes key pos' tl,
         (pos' + length tl) mod 4))"

lemma maskBytes_nth: "maskBytes key pos bs = map (\<lambda>i. bs ! i XOR key ! ((pos + i) mod 4)) [0..<length bs]"
proof (induction bs arbitrary: pos)
  case (Cons b bs)
  then show ?case by (simp add: map_upt_Suc del: upt_Suc)
qed simp

lemma xor_words_mask:
  assumes "4 dvd w" "0 < w"
  shows "xor_words (map (\<lambda>i. key ! ((p + i) mod 4)) [0..<w]) bs = maskBytes key p bs"
proof -
  have "(p + i mod w) mod 4 = (p + i) mod 4" for i
    using assms(1) by (metis mod_add_right_eq mod_mod_cancel)
  then show ?thesis using assms(2) by (simp add: xor_words_def maskBytes_nth)
qed

lemma maskBytes_words_eq:
  assumes "4 dvd w" "0 < w"
  shows "maskBytes_words w addr key pos bs = (maskBytes key pos bs, (pos + length bs) mod 4)"
proof (cases "length bs < 2 * w")
  case False
  define h where "h = (if addr mod w \<noteq> 0 then w - addr mod w else 0)"
  define n where "n = length (drop h bs) div w * w"
  have h: "h \<le> length bs" using False assms(2) by (auto simp: h_def)
  have n: "n \<le> length (drop h bs)" "n mod 4 = 0"
    using assms(1) by (auto simp: n_def)
  have "maskBytes key pos bs = maskBytes key pos (take h bs) @ maskBytes key (pos + h) (drop h bs)"
    using h maskBytes_append [of key pos "take h bs" "drop h bs"] by simp
  also have "maskBytes key (pos + h) (drop h bs) =
      maskBytes key (pos + h) (take n (drop h bs)) @ maskBytes key (pos + h + n) (drop n (drop h bs))"
    using n(1) maskBytes_append [of key "pos + h" "take n (drop h bs)" "drop n (drop h bs)"]
    by (simp del: drop_drop)
  also have "maskBytes key (pos + h + n) (drop n (drop h bs)) = maskBytes key (pos + h) (drop n (drop h bs))"
    using n(2) by (intro maskBytes_cong) presburger
  finally have m: "maskBytes key pos bs = maskBytes key pos (take h bs)
      @ maskBytes key (pos + h) (take n (drop h bs)) @ maskBytes key (pos + h) (drop n (drop h bs))" .
  have "pos + h + length (drop n (drop h bs)) + n = pos + length bs" using n(1) h by simp
  then have "(pos + h + length (drop n (drop h bs))) mod 4 = (pos + length bs) mod 4"
    using n(2) by (metis add.right_neutral mod_add_right_eq)
  moreover have "maskBytes_words w addr key pos bs =
      (maskBytes key pos (take h bs) @ xor_words (map (\<lambda>i. key ! ((pos + h + i) mod 4)) [0..<w])
         (take n (drop h bs)) @ maskBytes key (pos + h) (drop n (drop h bs)),
       (pos + h + length (drop n (drop h bs))) mod 4)"
    using False unfolding maskBytes_words_def Let_def h_def n_def by (simp only: if_False)
  ultimately show ?thesis by (simp only: xor_words_mask [OF assms] m)
qed (simp add: maskBytes_words_def)

section \<open>Headers\<close>

definition finalBit :: byte where "finalBit = 0x80"
definition rsvBits :: byte where "rsvBits = 0x70"
definition maskBit :: byte where "maskBit = 0x80"
definition maxControlFramePayloadSize :: nat where "maxControlFramePayloadSize = 125"

definition continuationFrame :: nat where "continuationFrame = 0"
definition TextMessage :: nat where "TextMessage = 1"
definition BinaryMessage :: nat where "BinaryMessage = 2"
definition CloseMessage :: nat where "CloseMessage = 8"
definition PingMessage :: nat where "PingMessage = 9"
definition PongMessage :: nat where "PongMessage = 10"

lemmas op_defs' = continuationFrame_def TextMessage_def BinaryMessage_def CloseMessage_def
  PingMessage_def PongMessage_def

text \<open>The header \<^verbatim>\<open>flushFrame\<close> puts before \<open>len\<close> bytes of payload, without the mask key.\<close>

definition frame_header :: "bool \<Rightarrow> bool \<Rightarrow> nat \<Rightarrow> nat \<Rightarrow> byte list" where
  "frame_header server final op len =
     (let b0 = (if final then of_nat op OR finalBit else of_nat op);
          b1 = (if server then 0 else maskBit) in
      if len \<ge> 65536 then [b0, b1 OR 127] @ be_bytes 8 len
      else if len > 125 then [b0, b1 OR 126] @ be_bytes 2 len
      else [b0, b1 OR of_nat len])"

definition ws_frame :: "bool \<Rightarrow> bool \<Rightarrow> nat \<Rightarrow> byte list \<Rightarrow> byte list \<Rightarrow> byte list" where
  "ws_frame server final op key payload =
     frame_header server final op (length payload)
       @ (if server then payload else key @ maskBytes key 0 payload)"

text \<open>
  The header part of \<^verbatim>\<open>advanceFrame\<close> (steps 2 to 4) on the bytes received so far, in the order of its
  checks. \<open>server\<close> is the role of the reader, whose peer masks when the reader is a server.
\<close>

record header =
  h_final :: bool
  h_op :: nat
  h_len :: nat
  h_key :: "byte list"

datatype 'a parse =
    Short
  | Broken gerror
  | Parsed 'a "byte list"

definition protocolError :: "string \<Rightarrow> gerror" where
  "protocolError m = NewError (''websocket: '' @ m)"

definition ErrReadLimit :: gerror where
  "ErrReadLimit = NewError ''websocket: read limit exceeded''"

definition check_header :: "bool \<Rightarrow> bool \<Rightarrow> nat \<Rightarrow> nat \<Rightarrow> gerror option" where
  "check_header readFinal final op len7 =
     (if op \<in> {CloseMessage, PingMessage, PongMessage} then
        (if len7 > maxControlFramePayloadSize then Some (protocolError ''control frame length > 125'')
         else if \<not> final then Some (protocolError ''control frame not final'')
         else None)
      else if op \<in> {TextMessage, BinaryMessage} then
        (if \<not> readFinal then Some (protocolError ''message start before final message frame'') else None)
      else if op = continuationFrame then
        (if readFinal then Some (protocolError ''continuation after final message frame'') else None)
      else Some (protocolError ''unknown opcode''))"

definition payload_length :: "nat \<Rightarrow> byte list \<Rightarrow> nat parse" where
  "payload_length len7 bs =
     (if len7 = 126 then
        (if length bs < 2 then Short else Parsed (be_value (take 2 bs)) (drop 2 bs))
      else if len7 = 127 then
        (if length bs < 8 then Short
         else if be_value (take 8 bs) \<ge> 2 ^ 63 then Broken ErrReadLimit
         else Parsed (be_value (take 8 bs)) (drop 8 bs))
      else Parsed len7 bs)"

definition parse_header :: "bool \<Rightarrow> bool \<Rightarrow> byte list \<Rightarrow> header parse" where
  "parse_header server readFinal bs =
     (case bs of
        p0 # p1 # r \<Rightarrow>
          let final = (p0 AND finalBit \<noteq> 0); op = unat (p0 AND 0xF);
              masked = (p1 AND maskBit \<noteq> 0); len7 = unat (p1 AND 0x7F) in
          if p0 AND rsvBits \<noteq> 0 then Broken (protocolError ''unexpected reserved bits'')
          else (case check_header readFinal final op len7 of
              Some e \<Rightarrow> Broken e
            | None \<Rightarrow>
              (case payload_length len7 r of
                 Short \<Rightarrow> Short
               | Broken e \<Rightarrow> Broken e
               | Parsed len r' \<Rightarrow>
                   if masked \<noteq> server then Broken (protocolError ''incorrect mask flag'')
                   else if masked then
                     (if length r' < 4 then Short
                      else Parsed \<lparr>h_final = final, h_op = op, h_len = len, h_key = take 4 r'\<rparr> (drop 4 r'))
                   else Parsed \<lparr>h_final = final, h_op = op, h_len = len, h_key = []\<rparr> r'))
      | _ \<Rightarrow> Short)"

section \<open>Reading back a header\<close>

lemma first_byte:
  assumes "op \<in> {0, 1, 2, 8, 9, 10}"
  shows "((if final then of_nat op OR finalBit else of_nat op) AND finalBit \<noteq> 0) = final"
    "unat ((if final then of_nat op OR finalBit else of_nat op) AND 0xF) = op"
    "(if final then of_nat op OR finalBit else of_nat op) AND rsvBits = 0"
  using assms by (auto simp: finalBit_def rsvBits_def)

lemma low_bits: "l < 128 \<Longrightarrow> (of_nat l :: byte) AND 0x7F = of_nat l"
proof -
  assume "l < 128"
  then have "take_bit 7 (of_nat l :: byte) = of_nat l"
    by (simp add: take_bit_of_nat take_bit_nat_eq_self)
  then show ?thesis by (simp add: take_bit_eq_mask mask_eq_exp_minus_1)
qed

lemma second_byte:
  assumes "l < 128"
  shows "((if server then 0 else maskBit) OR of_nat l) AND maskBit \<noteq> 0 \<longleftrightarrow> \<not> server"
    "unat (((if server then 0 else maskBit) OR of_nat l) AND 0x7F) = l"
proof -
  have "(of_nat l :: byte) AND maskBit = (of_nat l AND 0x7F) AND maskBit" using low_bits [OF assms] by simp
  also have "\<dots> = 0" by (simp add: maskBit_def and.assoc)
  finally have z: "(of_nat l :: byte) AND maskBit = 0" .
  show "((if server then 0 else maskBit) OR of_nat l) AND maskBit \<noteq> 0 \<longleftrightarrow> \<not> server"
    using z by (simp add: bit.conj_disj_distrib2) (simp add: maskBit_def)
  have "((if server then 0 else maskBit) OR of_nat l) AND 0x7F = (of_nat l :: byte)"
    using low_bits [OF assms] by (simp add: bit.conj_disj_distrib2 maskBit_def)
  moreover have "unat (of_nat l :: byte) = l" using assms by (simp add: unat_of_nat)
  ultimately show "unat (((if server then 0 else maskBit) OR of_nat l) AND 0x7F) = l" by simp
qed

text \<open>What a frame's header says of its length in the second byte.\<close>

definition len7_of :: "nat \<Rightarrow> nat" where
  "len7_of len = (if len \<ge> 65536 then 127 else if len > 125 then 126 else len)"

definition ext_of :: "nat \<Rightarrow> byte list" where
  "ext_of len = (if len \<ge> 65536 then be_bytes 8 len else if len > 125 then be_bytes 2 len else [])"

lemma frame_header_eq:
  "frame_header server final op len =
     [if final then of_nat op OR finalBit else of_nat op,
      (if server then 0 else maskBit) OR of_nat (len7_of len)] @ ext_of len"
  by (simp add: frame_header_def len7_of_def ext_of_def Let_def)

lemma payload_length_ext:
  assumes "len < 2 ^ 63"
  shows "payload_length (len7_of len) (ext_of len @ r) = Parsed len r"
proof -
  have "be_value (be_bytes 8 len) = len" using assms by (simp add: be_value_bytes)
  moreover have "len < 65536 \<Longrightarrow> be_value (be_bytes 2 len) = len" by (simp add: be_value_bytes)
  ultimately show ?thesis
    using assms by (auto simp: payload_length_def len7_of_def ext_of_def)
qed

lemma len7_less: "len7_of len < 128"
  by (simp add: len7_of_def)

text \<open>A frame that its writer may send is read back whole by the other side.\<close>

lemma parse_frame:
  assumes "op \<in> {0, 1, 2, 8, 9, 10}" "check_header readFinal final op (len7_of (length payload)) = None"
    and "length payload < 2 ^ 63" "length key = 4"
  shows "parse_header server readFinal (ws_frame (\<not> server) final op key payload @ r) =
    Parsed \<lparr>h_final = final, h_op = op, h_len = length payload, h_key = (if server then key else [])\<rparr>
      ((if server then maskBytes key 0 payload else payload) @ r)"
proof -
  have "ws_frame (\<not> server) final op key payload @ r =
      (if final then of_nat op OR finalBit else of_nat op)
      # ((if \<not> server then 0 else maskBit) OR of_nat (len7_of (length payload)))
      # ext_of (length payload) @ (if \<not> server then payload else key @ maskBytes key 0 payload) @ r"
    by (simp add: ws_frame_def frame_header_eq)
  then show ?thesis
    using first_byte [OF assms(1), of final] second_byte [OF len7_less, of "\<not> server" "length payload"]
      payload_length_ext [OF assms(3)] assms(2,4)
    by (cases server) (simp_all add: parse_header_def Let_def)
qed

text \<open>Bytes that arrive later do not change what was parsed.\<close>

lemma payload_length_mono:
  "payload_length l bs = Parsed n r \<Longrightarrow> payload_length l (bs @ x) = Parsed n (r @ x)"
  "payload_length l bs = Broken e \<Longrightarrow> payload_length l (bs @ x) = Broken e"
  by (auto simp: payload_length_def split: if_splits)

lemma parse_header_mono:
  "parse_header server rf bs = Parsed h r \<Longrightarrow> parse_header server rf (bs @ x) = Parsed h (r @ x)"
  "parse_header server rf bs = Broken e \<Longrightarrow> parse_header server rf (bs @ x) = Broken e"
  by (auto simp: parse_header_def Let_def payload_length_mono split: list.splits if_splits option.splits
      parse.splits dest: payload_length_mono)

lemma parse_header_length: "parse_header server rf bs = Parsed h r \<Longrightarrow> length r + 2 \<le> length bs"
  by (auto simp: parse_header_def payload_length_def Let_def split: list.splits if_splits option.splits)

lemma parse_header_suffix:
  "parse_header server rf bs = Parsed h r \<Longrightarrow> drop (length bs - length r) bs = r"
  by (auto simp: parse_header_def payload_length_def Let_def split: list.splits if_splits option.splits)

end
