(* ===== verification/WebSocket.thy ===== *)
theory WebSocket
  imports WsFrame NetConn
begin

text \<open>
  The wrapper of \<^verbatim>\<open>src/internal/core/websocket.go\<close> that makes a \<^verbatim>\<open>net.Conn\<close> of a WebSocket connection,
  on the reading and writing methods of gorilla's \<^verbatim>\<open>Conn\<close>
  (\<^verbatim>\<open>src/vendor/github.com/gorilla/websocket/conn.go\<close>).
\<close>

section \<open>State\<close>

text \<open>
  Received bytes that no frame has consumed are in \<open>inq (tcp w)\<close>, whether they are still in the
  socket or already in gorilla's buffered reader. \<open>hasReader\<close> tells whether the wrapper holds a
  reader, which is then also gorilla's current one; it reads a message to its end before it asks
  for the next. \<open>keys\<close> are the mask keys \<^verbatim>\<open>newMaskKey\<close> returns, in order. \<open>ws_recvd\<close> and \<open>ws_sent\<close> are
  history: what \<^verbatim>\<open>Read\<close> returned and what \<^verbatim>\<open>Write\<close> accepted; \<open>ws_offered\<close> has in addition the bytes of the
  \<^verbatim>\<open>Write\<close> that failed, of which some may have been sent.
\<close>

record ws =
  tcp :: tcp_conn
  isServer :: bool
  readErr :: "gerror option"
  readRemaining :: nat
  readFinal :: bool
  readLength :: nat
  readMaskKey :: "byte list"
  readMaskPos :: nat
  hasReader :: bool
  writeErr :: "gerror option"
  writeDeadline :: "int option"
  keys :: "nat \<Rightarrow> byte list"
  nkeys :: nat
  closeOnce :: bool
  ws_recvd :: "byte list"
  ws_sent :: "byte list"
  ws_offered :: "byte list"

definition wrapWebSocketConn :: "bool \<Rightarrow> (nat \<Rightarrow> byte list) \<Rightarrow> tcp_conn \<Rightarrow> ws" where
  "wrapWebSocketConn server ks c =
     \<lparr>tcp = c, isServer = server, readErr = None, readRemaining = 0, readFinal = True, readLength = 0,
      readMaskKey = [], readMaskPos = 0, hasReader = False, writeErr = None, writeDeadline = None,
      keys = ks, nkeys = 0, closeOnce = False, ws_recvd = [], ws_sent = [],
      ws_offered = []\<rparr>"

definition ErrCloseSent :: gerror where
  "ErrCloseSent = NewError ''websocket: close sent''"

definition CloseNormalClosure :: nat where "CloseNormalClosure = 1000"
definition CloseProtocolError :: nat where "CloseProtocolError = 1002"
definition CloseNoStatusReceived :: nat where "CloseNoStatusReceived = 1005"
definition CloseAbnormalClosure :: nat where "CloseAbnormalClosure = 1006"

definition errUnexpectedEOF :: gerror where
  "errUnexpectedEOF = CloseError CloseAbnormalClosure"

definition writeWait :: int where "writeWait = 1000000000"

section \<open>Writing\<close>

text \<open>
  \<^verbatim>\<open>Conn.write\<close> and the end of \<^verbatim>\<open>WriteControl\<close>: the first error stays, and after a close message
  nothing more is sent.
\<close>

definition conn_write ::
  "int \<Rightarrow> int option \<Rightarrow> bool \<Rightarrow> byte list \<Rightarrow> ws \<Rightarrow> (gerror option \<times> ws) list" where
  "conn_write now dl close bs w =
     (case writeErr w of
        Some e \<Rightarrow> [(Some e, w)]
      | None \<Rightarrow>
          map (\<lambda>((n, e), t). case e of
                 Some x \<Rightarrow> (Some x, w\<lparr>tcp := t, writeErr := Some x\<rparr>)
               | None \<Rightarrow> (None, w\<lparr>tcp := t, writeErr := (if close then Some ErrCloseSent else None)\<rparr>))
            (tcp_write now bs ((tcp w)\<lparr>wdl := dl\<rparr>)))"

definition next_key :: "ws \<Rightarrow> byte list \<times> ws" where
  "next_key w = (keys w (nkeys w), w\<lparr>nkeys := Suc (nkeys w)\<rparr>)"

text \<open>
  A write with a deadline of its own (\<open>d\<close> from now): if it cannot be accepted now, it may be until the
  deadline, when it fails.
\<close>

definition timed_write :: "int \<Rightarrow> int \<Rightarrow> bool \<Rightarrow> byte list \<Rightarrow> ws \<Rightarrow> (gerror option \<times> ws) list" where
  "timed_write now d close bs w =
     (case conn_write now (Some (now + d)) close bs w of
        [] \<Rightarrow> conn_write (now + d) (Some (now + d)) close bs w
      | rs \<Rightarrow> rs)"

definition WriteControl :: "int \<Rightarrow> nat \<Rightarrow> byte list \<Rightarrow> ws \<Rightarrow> (gerror option \<times> ws) list" where
  "WriteControl now op payload w =
     (if length payload > maxControlFramePayloadSize
      then [(Some (NewError ''websocket: invalid control frame''), w)]
      else (case (if isServer w then ([], w) else next_key w) of
        (key, w') \<Rightarrow> timed_write now writeWait (op = CloseMessage)
          (ws_frame (isServer w) True op key payload) w'))"

definition FormatCloseMessage :: "nat \<Rightarrow> byte list \<Rightarrow> byte list" where
  "FormatCloseMessage code txt = (if code = CloseNoStatusReceived then [] else be_bytes 2 code @ txt)"

text \<open>
  The frames of one message. A server sends one frame; a client copies the message through a buffer
  of \<open>ioSize\<close> bytes and flushes a frame whenever the buffer is full and more is to come.
\<close>

definition ioSize :: nat where "ioSize = 32768"

function chunks_of :: "nat \<Rightarrow> byte list \<Rightarrow> byte list list" where
  "chunks_of k bs = (if k = 0 \<or> length bs \<le> k then [bs] else take k bs # chunks_of k (drop k bs))"
  by pat_completeness auto
termination by (relation "measure (\<lambda>(k, bs). length bs)") auto

declare chunks_of.simps [simp del]

fun client_frames :: "(nat \<Rightarrow> byte list) \<Rightarrow> nat \<Rightarrow> nat \<Rightarrow> byte list list \<Rightarrow> byte list list" where
  "client_frames ks i op [] = []"
| "client_frames ks i op [d] = [ws_frame False True op (ks i) d]"
| "client_frames ks i op (d # ds) =
     ws_frame False False op (ks i) d # client_frames ks (Suc i) continuationFrame ds"

definition message_frames :: "ws \<Rightarrow> nat \<Rightarrow> byte list \<Rightarrow> byte list list" where
  "message_frames w op bs =
     (if isServer w then [ws_frame True True op [] bs]
      else client_frames (keys w) (nkeys w) op (chunks_of ioSize bs))"

fun send_frames ::
  "(byte list \<Rightarrow> ws \<Rightarrow> (gerror option \<times> ws) list) \<Rightarrow> byte list list \<Rightarrow> ws \<Rightarrow> (gerror option \<times> ws) list" where
  "send_frames send [] w = [(None, w)]"
| "send_frames send (f # fs) w =
     concat (map (\<lambda>(e, w'). if e \<noteq> None then [(e, w')] else send_frames send fs w') (send f w))"

definition WriteMessage ::
  "(byte list \<Rightarrow> ws \<Rightarrow> (gerror option \<times> ws) list) \<Rightarrow> nat \<Rightarrow> byte list \<Rightarrow> ws \<Rightarrow> (gerror option \<times> ws) list" where
  "WriteMessage send op bs w =
     (case writeErr w of
        Some e \<Rightarrow> [(Some e, w)]
      | None \<Rightarrow>
          (let fs = message_frames w op bs in
           send_frames send fs (if isServer w then w else w\<lparr>nkeys := nkeys w + length fs\<rparr>)))"

section \<open>Reading\<close>

fun valid_utf8 :: "byte list \<Rightarrow> bool" where
  "valid_utf8 [] = True"
| "valid_utf8 (a # r) =
     (if a < 0x80 then valid_utf8 r
      else if 0xC2 \<le> a \<and> a \<le> 0xDF then
        (case r of b # r' \<Rightarrow> 0x80 \<le> b \<and> b \<le> 0xBF \<and> valid_utf8 r' | _ \<Rightarrow> False)
      else if 0xE0 \<le> a \<and> a \<le> 0xEF then
        (case r of b # c # r' \<Rightarrow>
           (if a = 0xE0 then 0xA0 else 0x80) \<le> b \<and> b \<le> (if a = 0xED then 0x9F else 0xBF)
           \<and> 0x80 \<le> c \<and> c \<le> 0xBF \<and> valid_utf8 r' | _ \<Rightarrow> False)
      else if 0xF0 \<le> a \<and> a \<le> 0xF4 then
        (case r of b # c # d # r' \<Rightarrow>
           (if a = 0xF0 then 0x90 else 0x80) \<le> b \<and> b \<le> (if a = 0xF4 then 0x8F else 0xBF)
           \<and> 0x80 \<le> c \<and> c \<le> 0xBF \<and> 0x80 \<le> d \<and> d \<le> 0xBF \<and> valid_utf8 r' | _ \<Rightarrow> False)
      else False)"

definition isValidReceivedCloseCode :: "nat \<Rightarrow> bool" where
  "isValidReceivedCloseCode code \<longleftrightarrow>
     code \<in> {1000, 1001, 1002, 1003, 1007, 1008, 1009, 1010, 1011, 1012, 1013}
     \<or> (code \<ge> 3000 \<and> code \<le> 4999)"

definition consume :: "nat \<Rightarrow> ws \<Rightarrow> ws" where
  "consume k w = w\<lparr>tcp := (tcp w)\<lparr>inq := drop k (inq (tcp w)),
     tcp_recvd := tcp_recvd (tcp w) @ take k (inq (tcp w))\<rparr>\<rparr>"

definition handleProtocolError :: "int \<Rightarrow> gerror \<Rightarrow> ws \<Rightarrow> (nat res \<times> ws) list" where
  "handleProtocolError now e w =
     map (\<lambda>(_, w'). (Inl e, w')) (WriteControl now CloseMessage (FormatCloseMessage CloseProtocolError []) w)"

definition handle_close :: "int \<Rightarrow> byte list \<Rightarrow> ws \<Rightarrow> (nat res \<times> ws) list" where
  "handle_close now payload w =
     (let code = (if length payload \<ge> 2 then be_value (take 2 payload) else CloseNoStatusReceived) in
      if length payload \<ge> 2 \<and> \<not> isValidReceivedCloseCode code
      then handleProtocolError now (protocolError ''invalid close code'') w
      else if length payload \<ge> 2 \<and> \<not> valid_utf8 (drop 2 payload)
      then handleProtocolError now (protocolError ''invalid utf8 payload in close frame'') w
      else map (\<lambda>(_, w'). (Inl (CloseError code), w'))
             (WriteControl now CloseMessage (FormatCloseMessage code []) w))"

definition handle_ping :: "int \<Rightarrow> byte list \<Rightarrow> ws \<Rightarrow> (nat res \<times> ws) list" where
  "handle_ping now payload w =
     map (\<lambda>(e, w'). (case e of
            None \<Rightarrow> Inr PingMessage
          | Some x \<Rightarrow> if x = ErrCloseSent then Inr PingMessage else Inl x, w'))
       (WriteControl now PongMessage payload w)"

text \<open>
  \<^verbatim>\<open>advanceFrame\<close> on the bytes that are there; no result when it needs more. It is called with the
  previous frame consumed. The text of a protocol error is not put into the close message.
\<close>

definition advanceFrame :: "int \<Rightarrow> ws \<Rightarrow> (nat res \<times> ws) list" where
  "advanceFrame now w =
     (case parse_header (isServer w) (readFinal w) (inq (tcp w)) of
        Short \<Rightarrow> []
      | Broken e \<Rightarrow> if e = ErrReadLimit then [(Inl e, w)] else handleProtocolError now e w
      | Parsed h r \<Rightarrow>
          let w1 = (consume (length (inq (tcp w)) - length r) w)
                \<lparr>readRemaining := h_len h, readMaskKey := h_key h, readMaskPos := 0\<rparr> in
          if h_op h \<in> {continuationFrame, TextMessage, BinaryMessage} then
            (if readLength w + h_len h \<ge> 2 ^ 63 then [(Inl ErrReadLimit, w1)]
             else [(Inr (h_op h), w1\<lparr>readFinal := h_final h, readLength := readLength w + h_len h\<rparr>)])
          else if length r < h_len h then []
          else let raw = take (h_len h) r;
                   payload = (if isServer w then maskBytes (h_key h) 0 raw else raw);
                   w2 = (consume (h_len h) w1)\<lparr>readRemaining := 0\<rparr> in
            if h_op h = PongMessage then [(Inr PongMessage, w2)]
            else if h_op h = PingMessage then handle_ping now payload w2
            else handle_close now payload w2)"

definition take_payload :: "nat \<Rightarrow> ws \<Rightarrow> byte list \<times> ws" where
  "take_payload k w =
     (let raw = take k (inq (tcp w));
          out = (if isServer w then maskBytes (readMaskKey w) (readMaskPos w) raw else raw) in
      (out, (consume k w)\<lparr>readRemaining := readRemaining w - k, readMaskPos := (readMaskPos w + k) mod 4,
              ws_recvd := ws_recvd w @ out\<rparr>))"

subsection \<open>Reading makes progress\<close>

lemma consume_fields [simp]:
  "inq (tcp (consume k w)) = drop k (inq (tcp w))" "isServer (consume k w) = isServer w"
  "readErr (consume k w) = readErr w" "readFinal (consume k w) = readFinal w"
  "readRemaining (consume k w) = readRemaining w" "hasReader (consume k w) = hasReader w"
  "readLength (consume k w) = readLength w" "ws_recvd (consume k w) = ws_recvd w" "ws_sent (consume k w) = ws_sent w"
  "tclosed (tcp (consume k w)) = tclosed (tcp w)" "readMaskKey (consume k w) = readMaskKey w"
  "readMaskPos (consume k w) = readMaskPos w"
  by (simp_all add: consume_def)

text \<open>What a write never touches.\<close>

definition same_reader :: "ws \<Rightarrow> ws \<Rightarrow> bool" where
  "same_reader w w' \<longleftrightarrow> inq (tcp w') = inq (tcp w) \<and> isServer w' = isServer w \<and> readErr w' = readErr w
     \<and> readRemaining w' = readRemaining w \<and> readFinal w' = readFinal w \<and> readLength w' = readLength w
     \<and> readMaskKey w' = readMaskKey w \<and> readMaskPos w' = readMaskPos w \<and> hasReader w' = hasReader w
     \<and> ws_recvd w' = ws_recvd w \<and> ws_sent w' = ws_sent w \<and> tclosed (tcp w') = tclosed (tcp w)
     \<and> tcp_recvd (tcp w') = tcp_recvd (tcp w)"

lemma same_reader_refl [simp]: "same_reader w w"
  by (simp add: same_reader_def)

lemma same_reader_trans: "same_reader w w' \<Longrightarrow> same_reader w' w'' \<Longrightarrow> same_reader w w''"
  by (simp add: same_reader_def)

lemma conn_write_same: "(e, w') \<in> set (conn_write now dl cl bs w) \<Longrightarrow> same_reader w w'"
  by (auto simp: conn_write_def same_reader_def tcp_write_def tcp_accept_def split: option.splits if_splits)

lemma timed_write_cases:
  "timed_write now d cl bs w =
     (if conn_write now (Some (now + d)) cl bs w = []
      then conn_write (now + d) (Some (now + d)) cl bs w
      else conn_write now (Some (now + d)) cl bs w)"
  by (auto simp: timed_write_def split: list.split)

lemma timed_write_same: "(e, w') \<in> set (timed_write now d cl bs w) \<Longrightarrow> same_reader w w'"
  by (auto simp: timed_write_cases dest: conn_write_same split: if_splits)

lemma WriteControl_same: "(e, w') \<in> set (WriteControl now op p w) \<Longrightarrow> same_reader w w'"
  by (auto simp: WriteControl_def next_key_def same_reader_def dest!: timed_write_same split: if_splits)

lemma handlers_same:
  "(r, w') \<in> set (handleProtocolError now e w) \<Longrightarrow> same_reader w w' \<and> isl r"
  "(r, w') \<in> set (handle_close now p w) \<Longrightarrow> same_reader w w' \<and> isl r"
  "(r, w') \<in> set (handle_ping now p w) \<Longrightarrow> same_reader w w' \<and> (isl r \<or> r = Inr PingMessage)"
  by (auto simp: handleProtocolError_def handle_close_def handle_ping_def Let_def dest: WriteControl_same
      split: if_splits option.splits)

lemma advanceFrame_shorter:
  assumes "(Inr op, w') \<in> set (advanceFrame now w)"
  shows "length (inq (tcp w')) < length (inq (tcp w))"
  using assms
  by (auto simp: advanceFrame_def Let_def same_reader_def dest!: handlers_same parse_header_length
      split: parse.splits if_splits)

section \<open>The methods of the wrapper\<close>

definition frame_error :: "gerror \<Rightarrow> ws \<Rightarrow> (byte list \<times> gerror option) \<times> ws" where
  "frame_error e w = (([], Some e), w\<lparr>readErr := Some e\<rparr>)"

definition internalError :: gerror where
  "internalError = NewError ''websocket: internal error, unexpected text or binary in Reader''"

text \<open>
  The wrapper's loop with gorilla's \<^verbatim>\<open>NextReader\<close> and \<^verbatim>\<open>messageReader.Read\<close> in it: the results a read
  of at most \<open>n\<close> bytes can return from the bytes that are there, none if it needs more. A read of
  payload returns some non-empty part of what is there, as the buffering has it.
\<close>

function wrapper_read :: "int \<Rightarrow> nat \<Rightarrow> ws \<Rightarrow> ((byte list \<times> gerror option) \<times> ws) list" where
  "wrapper_read now n w =
     (if readErr w \<noteq> None then [(([], readErr w), w)]
      else if hasReader w \<and> readRemaining w > 0 then
        map (\<lambda>k. case take_payload k w of (out, w') \<Rightarrow> ((out, None), w'))
          [1..<Suc (min n (min (readRemaining w) (length (inq (tcp w)))))]
      else if hasReader w \<and> readFinal w then wrapper_read now n (w\<lparr>hasReader := False\<rparr>)
      else concat (map (\<lambda>(r, w'). case r of
             Inl e \<Rightarrow> [frame_error e w']
           | Inr op \<Rightarrow>
               if op = TextMessage \<or> op = BinaryMessage then
                 (if hasReader w then [frame_error internalError w']
                  else wrapper_read now n (w'\<lparr>hasReader := True\<rparr>))
               else wrapper_read now n w')
           (advanceFrame now (if hasReader w then w else w\<lparr>readLength := 0\<rparr>))))"
  by pat_completeness auto
termination
  by (relation "measure (\<lambda>(now, n, w). 2 * length (inq (tcp w)) + (if hasReader w then 1 else 0))")
    (auto dest!: advanceFrame_shorter split: if_splits)

declare wrapper_read.simps [simp del]

text \<open>
  A read may also fail: at once when the connection was closed or the deadline has passed (unless the
  bytes it needs were already buffered), and when the peer's stream has ended before them.
\<close>

definition read_fails :: "int \<Rightarrow> ws \<Rightarrow> gerror list" where
  "read_fails now w =
     (if tclosed (tcp w) then [useOfClosed] else if expired (rdl (tcp w)) now then [ioTimeout] else [])"

definition ws_read :: "int \<Rightarrow> nat \<Rightarrow> ws \<Rightarrow> ((byte list \<times> gerror option) \<times> ws) list" where
  "ws_read now n w =
     (let rs = wrapper_read now n w; es = read_fails now w in
      if readErr w \<noteq> None then rs
      else rs @ map (\<lambda>e. frame_error e w) es @
        (if rs = [] \<and> es = [] then
           (case in_end (tcp w) of
              None \<Rightarrow> []
            | Some e \<Rightarrow> [frame_error (if e = EOF then errUnexpectedEOF else e) w])
         else []))"

definition offer :: "byte list \<Rightarrow> ws \<Rightarrow> ws" where
  "offer bs w = (if writeErr w = None then w\<lparr>ws_offered := ws_offered w @ bs\<rparr> else w)"

lemma offer_simps [simp]:
  "tcp (offer bs w) = tcp w" "isServer (offer bs w) = isServer w" "writeErr (offer bs w) = writeErr w"
  "keys (offer bs w) = keys w" "nkeys (offer bs w) = nkeys w" "ws_recvd (offer bs w) = ws_recvd w"
  "ws_sent (offer bs w) = ws_sent w" "message_frames (offer bs w) op m = message_frames w op m"
  by (simp_all add: offer_def message_frames_def)

definition ws_write :: "int \<Rightarrow> byte list \<Rightarrow> ws \<Rightarrow> ((nat \<times> gerror option) \<times> ws) list" where
  "ws_write now bs w =
     map (\<lambda>(e, w'). case e of
            None \<Rightarrow> ((length bs, None), w'\<lparr>ws_sent := ws_sent w' @ bs\<rparr>)
          | Some x \<Rightarrow> ((0, Some x), w'))
       (WriteMessage (\<lambda>f w. conn_write now (writeDeadline w) False f w) BinaryMessage bs (offer bs w))"

text \<open>
  \<^verbatim>\<open>Close\<close> sends a close message once, for at most 100 ms, and closes the socket whatever comes of it.
  The clock is counted from the call.
\<close>

definition closeWait :: int where "closeWait = 100000000"

definition ws_close :: "ws \<Rightarrow> (gerror option \<times> ws) list" where
  "ws_close w =
     concat (map (\<lambda>w'. map (\<lambda>(e, t). (e, w'\<lparr>tcp := t\<rparr>)) (tcp_close (tcp w')))
       (if closeOnce w then [w]
        else map snd (WriteMessage (timed_write 0 closeWait True) CloseMessage
               (FormatCloseMessage CloseNormalClosure [])
               (w\<lparr>closeOnce := True, writeDeadline := Some closeWait\<rparr>))))"

definition ws_ops :: "ws conn_ops" where
  "ws_ops = \<lparr>c_read = ws_read, c_write = ws_write, c_close = ws_close,
     c_set_deadline = (\<lambda>dl w. w\<lparr>tcp := (tcp w)\<lparr>rdl := Some dl, wdl := Some dl\<rparr>\<rparr>),
     c_set_read_deadline = (\<lambda>dl w. w\<lparr>tcp := (tcp w)\<lparr>rdl := Some dl\<rparr>\<rparr>),
     c_set_write_deadline = (\<lambda>dl w. w\<lparr>writeDeadline := Some dl\<rparr>)\<rparr>"

inductive ws_env :: "ws \<Rightarrow> ws \<Rightarrow> bool" where
  net: "tcp_env (tcp w) t \<Longrightarrow> ws_env w (w\<lparr>tcp := t\<rparr>)"

inductive_cases ws_envE: "ws_env w w'"

section \<open>The wrapper is a connection\<close>

lemma advanceFrame_keeps:
  assumes "(r, w') \<in> set (advanceFrame now w)"
  shows "tclosed (tcp w') = tclosed (tcp w) \<and> ws_recvd w' = ws_recvd w \<and> ws_sent w' = ws_sent w
    \<and> hasReader w' = hasReader w \<and> readErr w' = readErr w"
  using assms
  by (auto simp: advanceFrame_def Let_def same_reader_def dest!: handlers_same split: parse.splits if_splits)

lemma take_payload_facts:
  assumes "take_payload k w = (out, w')" "k \<le> length (inq (tcp w))"
  shows "length out = k" "tclosed (tcp w') = tclosed (tcp w)" "ws_recvd w' = ws_recvd w @ out"
    "ws_sent w' = ws_sent w"
  using assms by (auto simp: take_payload_def Let_def)

lemma wrapper_read_payload:
  assumes "readErr w = None" "hasReader w" "readRemaining w > 0"
    and "((bs, er), w') \<in> set (wrapper_read now n w)"
  obtains k where "take_payload k w = (bs, w')" "er = None" "1 \<le> k" "k \<le> n"
    "k \<le> readRemaining w" "k \<le> length (inq (tcp w))"
proof -
  from assms obtain k where "k \<in> set [1..<Suc (min n (min (readRemaining w) (length (inq (tcp w)))))]"
    "((bs, er), w') = (case take_payload k w of (out, w') \<Rightarrow> ((out, None), w'))"
    by (auto simp: wrapper_read.simps [of now n w] simp del: upt_Suc set_upt)
  then show ?thesis by (intro that [of k]) (auto split: prod.splits)
qed

lemma wrapper_read_frame:
  assumes "readErr w = None" "\<not> (hasReader w \<and> readRemaining w > 0)" "\<not> (hasReader w \<and> readFinal w)"
  shows "wrapper_read now n w =
    concat (map (\<lambda>(r, w'). case r of
         Inl e \<Rightarrow> [frame_error e w']
       | Inr op \<Rightarrow>
           if op = TextMessage \<or> op = BinaryMessage then
             (if hasReader w then [frame_error internalError w']
              else wrapper_read now n (w'\<lparr>hasReader := True\<rparr>))
           else wrapper_read now n w')
      (advanceFrame now (if hasReader w then w else w\<lparr>readLength := 0\<rparr>)))"
proof -
  have c: "(readErr w \<noteq> None) = False" "(hasReader w \<and> readRemaining w > 0) = False"
    "(hasReader w \<and> readFinal w) = False"
    using assms by auto
  show ?thesis
    unfolding wrapper_read.simps [of now n w] c if_False by (rule refl)
qed

lemma wrapper_read_result:
  "((bs, er), w') \<in> set (wrapper_read now n w) \<Longrightarrow>
     length bs \<le> n \<and> tclosed (tcp w') = tclosed (tcp w) \<and> ws_recvd w' = ws_recvd w @ bs
     \<and> ws_sent w' = ws_sent w \<and> (bs \<noteq> [] \<or> er \<noteq> None)"
proof (induction now n w arbitrary: bs er w' rule: wrapper_read.induct)
  case (1 now n w)
  note IH = 1(1,2,3)
  let ?v = "if hasReader w then w else w\<lparr>readLength := 0\<rparr>"
  consider "readErr w \<noteq> None"
    | "readErr w = None" "hasReader w" "readRemaining w > 0"
    | "readErr w = None" "hasReader w" "readRemaining w = 0" "readFinal w"
    | "readErr w = None" "\<not> (hasReader w \<and> readRemaining w > 0)" "\<not> (hasReader w \<and> readFinal w)"
    by auto
  then show ?case
  proof cases
    case 1
    with \<open>((bs, er), w') \<in> set (wrapper_read now n w)\<close> show ?thesis
      by (simp add: wrapper_read.simps [of now n w])
  next
    case 2
    with \<open>((bs, er), w') \<in> set (wrapper_read now n w)\<close> show ?thesis
      using take_payload_facts [of _ w bs w'] by (elim wrapper_read_payload) fastforce+
  next
    case 3
    with IH(1) [of bs er w'] \<open>((bs, er), w') \<in> set (wrapper_read now n w)\<close> show ?thesis
      by (simp add: wrapper_read.simps [of now n w])
  next
    case 4
    note eq = wrapper_read_frame [OF this]
    obtain r v where rv: "(r, v) \<in> set (advanceFrame now ?v)"
      and m: "((bs, er), w') \<in> set (case r of
             Inl e \<Rightarrow> [frame_error e v]
           | Inr op \<Rightarrow>
               if op = TextMessage \<or> op = BinaryMessage then
                 (if hasReader w then [frame_error internalError v]
                  else wrapper_read now n (v\<lparr>hasReader := True\<rparr>))
               else wrapper_read now n v)"
      using \<open>((bs, er), w') \<in> set (wrapper_read now n w)\<close> unfolding eq by auto
    have n4: "\<not> readErr w \<noteq> None" "\<not> (hasReader w \<and> 0 < readRemaining w)" "\<not> (hasReader w \<and> readFinal w)"
      using 4 by auto
    have k: "tclosed (tcp v) = tclosed (tcp w)" "ws_recvd v = ws_recvd w" "ws_sent v = ws_sent w"
      using advanceFrame_keeps [OF rv] by (auto split: if_splits)
    show ?thesis
      using m k IH(2) [OF n4 rv refl, of _ bs er w'] IH(3) [OF n4 rv refl, of _ bs er w']
      by (auto simp: frame_error_def split: sum.splits if_splits)
  qed
qed

lemma ws_read_cases:
  assumes "x \<in> set (ws_read now n w)"
  shows "x \<in> set (wrapper_read now n w) \<or> (\<exists>e. x = frame_error e w)"
proof -
  have "set (case in_end (tcp w) of None \<Rightarrow> []
      | Some e \<Rightarrow> [frame_error (if e = EOF then errUnexpectedEOF else e) w]) \<subseteq> range (\<lambda>e. frame_error e w)"
    by (cases "in_end (tcp w)") simp_all
  moreover have "set (map (\<lambda>e. frame_error e w) es) \<subseteq> range (\<lambda>e. frame_error e w)" for es by auto
  ultimately show ?thesis
    using assms unfolding ws_read_def Let_def by (simp only: set_append list.set Un_empty_right split: if_split_asm) blast+
qed

lemma ws_read_result:
  assumes "((bs, er), w') \<in> set (ws_read now n w)"
  shows "length bs \<le> n \<and> tclosed (tcp w') = tclosed (tcp w) \<and> ws_recvd w' = ws_recvd w @ bs
    \<and> ws_sent w' = ws_sent w \<and> (bs \<noteq> [] \<or> er \<noteq> None)"
  using ws_read_cases [OF assms]
proof
  assume "\<exists>e. ((bs, er), w') = frame_error e w"
  then show ?thesis by (auto simp: frame_error_def)
qed (rule wrapper_read_result)

lemma ws_read_closed: "tclosed (tcp w) \<Longrightarrow> ws_read now n w \<noteq> []"
  by (simp add: ws_read_def read_fails_def Let_def wrapper_read.simps [of now n w])

lemma send_frames_same:
  assumes "\<And>f e w w'. (e, w') \<in> set (send f w) \<Longrightarrow> same_reader w w'"
  shows "(e, w') \<in> set (send_frames send fs w) \<Longrightarrow> same_reader w w'"
proof (induction fs arbitrary: w)
  case (Cons f fs)
  then show ?case
    by (auto split: if_splits dest!: assms intro: same_reader_trans)
qed simp

lemma WriteMessage_same:
  assumes "\<And>f e w w'. (e, w') \<in> set (send f w) \<Longrightarrow> same_reader w w'"
    and "(e, w') \<in> set (WriteMessage send op bs w)"
  shows "same_reader w w'"
proof (cases "writeErr w")
  case None
  let ?v = "if isServer w then w else w\<lparr>nkeys := nkeys w + length (message_frames w op bs)\<rparr>"
  from None assms(2) have "(e, w') \<in> set (send_frames send (message_frames w op bs) ?v)"
    by (simp add: WriteMessage_def Let_def)
  from send_frames_same [OF assms(1) this] have "same_reader ?v w'" .
  then show ?thesis by (cases "isServer w") (simp_all add: same_reader_def)
qed (use assms in \<open>simp add: WriteMessage_def\<close>)

lemma ws_write_result:
  assumes "((nw, ew), w') \<in> set (ws_write now bs w)"
  shows "nw \<le> length bs \<and> tclosed (tcp w') = tclosed (tcp w) \<and> ws_recvd w' = ws_recvd w
    \<and> ws_sent w' = ws_sent w @ take nw bs"
proof -
  from assms obtain e v where "(e, v) \<in> set (WriteMessage (\<lambda>f w. conn_write now (writeDeadline w) False f w) BinaryMessage bs (offer bs w))"
    and r: "((nw, ew), w') = (case e of None \<Rightarrow> ((length bs, None), v\<lparr>ws_sent := ws_sent v @ bs\<rparr>)
      | Some x \<Rightarrow> ((0, Some x), v))"
    by (auto simp: ws_write_def)
  then have "same_reader (offer bs w) v"
    by (elim WriteMessage_same [rotated]) (rule conn_write_same)
  with r show ?thesis by (auto simp: same_reader_def split: option.splits)
qed

lemma chunks_of_nonempty [simp]: "chunks_of k bs \<noteq> []"
  by (subst chunks_of.simps) simp

lemma client_frames_nonempty [simp]: "client_frames ks i op ds = [] \<longleftrightarrow> ds = []"
  by (cases ds; cases "tl ds") auto

lemma message_frames_nonempty [simp]: "message_frames w op bs \<noteq> []"
  by (simp add: message_frames_def)

lemma conn_write_closed:
  "tclosed (tcp w) \<Longrightarrow> conn_write now dl cl bs w \<noteq> []
     \<and> (\<forall>(e, w') \<in> set (conn_write now dl cl bs w). e \<noteq> None)"
  by (auto simp: conn_write_def tcp_write_def split: option.splits)

lemma send_frames_closed:
  "tclosed (tcp w) \<Longrightarrow> fs \<noteq> [] \<Longrightarrow>
     send_frames (\<lambda>f w. conn_write now (writeDeadline w) False f w) fs w \<noteq> []
     \<and> (\<forall>(e, w') \<in> set (send_frames (\<lambda>f w. conn_write now (writeDeadline w) False f w) fs w). e \<noteq> None)"
  using conn_write_closed [of w now "writeDeadline w" False "hd fs"]
  by (cases fs) (fastforce simp: neq_Nil_conv)+

lemma ws_write_closed:
  assumes "tclosed (tcp w)"
  shows "ws_write now bs w \<noteq> [] \<and> (\<forall>((nw, ew), w') \<in> set (ws_write now bs w). ew \<noteq> None)"
proof (cases "writeErr w")
  case None
  let ?w = "offer bs w"
  let ?v = "if isServer w then ?w else ?w\<lparr>nkeys := nkeys w + length (message_frames w BinaryMessage bs)\<rparr>"
  have "tclosed (tcp ?v)" using assms by simp
  from send_frames_closed [OF this message_frames_nonempty, of now w BinaryMessage bs] None show ?thesis
    by (auto simp: ws_write_def WriteMessage_def Let_def split: option.splits)
qed (simp add: ws_write_def WriteMessage_def)

lemma ws_close_result:
  assumes "(er, w') \<in> set (ws_close w)"
  shows "tclosed (tcp w') \<and> ws_recvd w' = ws_recvd w \<and> ws_sent w' = ws_sent w"
proof -
  from assms obtain v where v: "w' = v\<lparr>tcp := (tcp v)\<lparr>tclosed := True\<rparr>\<rparr>"
    and m: "v \<in> (if closeOnce w then {w} else snd ` set (WriteMessage (timed_write 0 closeWait True)
        CloseMessage (FormatCloseMessage CloseNormalClosure [])
        (w\<lparr>closeOnce := True, writeDeadline := Some closeWait\<rparr>)))"
    by (auto simp: ws_close_def tcp_close_def split: if_splits)
  have "ws_recvd v = ws_recvd w \<and> ws_sent v = ws_sent w"
  proof (cases "closeOnce w")
    case False
    with m obtain e where "(e, v) \<in> set (WriteMessage (timed_write 0 closeWait True) CloseMessage
        (FormatCloseMessage CloseNormalClosure []) (w\<lparr>closeOnce := True, writeDeadline := Some closeWait\<rparr>))"
      by auto
    from WriteMessage_same [OF timed_write_same this] show ?thesis by (simp add: same_reader_def)
  qed (use m in simp)
  with v show ?thesis by simp
qed

lemma conn_write_expired: "conn_write d (Some d) cl bs w \<noteq> []"
  by (auto simp: conn_write_def tcp_write_def expired_def split: option.splits)

lemma timed_write_returns: "timed_write now d cl bs w \<noteq> []"
  by (simp add: timed_write_cases conn_write_expired)

lemma send_frames_returns: "(\<And>f w. send f w \<noteq> []) \<Longrightarrow> send_frames send fs w \<noteq> []"
proof (induction fs arbitrary: w)
  case (Cons f fs)
  then obtain e v ys where "send f w = (e, v) # ys" by (metis neq_Nil_conv surj_pair)
  with Cons show ?case by (cases e) auto
qed simp

lemma ws_close_returns: "ws_close w \<noteq> []"
proof -
  let ?L = "if closeOnce w then [w]
    else map snd (WriteMessage (timed_write 0 closeWait True) CloseMessage
      (FormatCloseMessage CloseNormalClosure []) (w\<lparr>closeOnce := True, writeDeadline := Some closeWait\<rparr>))"
  have "WriteMessage (timed_write 0 closeWait True) op bs v \<noteq> []" for op bs v
    by (simp add: WriteMessage_def Let_def send_frames_returns timed_write_returns split: option.split)
  then have "?L \<noteq> []" by simp
  then obtain v ys where "?L = v # ys" by (meson neq_Nil_conv)
  then show ?thesis unfolding ws_close_def by (simp only: list.map concat.simps) (simp add: tcp_close_def)
qed

interpretation wss: recording_conn ws_ops "\<lambda>w. tclosed (tcp w)" "\<lambda>_. True" ws_env ws_recvd ws_sent
proof unfold_locales
  fix now :: int and n :: nat and c :: ws
  assume "tclosed (tcp c)" "0 < n"
  then show "c_read ws_ops now n c \<noteq> [] \<and>
      (\<forall>((bs, er), c') \<in> set (c_read ws_ops now n c). bs \<noteq> [] \<or> er \<noteq> None)"
    using ws_read_closed ws_read_result by (fastforce simp: ws_ops_def)
next
  fix now :: int and bs :: "byte list" and c :: ws
  assume "tclosed (tcp c)"
  then show "c_write ws_ops now bs c \<noteq> [] \<and> (\<forall>((nw, ew), c') \<in> set (c_write ws_ops now bs c). ew \<noteq> None)"
    using ws_write_closed by (simp add: ws_ops_def)
qed (auto simp: ws_ops_def ws_close_returns dest: ws_read_result ws_write_result ws_close_result
    elim!: ws_envE tcp_envE)

text \<open>A socket for examples, with nothing received and room for \<open>k\<close> bytes to send.\<close>

definition sample_peer_socket :: "nat \<Rightarrow> tcp_conn" where
  "sample_peer_socket k = \<lparr>inq = [], in_end = None, room = k, out_err = None, tcp_recvd = [], tcp_sent = [],
     tclosed = False, rdl = None, wdl = None\<rparr>"

end
