(* ===== verification/AcceptLoop.thy ===== *)
theory AcceptLoop
  imports SmuxInvariant CoreConfig
begin

text \<open>
  The server's loop that accepts the streams of one connection, \<^verbatim>\<open>handleClientMuxConn\<close> of
  \<^verbatim>\<open>src/internal/core/common.go\<close>, interleaved with everything else that happens to the session.
\<close>

section \<open>The loop\<close>

text \<open>
  \<open>handlers\<close> are the streams passed to \<^verbatim>\<open>go handleStream(stream, ...)\<close> so far.
\<close>

datatype apc =
    AtTop
  | AtAccept
  | AtCheck nat
  | AtClose nat
  | Returned

record accepting =
  apc :: apc
  sess :: session
  handlers :: "nat list"

definition accept_loop :: "int \<Rightarrow> accepting \<Rightarrow> accepting list" where
  "accept_loop maxStream a =
     (case apc a of
        AtTop \<Rightarrow> [a\<lparr>apc := (if IsClosed (sess a) then Returned else AtAccept)\<rparr>]
      | AtAccept \<Rightarrow>
          map (\<lambda>(r, s'). a\<lparr>sess := s', apc := (case r of Inl e \<Rightarrow> Returned | Inr k \<Rightarrow> AtCheck k)\<rparr>)
            (AcceptStream (sess a))
      | AtCheck k \<Rightarrow>
          (if int (NumStreams (sess a)) > maxStream then [a\<lparr>apc := AtClose k\<rparr>]
           else [a\<lparr>apc := AtTop, handlers := k # handlers a\<rparr>])
      | AtClose k \<Rightarrow> map (\<lambda>(e, s'). a\<lparr>sess := s', apc := Returned\<rparr>) (Stream_Close k (sess a))
      | Returned \<Rightarrow> [])"

text \<open>
  The function makes the session first. When \<^verbatim>\<open>smux.Server\<close> fails it only logs the error and
  goes on with a nil session, whose \<^verbatim>\<open>IsClosed\<close> panics: \<open>None\<close>.
\<close>

definition handleClientMuxConn :: "Config \<Rightarrow> accepting option" where
  "handleClientMuxConn c =
     (case smux_Server c of
        Inl e \<Rightarrow> None
      | Inr s \<Rightarrow> Some \<lparr>apc = AtTop, sess = s, handlers = []\<rparr>)"

inductive accept_step :: "int \<Rightarrow> accepting \<Rightarrow> accepting \<Rightarrow> bool" where
  loop: "a' \<in> set (accept_loop maxStream a) \<Longrightarrow> accept_step maxStream a a'"
| session: "session_step (sess a) s' \<Longrightarrow> accept_step maxStream a (a\<lparr>sess := s'\<rparr>)"

inductive accept_run :: "int \<Rightarrow> accepting \<Rightarrow> accepting \<Rightarrow> bool" where
  accept_stop: "accept_run maxStream a a"
| accept_go: "accept_run maxStream a a' \<Longrightarrow> accept_step maxStream a' a'' \<Longrightarrow> accept_run maxStream a a''"

inductive_cases accept_stepE: "accept_step maxStream a a'"

section \<open>How many streams are handled at once\<close>

text \<open>The handled streams whose handler has not closed them.\<close>

definition live :: "accepting \<Rightarrow> nat set" where
  "live a = {k \<in> set (handlers a). \<not> sdie (objs (sess a) ! k)}"

definition accept_inv :: "int \<Rightarrow> accepting \<Rightarrow> bool" where
  "accept_inv maxStream a \<longleftrightarrow> session_inv (sess a)
     \<and> set (handlers a) \<subseteq> {..<length (objs (sess a))}
     \<and> (case apc a of AtCheck k \<Rightarrow> k < length (objs (sess a))
                    | AtClose k \<Rightarrow> k < length (objs (sess a)) | _ \<Rightarrow> True)
     \<and> (\<not> die (sess a) \<longrightarrow> int (card (live a)) \<le> maxStream)
     \<and> (die (sess a) \<longrightarrow> card (live a) \<le> 1)
     \<and> (die (sess a) \<longrightarrow> apc a \<noteq> AtTop \<longrightarrow> apc a \<noteq> Returned \<longrightarrow> live a = {})"

lemma live_finite [simp]: "finite (live a)"
  by (simp add: live_def)

text \<open>Every open stream is in the map, so an open session counts the live handlers.\<close>

lemma live_in_map:
  assumes "session_inv s" "K \<subseteq> {k. k < length (objs s) \<and> \<not> sdie (objs s ! k)}" "\<not> die s"
  shows "card K \<le> NumStreams s"
proof -
  have "K \<subseteq> snd ` set (streams s)"
    using assms(1,2) by (force simp: session_inv_def map_ok_def)
  then have "card K \<le> card (snd ` set (streams s))" by (intro card_mono) auto
  also have "\<dots> \<le> length (streams s)"
    by (metis card_length list.set_map length_map)
  finally show ?thesis using assms(3) by (simp add: NumStreams_def IsClosed_def)
qed

lemma session_step_accept_inv:
  assumes st: "session_step (sess a) s'" and inv: "accept_inv maxStream a" and pos: "1 \<le> maxStream"
  shows "accept_inv maxStream (a\<lparr>sess := s'\<rparr>)"
proof -
  let ?a = "a\<lparr>sess := s'\<rparr>"
  have s: "session_inv (sess a)" and h: "set (handlers a) \<subseteq> {..<length (objs (sess a))}"
    using inv by (simp_all add: accept_inv_def)
  have ev: "evolves (sess a) s'" and s': "session_inv s'"
    using session_step_evolves [OF st s] session_step_inv [OF st s] .
  have sub: "live ?a \<subseteq> live a"
    using ev h by (auto simp: live_def evolves_def)
  then have le: "card (live ?a) \<le> card (live a)" by (simp add: card_mono)
  have len: "length (objs (sess a)) \<le> length (objs s')" using ev by (simp add: evolves_def)
  have new: "live ?a = {}" if "die s'" "\<not> die (sess a)"
    using ev that h by (auto simp: live_def evolves_def)
  have dead: "die (sess a) \<Longrightarrow> die s'" using ev by (simp add: evolves_def)
  show ?thesis
    using inv s' h len le new sub dead pos unfolding accept_inv_def
    by (cases "die (sess a)"; cases "apc a") (auto intro: le_trans)
qed

lemma AcceptStream_index:
  "(Inr k, s') \<in> set (AcceptStream s) \<Longrightarrow> session_inv s \<Longrightarrow> k < length (objs s')"
  by (cases "chAccepts s") (auto simp: AcceptStream_def session_inv_def)

lemma accept_loop_inv:
  assumes st: "a' \<in> set (accept_loop maxStream a)" and inv: "accept_inv maxStream a"
    and pos: "1 \<le> maxStream"
  shows "accept_inv maxStream a'"
proof (cases "apc a")
  case AtTop
  with st inv show ?thesis by (auto simp: accept_loop_def accept_inv_def live_def IsClosed_def)
next
  case AtAccept
  with st obtain r s' where r: "(r, s') \<in> set (AcceptStream (sess a))"
    and a': "a' = a\<lparr>sess := s', apc := (case r of Inl e \<Rightarrow> Returned | Inr k \<Rightarrow> AtCheck k)\<rparr>"
    by (auto simp: accept_loop_def)
  have "session_step (sess a) s'" using r by (rule accept_stream)
  from session_step_accept_inv [OF this inv pos] have i: "accept_inv maxStream (a\<lparr>sess := s'\<rparr>)" .
  have "k < length (objs s')" if "r = Inr k" for k
    using r that inv by (auto simp: accept_inv_def intro: AcceptStream_index)
  with i a' AtAccept show ?thesis
    by (auto simp: accept_inv_def live_def split: sum.splits)
next
  case (AtCheck k)
  have s: "session_inv (sess a)" and k: "k < length (objs (sess a))"
    and h: "set (handlers a) \<subseteq> {..<length (objs (sess a))}"
    using inv AtCheck by (simp_all add: accept_inv_def)
  show ?thesis
  proof (cases "int (NumStreams (sess a)) > maxStream")
    case True
    with st AtCheck inv show ?thesis by (auto simp: accept_loop_def accept_inv_def live_def)
  next
    case False
    with st AtCheck have a': "a' = a\<lparr>apc := AtTop, handlers := k # handlers a\<rparr>"
      by (simp add: accept_loop_def)
    have "live a' \<subseteq> {k. k < length (objs (sess a)) \<and> \<not> sdie (objs (sess a) ! k)}"
      using k h by (auto simp: a' live_def)
    from live_in_map [OF s this] False have "\<not> die (sess a) \<longrightarrow> int (card (live a')) \<le> maxStream" by auto
    moreover have "card (live a') \<le> 1" if "die (sess a)"
    proof -
      have "live a = {}" using inv AtCheck that by (simp add: accept_inv_def)
      then have "live a' \<subseteq> {k}" by (auto simp: a' live_def)
      then show ?thesis using card_mono [of "{k}" "live a'"] by simp
    qed
    ultimately show ?thesis
      using s k h by (auto simp: a' accept_inv_def)
  qed
next
  case (AtClose k)
  with st obtain e s' where r: "(e, s') \<in> set (Stream_Close k (sess a))"
    and a': "a' = a\<lparr>sess := s', apc := Returned\<rparr>" by (auto simp: accept_loop_def)
  have "k < length (objs (sess a))" using inv AtClose by (simp add: accept_inv_def)
  then have "session_step (sess a) s'" using r by (rule close_stream)
  from session_step_accept_inv [OF this inv pos] AtClose a' show ?thesis
    by (auto simp: accept_inv_def live_def)
next
  case Returned
  with st show ?thesis by (simp add: accept_loop_def)
qed

lemma accept_run_inv:
  "accept_run maxStream a a' \<Longrightarrow> 1 \<le> maxStream \<Longrightarrow> accept_inv maxStream a \<Longrightarrow> accept_inv maxStream a'"
  by (induction rule: accept_run.induct)
    (auto elim!: accept_stepE intro: accept_loop_inv session_step_accept_inv)

text \<open>
  C17: Whatever streams a client opens and however it times them, a server connection never has
  more than 16 live streams in the hands of its handlers.
\<close>

theorem handled_streams_bounded:
  assumes "handleClientMuxConn defaultSmuxConfig = Some a" "accept_run defaultSmuxMaxStream a a'"
  shows "card (live a') \<le> 16"
proof -
  have a: "a = \<lparr>apc = AtTop, sess = newSession defaultSmuxConfig False, handlers = []\<rparr>"
    using assms(1) by (simp add: handleClientMuxConn_def defaultSmuxConfig_ok)
  have "accept_inv 16 a"
    by (simp add: a accept_inv_def live_def newSession_inv defaultSmuxConfig_def)
  with accept_run_inv [OF assms(2)] have "accept_inv 16 a'"
    by (simp add: defaultSmuxMaxStream_def)
  then show ?thesis by (cases "die (sess a')") (auto simp: accept_inv_def)
qed

section \<open>A client within its limit can be cut off\<close>

text \<open>One round of the receive loop on a frame that arrives whole.\<close>

lemma recv_step_next:
  "recv_frame s = Next s' \<Longrightarrow> \<not> recv_done s \<Longrightarrow> 0 < bucket s \<Longrightarrow> s' \<in> set (recv_step s)"
  by (simp add: recv_step_def)

lemma recv_frame_fin:
  "inbuf s = frame_bytes (newFrame (ver_byte s) cmdFIN i) @ rest \<Longrightarrow>
     recv_frame s = Next (recv_fin i (s\<lparr>inbuf := rest, dataReady := True\<rparr>))"
  by (simp add: recv_frame_def Let_def hdr_frame_bytes length_frame_bytes newFrame_def
      cmdNOP_def cmdSYN_def cmdFIN_def)

lemma recv_frame_syn:
  "inbuf s = frame_bytes (newFrame (ver_byte s) cmdSYN i) @ rest \<Longrightarrow>
     recv_frame s = recv_syn i (s\<lparr>inbuf := rest, dataReady := True\<rparr>)"
  by (simp add: recv_frame_def Let_def hdr_frame_bytes length_frame_bytes newFrame_def
      cmdNOP_def cmdSYN_def)

lemma recv_fin_fields:
  "streams (recv_fin i s) = streams s" "length (objs (recv_fin i s)) = length (objs s)"
  "chAccepts (recv_fin i s) = chAccepts s" "die (recv_fin i s) = die s"
  "bucket (recv_fin i s) = bucket s" "recv_done (recv_fin i s) = recv_done s"
  "client (recv_fin i s) = client s" "config (recv_fin i s) = config s"
  "inbuf (recv_fin i s) = inbuf s" "j < length (objs s) \<Longrightarrow> sdie (objs (recv_fin i s) ! j) = sdie (objs s ! j)"
proof -
  show "j < length (objs s) \<Longrightarrow> sdie (objs (recv_fin i s) ! j) = sdie (objs s ! j)"
  proof (cases "map_of (streams s) i")
    case (Some k)
    assume "j < length (objs s)"
    from upd_obj_nth_cases [OF this, of k "\<lambda>st. notify_stream (st\<lparr>finEvent := True\<rparr>)"] Some
    show ?thesis by (auto simp: recv_fin_def notify_stream_def)
  qed (simp add: recv_fin_def)
qed (simp_all add: recv_fin_def upd_obj_def split: option.split)

lemma Stream_Close_some: "\<exists>e s'. (e, s') \<in> set (Stream_Close k s)"
  using writeFrame_nonempty by (cases "Stream_Close k s") (auto simp: Stream_Close_def Let_def split: if_splits)

lemma Stream_Close_new:
  assumes "k < length (objs s)" "\<not> sdie (objs s ! k)" "map_of (streams s) (stid (objs s ! k)) = Some k"
    and "(e, s') \<in> set (Stream_Close k s)"
  shows "die s' = die s \<and> (\<forall>j < length (objs s). j \<noteq> k \<longrightarrow> sdie (objs s' ! j) = sdie (objs s ! j))"
proof -
  let ?f = "\<lambda>st :: smux_stream. st\<lparr>sdie := True\<rparr>"
  from assms(2,4) obtain r s2 where
    w: "(r, s2) \<in> set (writeFrame (newFrame (ver_byte s) cmdFIN (stid (objs s ! k))) (upd_obj k ?f s))"
    and s': "s' = streamClosed (stid (objs s ! k)) s2"
    by (auto simp: Stream_Close_def Let_def)
  from writeFrame_core [OF w] have "die s2 = die s" "streams s2 = streams s" "objs s2 = objs (upd_obj k ?f s)"
    by (simp_all add: same_core_def)
  with assms(1,3) show ?thesis
    by (auto simp: s' streamClosed_def Let_def)
qed


section \<open>Concrete connections\<close>

text \<open>A connection on which one stream was opened and handed to a handler.\<close>

definition one_syn :: accepting where
  "one_syn = \<lparr>apc = AtTop, sess = (newSession defaultSmuxConfig False)
     \<lparr>inbuf := frame_bytes (newFrame 1 cmdSYN 3)\<rparr>, handlers = []\<rparr>"

definition one_received :: accepting where
  "one_received = one_syn\<lparr>sess := hd (recv_step (sess one_syn))\<rparr>"

definition next_accept :: "accepting \<Rightarrow> accepting" where
  "next_accept a = hd (accept_loop 16 a)"

definition one_handled :: accepting where
  "one_handled = next_accept (next_accept (next_accept one_received))"

lemma next_accept_step: "accept_loop 16 a \<noteq> [] \<Longrightarrow> accept_step 16 a (next_accept a)"
  unfolding next_accept_def by (rule loop) (rule hd_in_set)

lemma one_handled_run:
  "\<exists>a. handleClientMuxConn defaultSmuxConfig = Some a \<and> accept_run 16 a one_handled"
proof -
  let ?a = "\<lparr>apc = AtTop, sess = newSession defaultSmuxConfig False, handlers = []\<rparr> :: accepting"
  let ?s = "newSession defaultSmuxConfig False"
  have "conn_step ?s (?s\<lparr>inbuf := inbuf ?s @ frame_bytes (newFrame 1 cmdSYN 3)\<rparr>)"
    by (rule arrive) (simp add: newSession_def)
  then have "session_step (sess ?a) (sess one_syn)"
    using connection [of ?s "sess one_syn"] by (simp add: one_syn_def newSession_def)
  from session [OF this, of 16] have a: "accept_step 16 ?a one_syn" by (simp add: one_syn_def)
  have "recv_step (sess one_syn) \<noteq> []" "\<not> client (sess one_syn)" by code_simp+
  then have "session_step (sess one_syn) (hd (recv_step (sess one_syn)))" by (intro receive) simp_all
  from session [OF this, of 16] have b: "accept_step 16 one_syn one_received"
    by (simp add: one_received_def)
  have c: "accept_step 16 one_received (next_accept one_received)"
    by (rule next_accept_step) code_simp
  have d: "accept_step 16 (next_accept one_received) (next_accept (next_accept one_received))"
    by (rule next_accept_step) code_simp
  have e: "accept_step 16 (next_accept (next_accept one_received)) one_handled"
    unfolding one_handled_def by (rule next_accept_step) code_simp
  have "accept_run 16 ?a one_handled"
    by (rule accept_go [OF accept_go [OF accept_go [OF accept_go [OF accept_go [OF accept_stop a] b] c] d] e])
  then show ?thesis by (simp add: handleClientMuxConn_def defaultSmuxConfig_ok)
qed

theorem handled_streams_bounded_witness:
  "handlers one_handled = [0] \<and> card (live one_handled) \<le> 16"
proof -
  from one_handled_run obtain a where "handleClientMuxConn defaultSmuxConfig = Some a"
    "accept_run defaultSmuxMaxStream a one_handled" by (auto simp: defaultSmuxMaxStream_def)
  from handled_streams_bounded [OF this] have "card (live one_handled) \<le> 16" .
  moreover have "handlers one_handled = [0]" by code_simp
  ultimately show ?thesis by simp
qed

text \<open>A connection with 16 handled streams, on which a FIN and a SYN arrive.\<close>

lemma add_streams:
  "session_inv s \<Longrightarrow> \<not> client s \<Longrightarrow> distinct is \<Longrightarrow> set is \<inter> fst ` set (streams s) = {} \<Longrightarrow>
   session_inv (fold add_stream is s) \<and> fst ` set (streams (fold add_stream is s)) = set is \<union> fst ` set (streams s)
   \<and> length (streams (fold add_stream is s)) = length is + length (streams s)
   \<and> length (objs (fold add_stream is s)) = length is + length (objs s)
   \<and> client (fold add_stream is s) = client s \<and> config (fold add_stream is s) = config s
   \<and> die (fold add_stream is s) = die s \<and> bucket (fold add_stream is s) = bucket s
   \<and> recv_done (fold add_stream is s) = recv_done s \<and> chAccepts (fold add_stream is s) = chAccepts s"
proof (induction "is" arbitrary: s)
  case (Cons i "is")
  have new: "i \<notin> fst ` set (streams s)" using Cons.prems by auto
  have "session_inv (add_stream i s)" using add_stream_inv [OF Cons.prems(1) new] Cons.prems(2) by simp
  moreover have "fst ` set (streams (add_stream i s)) = insert i (fst ` set (streams s))"
    "length (streams (add_stream i s)) = Suc (length (streams s))"
    "length (objs (add_stream i s)) = Suc (length (objs s))"
    "client (add_stream i s) = client s" "config (add_stream i s) = config s"
    "die (add_stream i s) = die s" "bucket (add_stream i s) = bucket s"
    "recv_done (add_stream i s) = recv_done s" "chAccepts (add_stream i s) = chAccepts s"
    using new by (simp_all add: add_stream_def length_alist_put)
  ultimately show ?case using Cons.IH [of "add_stream i s"] Cons.prems by auto
qed simp

definition sixteen_ids :: "u32 list" where
  "sixteen_ids = [3, 5, 7, 9, 11, 13, 15, 17, 19, 21, 23, 25, 27, 29, 31, 33]"

definition full_session :: session where
  "full_session = (fold add_stream sixteen_ids (newSession defaultSmuxConfig False))
     \<lparr>inbuf := frame_bytes (newFrame 1 cmdFIN 3) @ frame_bytes (newFrame 1 cmdSYN 35)\<rparr>"

definition full_server :: accepting where
  "full_server = \<lparr>apc = AtAccept, sess = full_session, handlers = [0..<16]\<rparr>"

lemma full_session_facts:
  "session_inv full_session" "fst ` set (streams full_session) = set sixteen_ids"
  "length (streams full_session) = 16" "length (objs full_session) = 16"
  "\<not> client full_session" "config full_session = defaultSmuxConfig" "\<not> die full_session"
  "bucket full_session = 262144" "\<not> recv_done full_session" "chAccepts full_session = []"
proof -
  let ?s = "newSession defaultSmuxConfig False" and ?t = "fold add_stream sixteen_ids (newSession defaultSmuxConfig False)"
  have "session_inv ?s" by (simp add: newSession_inv defaultSmuxConfig_def)
  moreover have "\<not> client ?s" "distinct sixteen_ids" "set sixteen_ids \<inter> fst ` set (streams ?s) = {}"
    by (simp_all add: newSession_def sixteen_ids_def)
  ultimately have t: "session_inv ?t \<and> fst ` set (streams ?t) = set sixteen_ids \<union> fst ` set (streams ?s)
      \<and> length (streams ?t) = length sixteen_ids + length (streams ?s)
      \<and> length (objs ?t) = length sixteen_ids + length (objs ?s) \<and> client ?t = client ?s
      \<and> config ?t = config ?s \<and> die ?t = die ?s \<and> bucket ?t = bucket ?s
      \<and> recv_done ?t = recv_done ?s \<and> chAccepts ?t = chAccepts ?s"
    by (rule add_streams)
  have "same_core ?t full_session" by (simp add: same_core_def full_session_def)
  then show "session_inv full_session" using same_core_inv t by blast
  show "fst ` set (streams full_session) = set sixteen_ids"
    "length (streams full_session) = 16" "length (objs full_session) = 16"
    "\<not> client full_session" "config full_session = defaultSmuxConfig" "\<not> die full_session"
    "bucket full_session = 262144" "\<not> recv_done full_session" "chAccepts full_session = []"
    using t by (auto simp: full_session_def newSession_def defaultSmuxConfig_def sixteen_ids_def)
qed


end
