(* ===== verification/Dialling.thy ===== *)
theory Dialling
  imports Deployment WebSocket AcceptLoop
begin

text \<open>
  Small functions between the parts: how client and servers dial, what they hand to the accept loop of
  streams, how a server is closed, and how a socket is exempted from the VPN on Android.
\<close>

section \<open>Dialling\<close>

text \<open>The hooks of the tests come before the dialer of the configuration.\<close>

definition dialServerRaw :: "'c res option \<Rightarrow> (string \<Rightarrow> 'c res) \<Rightarrow> Client \<Rightarrow> 'c res" where
  "dialServerRaw testDialServerRaw netDial cl =
     (case testDialServerRaw of
        None \<Rightarrow> netDial (ClientConfig.RemoteAddr (Client.conf cl))
      | Some r \<Rightarrow> r)"

definition dialDst :: "'c res option \<Rightarrow> (string \<Rightarrow> 'c res) \<Rightarrow> 'cert Server \<Rightarrow> 'c res" where
  "dialDst testDialDst netDial s =
     (case testDialDst of
        Some r \<Rightarrow> r
      | None \<Rightarrow> netDial (ServerConfig.DstAddr (Server.conf s)))"

text \<open>
  \<^verbatim>\<open>dialWebsocketConn\<close> wraps what the dialer returned before it looks at the error, so that a failed dial
  gives a wrapper of nil with the error; \<open>checked\<close> is the test its callers make.
\<close>

datatype wrapped = NilInside | Around ws

definition dialWebsocketConn ::
  "(nat \<Rightarrow> byte list) \<Rightarrow> (wsDialer \<Rightarrow> string \<Rightarrow> tcp_conn res) \<Rightarrow> wsDialer \<Rightarrow> string \<Rightarrow> wrapped \<times> gerror option" where
  "dialWebsocketConn ks dial d url =
     (case dial d url of
        Inl e \<Rightarrow> (NilInside, Some e)
      | Inr t \<Rightarrow> (Around (wrapWebSocketConn False ks t), None))"

definition dialWSS ::
  "(nat \<Rightarrow> byte list) \<Rightarrow> (wsDialer \<Rightarrow> string \<Rightarrow> tcp_conn res) \<Rightarrow> Client \<Rightarrow> wrapped \<times> gerror option" where
  "dialWSS ks dial cl = dialWebsocketConn ks dial (wsDialer cl) (wssURL cl)"

definition checked :: "wrapped \<times> gerror option \<Rightarrow> wrapped res" where
  "checked r = (case snd r of Some e \<Rightarrow> Inl e | None \<Rightarrow> Inr (fst r))"

lemma wrapped_role: "isServer (wrapWebSocketConn b ks t) = b"
  by (simp add: wrapWebSocketConn_def)

text \<open>No caller of the client uses the wrapper of nil.\<close>

lemma dialWSS_checked: "checked (dialWSS ks dial cl) = Inr w \<Longrightarrow> \<exists>c. w = Around c \<and> \<not> isServer c"
  by (cases "dial (wsDialer cl) (wssURL cl)") (auto simp: checked_def dialWSS_def dialWebsocketConn_def wrapped_role)

section \<open>What the servers hand to the accept loop\<close>

text \<open>The session the loop starts with, if any, and the number of streams it serves.\<close>

definition server_handleClientMuxConn :: "'cert Server \<Rightarrow> accepting option \<times> int" where
  "server_handleClientMuxConn s = (handleClientMuxConn (smuxConfig s), defaultSmuxMaxStream)"

definition mux_handleClientMuxConn :: "mux \<Rightarrow> accepting option \<times> int" where
  "mux_handleClientMuxConn m = (handleClientMuxConn (muxSmuxConfig m), defaultSmuxMaxStream)"

text \<open>Both servers treat the streams of a connection alike, whatever their configuration.\<close>

lemma servers_accept_alike:
  assumes "NewServer gen load c = Inr s"
  shows "server_handleClientMuxConn s = mux_handleClientMuxConn (newMux b t)"
  using assms
  by (auto simp: server_handleClientMuxConn_def mux_handleClientMuxConn_def newMux_def NewServer_def and_then_eq_Inr
      make_server_def Let_def split: if_splits)

section \<open>Closing a server\<close>

text \<open>
  The listener slot of a \<^verbatim>\<open>Server\<close>: \<^verbatim>\<open>ActiveAndServe\<close> stores the listener it serves, \<^verbatim>\<open>Close\<close> closes the one that is
  stored. Both hold \<^verbatim>\<open>listenerLocker\<close>.
\<close>

definition store_listener :: "'l \<Rightarrow> 'l option \<Rightarrow> 'l option" where
  "store_listener l slot = Some l"

definition Server_Close :: "('l \<Rightarrow> gerror option) \<Rightarrow> 'l option \<Rightarrow> gerror option" where
  "Server_Close close slot = (case slot of Some l \<Rightarrow> close l | None \<Rightarrow> None)"

section \<open>The VPN on Android\<close>

text \<open>
  The system calls of \<^verbatim>\<open>sendFdToBypass\<close>, in order; their results are arguments. The helper socket is closed
  by a deferred call.
\<close>

datatype syscall =
    NewUnixSocket
  | SetTimeouts
  | ConnectTo string
  | SendRights int
  | ReadByte
  | CloseSocket

definition protectPath :: string where
  "protectPath = ''protect_path''"

definition sendFdToBypass :: "int \<Rightarrow> gerror option \<Rightarrow> gerror option \<Rightarrow> gerror option \<Rightarrow> syscall list" where
  "sendFdToBypass fd socket_err connect_err sendmsg_err =
     NewUnixSocket #
       (if socket_err \<noteq> None then []
        else [SetTimeouts, ConnectTo protectPath]
          @ (if connect_err \<noteq> None then []
             else SendRights fd # (if sendmsg_err \<noteq> None then [] else [ReadByte]))
          @ [CloseSocket])"

text \<open>
  The descriptor is sent at most once and only over a connected socket, the helper socket is closed last
  on every path that made it, and only a helper that took the descriptor is waited for.
\<close>

lemma sendFdToBypass_calls:
  "count_list (sendFdToBypass fd e1 e2 e3) (SendRights fd) = (if e1 = None \<and> e2 = None then 1 else 0)"
  "(last (sendFdToBypass fd e1 e2 e3) = CloseSocket) = (e1 = None)"
  "(ReadByte \<in> set (sendFdToBypass fd e1 e2 e3)) = (e1 = None \<and> e2 = None \<and> e3 = None)"
  by (simp_all add: sendFdToBypass_def)

end
