(* ===== verification/Conns.thy ===== *)
theory Conns
  imports CMux
begin

text \<open>
  The tunnel of \<^verbatim>\<open>common.go\<close> on the connections the program joins: sockets, the server's streams
  and the client's streams. What \<open>Tunnel\<close> proves against the interface holds of all of them.
\<close>

section \<open>Any connection\<close>

text \<open>A value of type \<^verbatim>\<open>net.Conn\<close>: a socket, a \<^verbatim>\<open>*smux.Stream\<close> or a \<^verbatim>\<open>*muxStream\<close>.\<close>

type_synonym any_conn = "tcp_conn + mux_conn + mux_conn"

definition any_ops :: "any_conn conn_ops" where
  "any_ops = sum_ops tcp_ops (sum_ops smux_ops cmux_ops)"

definition any_closed :: "any_conn \<Rightarrow> bool" where
  "any_closed = case_sum tclosed (case_sum mux_closed mux_closed)"

definition any_valid :: "any_conn \<Rightarrow> bool" where
  "any_valid = case_sum (\<lambda>_. True) (case_sum mux_valid mux_valid)"

definition any_env :: "any_conn \<Rightarrow> any_conn \<Rightarrow> bool" where
  "any_env = sum_env tcp_env (sum_env mux_env mux_env)"

text \<open>The bytes read from a connection, and those written to it, since it was made.\<close>

definition any_taken :: "any_conn \<Rightarrow> byte list" where
  "any_taken = case_sum tcp_recvd (case_sum mux_taken mux_taken)"

definition any_wrote :: "any_conn \<Rightarrow> byte list" where
  "any_wrote = case_sum tcp_sent (case_sum mux_wrote mux_wrote)"

interpretation streams: two_conns smux_ops mux_closed mux_valid mux_env mux_taken mux_wrote
    cmux_ops mux_closed mux_valid mux_env mux_taken mux_wrote
  by unfold_locales

interpretation conns: two_conns tcp_ops tclosed "\<lambda>_. True" tcp_env tcp_recvd tcp_sent
    "sum_ops smux_ops cmux_ops" "case_sum mux_closed mux_closed" "case_sum mux_valid mux_valid"
    "sum_env mux_env mux_env" "case_sum mux_taken mux_taken" "case_sum mux_wrote mux_wrote"
  by unfold_locales

interpretation any: recording_conn any_ops any_closed any_valid any_env any_taken any_wrote
  unfolding any_ops_def any_closed_def any_valid_def any_env_def any_taken_def any_wrote_def
  by (rule conns.either.recording_conn_axioms)

section \<open>Running a tunnel\<close>

text \<open>
  A deterministic execution: at each step one goroutine moves, with one of its possible results.
\<close>

fun exec :: "'c conn_ops \<Rightarrow> (dir \<times> nat) list \<Rightarrow> 'c tunnel \<Rightarrow> 'c tunnel option" where
  "exec ops [] T = Some T"
| "exec ops ((d, i) # cs) (s, th) =
     (let rs = ow_step ops d s (th d) in
      if i < length rs then exec ops cs (fst (rs ! i), th(d := snd (rs ! i))) else None)"

lemma run_cons:
  "tunnel_run ops env T1 ls T2 \<Longrightarrow> tunnel_step ops env l T0 T1 \<Longrightarrow> tunnel_run ops env T0 (l # ls) T2"
proof (induction rule: tunnel_run.induct)
  case (run_nil T)
  then show ?case
    using tunnel_run.run_snoc [OF tunnel_run.run_nil, of ops env l T0 T] by simp
next
  case (run_snoc T ls T' l' T'')
  then show ?case
    using tunnel_run.run_snoc [of ops env T0 "l # ls" T' l' T''] by simp
qed

lemma exec_run: "exec ops cs T = Some T' \<Longrightarrow> tunnel_run ops env T (map (\<lambda>c. Some (fst c)) cs) T'"
proof (induction ops cs T rule: exec.induct)
  case (2 ops d i cs s th)
  let ?r = "ow_step ops d s (th d) ! i"
  from 2 have i: "i < length (ow_step ops d s (th d))" by (auto simp: Let_def split: if_splits)
  then have "tunnel_step ops env (Some d) (s, th) (fst ?r, th(d := snd ?r))"
    by (intro tunnel_step.goroutine) (metis nth_mem prod.collapse)
  moreover from 2 i have "tunnel_run ops env (fst ?r, th(d := snd ?r)) (map (\<lambda>c. Some (fst c)) cs) T'"
    by (simp add: Let_def)
  ultimately show ?case using run_cons [of ops env] by simp
qed (auto intro: tunnel_run.run_nil)

lemma run_append:
  "tunnel_run ops env T1 ls T2 \<Longrightarrow> tunnel_run ops env T2 ls' T3 \<Longrightarrow> tunnel_run ops env T1 (ls @ ls') T3"
proof (rotate_tac, induction rule: tunnel_run.induct)
  case (run_snoc T ls T' l T'')
  then show ?case by (metis append.assoc tunnel_run.run_snoc)
qed simp

section \<open>What a tunnel guarantees\<close>

lemma any_tunnel_ok:
  assumes "tunnel_run any_ops any_env (openTunnel a b timeout now bufs) ls T"
    and "any_valid a" "any_valid b" "set bufs \<subseteq> {defaultCopyIOBufferSize}"
  shows "tunnel_ok any_closed any_valid T"
  using any.tunnel_reach_ok [OF assms] .

lemma any_tunnel_traffic:
  assumes "tunnel_run any_ops any_env (openTunnel a b timeout now bufs) ls (s, th)"
    and "any_valid a" "any_valid b" "set bufs \<subseteq> {defaultCopyIOBufferSize}"
  shows "\<exists>p rest. any_wrote (dst d s) = any_wrote (case d of AtoB \<Rightarrow> b | BtoA \<Rightarrow> a) @ p
    \<and> any_taken (src d s) = any_taken (case d of AtoB \<Rightarrow> a | BtoA \<Rightarrow> b) @ p @ rest
    \<and> length rest \<le> defaultCopyIOBufferSize \<and> (outcome (th d) = Some None \<longrightarrow> rest = [])
    \<and> pc (th d) \<noteq> Panicked"
proof -
  have ok: "thread_ok (th d)"
    using any_tunnel_ok [OF assms] by (simp add: tunnel_ok_def)
  have "any.traffic_ok (openTunnel a b timeout now bufs) (s, th)"
    using any.traffic_ok_run [OF assms(1) any.tunnel_ok_init any.traffic_ok_init] assms by blast
  then have "any_taken (src d s) = any_taken (src d (fst (openTunnel a b timeout now bufs))) @ got (th d)"
    "any_wrote (dst d s) = any_wrote (dst d (fst (openTunnel a b timeout now bufs))) @ put (th d)"
    unfolding any.traffic_ok_def fst_conv snd_conv by blast+
  moreover have "src d (fst (openTunnel a b timeout now bufs)) = (case d of AtoB \<Rightarrow> a | BtoA \<Rightarrow> b)"
    "dst d (fst (openTunnel a b timeout now bufs)) = (case d of AtoB \<Rightarrow> b | BtoA \<Rightarrow> a)"
    by (cases d; simp add: openTunnel_def src_def dst_def)+
  ultimately have t: "any_taken (src d s) = any_taken (case d of AtoB \<Rightarrow> a | BtoA \<Rightarrow> b) @ got (th d)"
    "any_wrote (dst d s) = any_wrote (case d of AtoB \<Rightarrow> b | BtoA \<Rightarrow> a) @ put (th d)"
    by simp_all
  obtain rest where r: "got (th d) = put (th d) @ rest" "length rest \<le> defaultCopyIOBufferSize"
    using thread_ok_prefix [OF ok] by blast
  moreover have "rest = []" if "outcome (th d) = Some None"
    using thread_ok_ends [OF ok that] r by (auto simp: ends_def)
  moreover have "pc (th d) \<noteq> Panicked" using ok by (auto simp: thread_ok_def)
  ultimately show ?thesis using t by auto
qed


text \<open>
  C2: When \<open>openTunnel\<close> returns, both connections are closed, both goroutines have reported
  exactly once, and its result is what the first of the two reports said.
\<close>

theorem tunnel_returns_first_error:
  assumes "tunnel_run any_ops any_env (openTunnel a b timeout now bufs) ls (s, th)"
    and "any_valid a" "any_valid b" "set bufs \<subseteq> {defaultCopyIOBufferSize}"
    and "openTunnel_result (s, th) = Some r"
  shows "any_closed (connA s) \<and> any_closed (connB s) \<and> muTimeout s = 0
    \<and> (\<exists>d e. rlog s = [(d, r), (other d, e)] \<and> outcome (th d) = Some r \<and> outcome (th (other d)) = Some e)"
proof -
  note ok = any_tunnel_ok [OF assms(1-4)]
  have D: "pc (th d) = Done" and r: "r = getErr (fe s)" for d
    using assms(5) by (cases d; auto simp: openTunnel_result_def split: if_splits)+
  have "shutdown_ok any_closed AtoB s (th AtoB)" and th: "thread_ok (th d)" and L: "log_ok s th" for d
    using ok by (simp_all add: tunnel_ok_def)
  then have C: "any_closed (connA s) \<and> any_closed (connB s) \<and> muTimeout s = 0"
    using D by (simp add: shutdown_ok_def src_def dst_def)
  have "\<exists>e. outcome (th d) = Some e" for d
    using th [of d] D [of d] by (auto simp: thread_ok_def)
  then obtain o1 where o1: "\<And>d. outcome (th d) = Some (o1 d)" by metis
  from L have dist: "distinct (map fst (rlog s))"
    and mem: "\<And>d e. (d, e) \<in> set (rlog s) \<longleftrightarrow> e = o1 d"
    and hd: "getErr (fe s) = (case rlog s of [] \<Rightarrow> None | p # ps \<Rightarrow> snd p)"
    using o1 by (auto simp: log_ok_def)
  obtain d e ps where ps: "rlog s = (d, e) # ps"
    using mem [of AtoB] by (cases "rlog s") auto
  have "(other d, o1 (other d)) \<in> set ps" using mem [of "other d"] ps by (cases ps) auto
  moreover have "fst ` set ps \<subseteq> {other d}" using dist ps dir_other by force
  ultimately have "ps = [(other d, o1 (other d))]"
    using dist ps mem by (cases ps; cases "tl ps") force+
  moreover have "e = r" "o1 d = r" using hd ps r mem [of d e] by simp_all
  ultimately have "rlog s = [(d, r), (other d, o1 (other d))] \<and> outcome (th d) = Some r
      \<and> outcome (th (other d)) = Some (o1 (other d))"
    using ps o1 by simp
  with C show ?thesis by blast
qed


section \<open>A concrete tunnel\<close>

text \<open>
  Two sockets, one of which has received three bytes and the peer's FIN. The goroutine that reads
  from it runs to its end, then the other one.
\<close>

definition ex_a :: tcp_conn where
  "ex_a = \<lparr>inq = [1, 2, 3], in_end = Some EOF, room = 100, out_err = None, tcp_recvd = [],
     tcp_sent = [], tclosed = False, rdl = None, wdl = None\<rparr>"

definition ex_b :: tcp_conn where
  "ex_b = \<lparr>inq = [], in_end = None, room = 100, out_err = None, tcp_recvd = [],
     tcp_sent = [], tclosed = False, rdl = None, wdl = None\<rparr>"

definition ex_tunnel :: "any_conn tunnel" where
  "ex_tunnel = openTunnel (Inl ex_a) (Inl ex_b) 1000 10 []"

definition ex_first :: "(dir \<times> nat) list" where
  "ex_first =
     [(AtoB, 0), (AtoB, 0), (AtoB, 0), (AtoB, 0), (AtoB, 0), (AtoB, 0), (AtoB, 0), (AtoB, 0),
      (AtoB, 0), (AtoB, 0), (AtoB, 0), (AtoB, 0), (AtoB, 0), (AtoB, 0), (AtoB, 0), (AtoB, 0),
      (AtoB, 0)]"

definition ex_second :: "(dir \<times> nat) list" where
  "ex_second =
     [(BtoA, 0), (BtoA, 0), (BtoA, 0), (BtoA, 0), (BtoA, 0), (BtoA, 0), (BtoA, 0), (BtoA, 0),
      (BtoA, 0), (BtoA, 0), (BtoA, 0)]"

definition ex_half :: "any_conn tunnel" where
  "ex_half = the (exec any_ops ex_first ex_tunnel)"

definition ex_end :: "any_conn tunnel" where
  "ex_end = the (exec any_ops ex_second ex_half)"

lemma any_eval:
  "c_read any_ops now n (Inl c) = map_result Inl (tcp_read now n c)"
  "c_write any_ops now bs (Inl c) = map_result Inl (tcp_write now bs c)"
  "c_close any_ops (Inl c) = map_result Inl (tcp_close c)"
  "c_set_deadline any_ops t (Inl c) = Inl (c\<lparr>rdl := Some t, wdl := Some t\<rparr>)"
  "c_set_read_deadline any_ops t (Inl c) = Inl (c\<lparr>rdl := Some t\<rparr>)"
  "c_set_write_deadline any_ops t (Inl c) = Inl (c\<lparr>wdl := Some t\<rparr>)"
  by (simp_all add: any_ops_def sum_ops_def tcp_ops_def)

lemmas tunnel_eval = openTunnel_def thread_new_def Let_def ow_step_def acquireIOBuf_def src_def
  dst_def set_src_def set_dst_def read_step_def write_step_def any_eval map_result_def tcp_read_def
  tcp_write_def tcp_close_def tcp_accept_def expired_def after_read_def after_write_def
  defaultCopyIOBufferSize_def firstErr_new_def report_def getErr_def longTimeAgo_def
  releaseIOBuf_def useOfClosed_def openTunnel_result_def any_wrote_def
  ex_tunnel_def ex_a_def ex_b_def ex_first_def ex_second_def

lemma ex_first_runs:
  "\<exists>s th. exec any_ops ex_first ex_tunnel = Some (s, th) \<and> ex_half = (s, th)
     \<and> pc (th AtoB) = Done \<and> pc (th BtoA) = Acquire \<and> any_wrote (connB s) = [1, 2, 3]
     \<and> outcome (th AtoB) = Some None"
  by (simp add: ex_half_def tunnel_eval)

lemma ex_second_runs:
  "\<exists>s th. exec any_ops ex_second ex_half = Some (s, th) \<and> ex_end = (s, th)
     \<and> openTunnel_result (s, th) = Some None"
  by (simp add: ex_end_def ex_half_def tunnel_eval)

lemma ex_runs:
  "tunnel_run any_ops any_env ex_tunnel (map (\<lambda>c. Some (fst c)) ex_first) ex_half"
  "tunnel_run any_ops any_env ex_half (map (\<lambda>c. Some (fst c)) ex_second) ex_end"
  using exec_run [of any_ops ex_first ex_tunnel] exec_run [of any_ops ex_second ex_half]
    ex_first_runs ex_second_runs by force+


theorem tunnel_returns_first_error_witness:
  "any_closed (connA (fst ex_end)) \<and> any_closed (connB (fst ex_end))
     \<and> snd (hd (rlog (fst ex_end))) = None"
proof -
  obtain s th where h: "ex_end = (s, th)" "openTunnel_result (s, th) = Some None"
    using ex_second_runs by blast
  have "tunnel_run any_ops any_env (openTunnel (Inl ex_a) (Inl ex_b) 1000 10 [])
      (map (\<lambda>c. Some (fst c)) ex_first @ map (\<lambda>c. Some (fst c)) ex_second) (s, th)"
    using run_append [OF ex_runs] h by (simp add: ex_tunnel_def)
  from tunnel_returns_first_error [OF this _ _ _ h(2)] show ?thesis unfolding h(1)
    by (auto simp: any_valid_def)
qed


end
