(* ===== verification/IdleTimeout.thy ===== *)
theory IdleTimeout
  imports Conns
begin

text \<open>
  Deadlines and the end of a tunnel: no call of a tunnel waits longer than the timeout, and once
  the peers send nothing more a tunnel makes a bounded number of steps.
\<close>

section \<open>Connections with deadlines\<close>

text \<open>
  \<open>rdead\<close> and \<open>wdead\<close> are a connection's deadlines, \<open>unread\<close> counts the bytes that have arrived and were not
  read. \<open>parks\<close> is what a call that would block does to a connection while it waits. A read returns bytes
  or an error; a call whose deadline has passed returns, if not at once then when it has begun to wait.
\<close>

locale timed_conn = net_conn ops closed valid env
  for ops :: "'c conn_ops" and closed valid env +
  fixes rdead :: "'c \<Rightarrow> int option"
    and wdead :: "'c \<Rightarrow> int option"
    and unread :: "'c \<Rightarrow> nat"
    and parks :: "'c \<Rightarrow> 'c \<Rightarrow> bool"
  assumes read_some: "((bs, er), c') \<in> set (c_read ops now n c) \<Longrightarrow> valid c \<Longrightarrow> 0 < n \<Longrightarrow> bs = [] \<Longrightarrow> er \<noteq> None"
    and read_takes: "((bs, er), c') \<in> set (c_read ops now n c) \<Longrightarrow> valid c \<Longrightarrow> unread c' + length bs \<le> unread c"
    and write_takes: "((nw, ew), c') \<in> set (c_write ops now bs c) \<Longrightarrow> valid c \<Longrightarrow> unread c' \<le> unread c"
    and close_takes: "(er, c') \<in> set (c_close ops c) \<Longrightarrow> valid c \<Longrightarrow> unread c' \<le> unread c"
    and deadline_takes: "valid c \<Longrightarrow> unread (c_set_deadline ops dl c) \<le> unread c"
      "valid c \<Longrightarrow> unread (c_set_read_deadline ops dl c) \<le> unread c"
      "valid c \<Longrightarrow> unread (c_set_write_deadline ops dl c) \<le> unread c"
    and rdead_set: "valid c \<Longrightarrow> rdead (c_set_read_deadline ops dl c) = Some dl"
      "valid c \<Longrightarrow> rdead (c_set_deadline ops dl c) = Some dl"
    and wdead_set: "valid c \<Longrightarrow> wdead (c_set_write_deadline ops dl c) = Some dl"
      "valid c \<Longrightarrow> wdead (c_set_deadline ops dl c) \<in> {Some dl, wdead c}"
    and rdead_kept: "((bs, er), c') \<in> set (c_read ops now n c) \<Longrightarrow> valid c \<Longrightarrow> rdead c' = rdead c"
      "((nw, ew), c') \<in> set (c_write ops now bs c) \<Longrightarrow> valid c \<Longrightarrow> rdead c' = rdead c"
      "valid c \<Longrightarrow> rdead (c_set_write_deadline ops dl c) = rdead c"
      "env c c' \<Longrightarrow> valid c \<Longrightarrow> rdead c' = rdead c"
    and wdead_kept: "((bs, er), c') \<in> set (c_read ops now n c) \<Longrightarrow> valid c \<Longrightarrow> wdead c' = wdead c"
      "((nw, ew), c') \<in> set (c_write ops now bs c) \<Longrightarrow> valid c \<Longrightarrow> wdead c' = wdead c"
      "valid c \<Longrightarrow> wdead (c_set_read_deadline ops dl c) = wdead c"
      "env c c' \<Longrightarrow> valid c \<Longrightarrow> wdead c' = wdead c"
    and parks_env: "parks c c' \<Longrightarrow> valid c \<Longrightarrow> env c c'"
    and late_read: "valid c \<Longrightarrow> rdead c = Some t \<Longrightarrow> t \<le> now \<Longrightarrow>
      c_read ops now n c \<noteq> [] \<or> (\<exists>c'. parks c c' \<and> c_read ops now n c' \<noteq> [])"
    and late_write: "valid c \<Longrightarrow> wdead c = Some t \<Longrightarrow> t \<le> now \<Longrightarrow> c_write ops now bs c \<noteq> []"
begin

text \<open>A call on the connection returns at the time \<open>lim\<close> or before.\<close>

definition rdue :: "'c \<Rightarrow> int \<Rightarrow> bool" where
  "rdue c lim \<longleftrightarrow> closed c \<or> (\<exists>x. rdead c = Some x \<and> x \<le> lim)"

definition wdue :: "'c \<Rightarrow> int \<Rightarrow> bool" where
  "wdue c lim \<longleftrightarrow> closed c \<or> (\<exists>x. wdead c = Some x \<and> x \<le> lim)"

lemma rdue_stays:
  "((nw, ew), c') \<in> set (c_write ops now bs c) \<Longrightarrow> valid c \<Longrightarrow> rdue c lim \<Longrightarrow> rdue c' lim"
  "(er, c') \<in> set (c_close ops c) \<Longrightarrow> valid c \<Longrightarrow> rdue c' lim"
  "env c c' \<Longrightarrow> valid c \<Longrightarrow> rdue c lim \<Longrightarrow> rdue c' lim"
  "valid c \<Longrightarrow> rdue c lim \<Longrightarrow> rdue (c_set_write_deadline ops dl c) lim"
  "valid c \<Longrightarrow> dl \<le> lim \<Longrightarrow> rdue (c_set_deadline ops dl c) lim"
  "valid c \<Longrightarrow> dl \<le> lim \<Longrightarrow> rdue (c_set_read_deadline ops dl c) lim"
  using rdead_kept rdead_set closed_stays by (auto simp: rdue_def)

lemma wdue_stays:
  "((bs, er'), c') \<in> set (c_read ops now n c) \<Longrightarrow> valid c \<Longrightarrow> wdue c lim \<Longrightarrow> wdue c' lim"
  "(er, c') \<in> set (c_close ops c) \<Longrightarrow> valid c \<Longrightarrow> wdue c' lim"
  "env c c' \<Longrightarrow> valid c \<Longrightarrow> wdue c lim \<Longrightarrow> wdue c' lim"
  "valid c \<Longrightarrow> wdue c lim \<Longrightarrow> wdue (c_set_read_deadline ops dl c) lim"
  "valid c \<Longrightarrow> dl \<le> lim \<Longrightarrow> wdue c lim \<Longrightarrow> wdue (c_set_deadline ops dl c) lim"
  "valid c \<Longrightarrow> dl \<le> lim \<Longrightarrow> wdue (c_set_write_deadline ops dl c) lim"
  using wdead_kept wdead_set(1) closed_stays wdead_set(2) [of c dl] by (auto simp: wdue_def)

lemma due_later: "rdue c lim \<Longrightarrow> lim \<le> lim' \<Longrightarrow> rdue c lim'" "wdue c lim \<Longrightarrow> lim \<le> lim' \<Longrightarrow> wdue c lim'"
  by (auto simp: rdue_def wdue_def)

text \<open>Whatever a goroutine is about to wait for is over one timeout from now.\<close>

definition timely1 :: "int \<Rightarrow> dir \<Rightarrow> 'c shared \<Rightarrow> thread \<Rightarrow> bool" where
  "timely1 timeout d s t \<longleftrightarrow>
     (case pc t of
        SetReadDL dl \<Rightarrow> dl \<le> clock s + timeout
      | ReadSrc \<Rightarrow> rdue (src d s) (clock s + timeout)
      | SetWriteDL dl bs er \<Rightarrow> dl \<le> clock s + timeout
      | WriteDst bs er \<Rightarrow> wdue (dst d s) (clock s + timeout)
      | _ \<Rightarrow> True)"

definition times_ok :: "int \<Rightarrow> 'c shared \<Rightarrow> bool" where
  "times_ok timeout s \<longleftrightarrow> 0 \<le> timeout \<and> 1 \<le> clock s \<and> muTimeout s \<le> timeout"

definition timely :: "int \<Rightarrow> 'c tunnel \<Rightarrow> bool" where
  "timely timeout T \<longleftrightarrow> times_ok timeout (fst T) \<and> (\<forall>d. timely1 timeout d (fst T) (snd T d))"

lemma timely_own:
  assumes "(s', t') \<in> set (ow_step ops d s t)" "times_ok timeout s" "timely1 timeout d s t"
    and "valid (src d s)" "valid (dst d s)"
  shows "times_ok timeout s' \<and> timely1 timeout d s' t'"
proof (cases "pc t")
  case Acquire
  with assms(1) obtain b where "(b, s') \<in> set (acquireIOBuf s)" "pc t' = Panicked \<or> pc t' = ReadDL"
    by (auto simp: ow_step_def)
  with acquire_frame assms(2) show ?thesis by (fastforce simp: times_ok_def timely1_def)
qed (use assms in \<open>auto simp: ow_step_def read_step_def write_step_def releaseIOBuf_def times_ok_def timely1_def
  after_read_def after_write_def rdue_stays wdue_stays split: option.splits\<close>)

lemma set_other [simp]: "set_src (other d) = set_dst d" "set_dst (other d) = set_src d"
  by (cases d; auto simp: set_src_def set_dst_def fun_eq_iff)+

lemma other_step_due:
  assumes "(s', t') \<in> set (ow_step ops (other d) s t)" "1 \<le> lim" "valid (src d s)" "valid (dst d s)"
  shows "(rdue (src d s) lim \<longrightarrow> rdue (src d s') lim) \<and> (wdue (dst d s) lim \<longrightarrow> wdue (dst d s') lim)
    \<and> clock s' = clock s"
proof (cases "pc t")
  case Acquire
  with assms(1) obtain b where "(b, s') \<in> set (acquireIOBuf s)" by (auto simp: ow_step_def)
  with acquire_frame show ?thesis by fastforce
qed (use assms in \<open>auto simp: ow_step_def read_step_def write_step_def releaseIOBuf_def longTimeAgo_def
  rdue_stays wdue_stays\<close>)

lemma timely1_later:
  assumes "timely1 timeout d s t" "clock s \<le> clock s'"
    and "\<And>lim. clock s + timeout \<le> lim \<Longrightarrow> rdue (src d s) lim \<Longrightarrow> rdue (src d s') lim"
    and "\<And>lim. clock s + timeout \<le> lim \<Longrightarrow> wdue (dst d s) lim \<Longrightarrow> wdue (dst d s') lim"
  shows "timely1 timeout d s' t"
proof -
  have "clock s + timeout \<le> clock s' + timeout" using assms(2) by simp
  with assms(1,3,4) due_later show ?thesis by (cases "pc t") (auto simp: timely1_def)
qed

lemma timely_other:
  assumes "(s', t') \<in> set (ow_step ops (other d) s to)" "times_ok timeout s" "timely1 timeout d s t"
    and "valid (src d s)" "valid (dst d s)"
  shows "timely1 timeout d s' t"
proof -
  have "1 \<le> lim" if "clock s + timeout \<le> lim" for lim using assms(2) that by (simp add: times_ok_def)
  with other_step_due [OF assms(1) _ assms(4,5)] show ?thesis
    using assms(2) by (intro timely1_later [OF assms(3)]) (auto simp: times_ok_def)
qed

lemma timely_environment:
  assumes "tunnel_step ops env None (s, th) (s', th')" "timely timeout (s, th)" "valid (connA s)" "valid (connB s)"
  shows "timely timeout (s', th')"
proof -
  have t: "timely1 timeout d s (th d)" "times_ok timeout s" for d using assms(2) by (simp_all add: timely_def)
  have "timely1 timeout d s' (th d) \<and> times_ok timeout s' \<and> th' = th" for d
    using assms(1)
  proof cases
    case (peerA c')
    with assms(3) t(2) show ?thesis
      by (cases d) (auto simp: times_ok_def src_def dst_def rdue_stays wdue_stays intro: timely1_later [OF t(1)])
  next
    case (peerB c')
    with assms(4) t(2) show ?thesis
      by (cases d) (auto simp: times_ok_def src_def dst_def rdue_stays wdue_stays intro: timely1_later [OF t(1)])
  next
    case (tick now)
    with t(2) show ?thesis by (auto simp: times_ok_def intro: timely1_later [OF t(1)])
  next
    case (pool bufs)
    with t(2) show ?thesis by (auto simp: times_ok_def intro: timely1_later [OF t(1)])
  qed
  then show ?thesis by (simp add: timely_def)
qed

lemma timely_step:
  assumes "tunnel_step ops env l T T'" "timely timeout T" "tunnel_ok closed valid T"
  shows "timely timeout T'"
proof (cases l)
  case None
  obtain s th s' th' where "T = (s, th)" "T' = (s', th')" by (cases T, cases T')
  with None timely_environment assms show ?thesis by (auto simp: tunnel_ok_def)
next
  case (Some d)
  with assms(1) obtain s th s' t' where st: "(s', t') \<in> set (ow_step ops d s (th d))"
    and T: "T = (s, th)" "T' = (s', th(d := t'))" by (auto elim: goroutineE)
  from assms(2) T have ok: "times_ok timeout s" "timely1 timeout d' s (th d')" for d'
    by (simp_all add: timely_def)
  have v: "valid (src d' s)" "valid (dst d' s)" for d'
    using assms(3) T by (cases d'; simp add: tunnel_ok_def src_def dst_def)+
  have "timely1 timeout d' s' ((th(d := t')) d')" for d'
  proof (cases "d' = d")
    case True
    with timely_own [OF st ok(1) ok(2) v] show ?thesis by (simp only: fun_upd_same)
  next
    case False
    then have "d = other d'" using dir_other [of d d'] by auto
    from st [unfolded this] have "(s', t') \<in> set (ow_step ops (other d') s (th (other d')))" .
    from timely_other [OF this ok(1,2) v] False show ?thesis by simp
  qed
  moreover have "times_ok timeout s'" using timely_own [OF st ok(1) ok(2) v] by (rule conjunct1)
  ultimately show ?thesis by (simp add: timely_def T)
qed

lemma timely_run:
  "tunnel_run ops env T ls T' \<Longrightarrow> tunnel_ok closed valid T \<Longrightarrow> timely timeout T \<Longrightarrow> timely timeout T'"
  by (induction rule: tunnel_run.induct) (auto intro: timely_step tunnel_ok_run)

lemma timely_init: "0 \<le> timeout \<Longrightarrow> 1 \<le> now \<Longrightarrow> timely timeout (openTunnel a b timeout now bufs)"
  by (simp add: timely_def times_ok_def timely1_def openTunnel_def thread_new_def)

text \<open>
  One timeout later a step of the goroutine is possible, if it has not finished: the call it is in
  returns, or begins to wait and then returns.
\<close>

lemma late_step:
  assumes "thread_ok t" "pc t \<noteq> Done" "timely1 timeout d s t" "clock s + timeout \<le> now"
    and "valid (src d s)" "valid (dst d s)"
  shows "ow_step ops d (s\<lparr>clock := now\<rparr>) t \<noteq> []
    \<or> (\<exists>c'. parks (src d s) c' \<and> ow_step ops d (set_src d c' (s\<lparr>clock := now\<rparr>)) t \<noteq> [])"
proof (cases "pc t")
  case Acquire
  then show ?thesis by (simp add: ow_step_def acquireIOBuf_def)
next
  case ReadSrc
  with assms(1) have n: "0 < buflen t" by (simp add: thread_ok_def)
  have "closed (src d s) \<or> (\<exists>x. rdead (src d s) = Some x \<and> x \<le> now)"
    using assms(3,4) ReadSrc by (auto simp: timely1_def rdue_def)
  then have "c_read ops now (buflen t) (src d s) \<noteq> []
      \<or> (\<exists>c'. parks (src d s) c' \<and> c_read ops now (buflen t) c' \<noteq> [])"
    using closed_read [OF assms(5) _ n] late_read [OF assms(5)] by blast
  with ReadSrc show ?thesis by (simp add: ow_step_def read_step_def)
next
  case (WriteDst bs er)
  with assms(1) have n: "bs \<noteq> []" by (simp add: thread_ok_def in_flight_def)
  have "closed (dst d s) \<or> (\<exists>x. wdead (dst d s) = Some x \<and> x \<le> now)"
    using assms(3,4) WriteDst by (auto simp: timely1_def wdue_def)
  then have "c_write ops now bs (dst d s) \<noteq> []"
    using closed_write [OF assms(6) _ n] late_write [OF assms(6)] by blast
  with WriteDst show ?thesis by (simp add: ow_step_def write_step_def)
next
  case Panicked
  with assms(1) show ?thesis by (simp add: thread_ok_def)
qed (use assms close_returns in \<open>auto simp: ow_step_def\<close>)

end

section \<open>A bound on the steps of a goroutine\<close>

text \<open>
  How far a goroutine is from its end when it reads nothing more: a round of the copy loop takes six steps
  and at least one byte.
\<close>

fun ahead :: "pc \<Rightarrow> nat" where
  "ahead (WriteDL bs er) = 16"
| "ahead (SetWriteDL dl bs er) = 15"
| "ahead (WriteDst bs er) = 14"
| "ahead p = rank p"

lemma ahead_le: "ahead p \<le> 16"
  by (cases p) auto

lemma ahead_after [simp]: "ahead (after_read er) \<le> 13" "ahead (after_write bs er nw ew) \<le> 13"
  "ahead (after_read (Some e)) = 7"
  by (auto simp: after_read_def after_write_def split: option.split)

lemma tunnel_step_mono: "tunnel_step ops q l T T' \<Longrightarrow> (\<And>c c'. q c c' \<Longrightarrow> env c c') \<Longrightarrow> tunnel_step ops env l T T'"
  by (induction rule: tunnel_step.induct) (auto intro: tunnel_step.intros)

lemma tunnel_run_mono: "tunnel_run ops q T ls T' \<Longrightarrow> (\<And>c c'. q c c' \<Longrightarrow> env c c') \<Longrightarrow> tunnel_run ops env T ls T'"
  by (induction rule: tunnel_run.induct) (auto intro: tunnel_run.intros tunnel_step_mono)

context timed_conn begin

definition left :: "dir \<Rightarrow> 'c tunnel \<Rightarrow> nat" where
  "left d T = 6 * unread (src d (fst T)) + ahead (pc (snd T d))"

lemma left_own:
  assumes "(s', t') \<in> set (ow_step ops d s t)" "thread_ok t" "valid (src d s)" "valid (dst d s)"
  shows "6 * unread (src d s') + ahead (pc t') < 6 * unread (src d s) + ahead (pc t)"
proof (cases "pc t")
  case Acquire
  with assms(1) obtain b where "(b, s') \<in> set (acquireIOBuf s)" "pc t' = Panicked \<or> pc t' = ReadDL"
    by (auto simp: ow_step_def)
  with acquire_frame Acquire show ?thesis by fastforce
next
  case ReadSrc
  with assms(1) obtain bs er c' where r: "((bs, er), c') \<in> set (c_read ops (clock s) (buflen t) (src d s))"
    and s': "s' = set_src d c' s" "pc t' = (if bs \<noteq> [] then WriteDL bs er else after_read er)"
    by (auto simp: ow_step_def read_step_def)
  have n: "0 < buflen t" using assms(2) ReadSrc by (simp add: thread_ok_def)
  from read_takes [OF r assms(3)] have u: "unread c' + length bs \<le> unread (src d s)" .
  show ?thesis
  proof (cases "bs = []")
    case True
    with read_some [OF r assms(3) n] obtain e where "er = Some e" by auto
    with True s' u ReadSrc show ?thesis by simp
  next
    case False
    then have "unread c' + 1 \<le> unread (src d s)" using u by (cases bs) auto
    with False s' ReadSrc show ?thesis by simp
  qed
next
  case (SetReadDL dl)
  with assms(1) deadline_takes(2) [OF assms(3), of dl] show ?thesis by (auto simp: ow_step_def)
next
  case SrcDeadline
  with assms(1) deadline_takes(1) [OF assms(3), of longTimeAgo] show ?thesis by (auto simp: ow_step_def)
next
  case CloseSrc
  with assms(1) close_takes [OF _ assms(3)] show ?thesis by (fastforce simp: ow_step_def)
next
  case (WriteDst bs er)
  have "ahead (after_write bs er nw ew) < 14" for nw ew using ahead_after(2) [of bs er nw ew] by linarith
  with WriteDst assms(1) show ?thesis by (auto simp: ow_step_def write_step_def)
qed (use assms in \<open>auto simp: ow_step_def releaseIOBuf_def\<close>)

lemma left_other:
  assumes "(s', t') \<in> set (ow_step ops (other d) s t)" "valid (src d s)" "valid (dst d s)"
  shows "unread (src d s') \<le> unread (src d s)"
proof (cases "pc t")
  case Acquire
  with assms(1) obtain b where "(b, s') \<in> set (acquireIOBuf s)" by (auto simp: ow_step_def)
  with acquire_frame show ?thesis by fastforce
qed (use assms in \<open>auto simp: ow_step_def read_step_def write_step_def releaseIOBuf_def
  intro: write_takes close_takes deadline_takes\<close>)

text \<open>The environment is quiet: it adds nothing to what is unread.\<close>

lemma left_step:
  assumes "tunnel_step ops q l T T'" "\<And>c c'. q c c' \<Longrightarrow> unread c' \<le> unread c" "tunnel_ok closed valid T"
  shows "(if l = Some d then 1 else 0) + left d T' \<le> left d T"
  using assms(1)
proof cases
  case (goroutine s' t' e s th)
  have v: "valid (src d s)" "valid (dst d s)"
    using assms(3) goroutine by (cases d; simp add: tunnel_ok_def src_def dst_def)+
  show ?thesis
  proof (cases "e = d")
    case True
    then have "(s', t') \<in> set (ow_step ops d s (th d))" using goroutine(4) by simp
    from left_own [OF this _ v] assms(3) goroutine True show ?thesis by (simp add: left_def tunnel_ok_def)
  next
    case False
    then have "e = other d" using dir_other [of e d] by auto
    from goroutine(4) [unfolded this] left_other [OF _ v] have "unread (src d s') \<le> unread (src d s)" by blast
    with False goroutine(1-3) show ?thesis by (simp add: left_def)
  qed
qed (use assms(2) in \<open>auto simp: left_def src_def split: dir.split\<close>)

lemma left_run:
  assumes "tunnel_run ops q T ls T'" "\<And>c c'. q c c' \<Longrightarrow> env c c'" "\<And>c c'. q c c' \<Longrightarrow> unread c' \<le> unread c"
    and "tunnel_ok closed valid T"
  shows "count_list ls (Some d) + left d T' \<le> left d T"
  using assms(1,4)
proof (induction rule: tunnel_run.induct)
  case (run_snoc T ls T' l T'')
  have "tunnel_run ops env T ls T'" by (rule tunnel_run_mono [OF run_snoc(1)]) (rule assms(2))
  from tunnel_ok_run [OF this run_snoc(4)] have "tunnel_ok closed valid T'" .
  from left_step [OF run_snoc(2) assms(3) this, of d] run_snoc(3,4) show ?case by auto
qed simp

lemma left_bounded:
  assumes "tunnel_run ops q T ls T'" "\<And>c c'. q c c' \<Longrightarrow> env c c'" "\<And>c c'. q c c' \<Longrightarrow> unread c' \<le> unread c"
    and "tunnel_ok closed valid T"
  shows "count_list ls (Some d) \<le> 6 * unread (src d (fst T)) + 16"
  using left_run [OF assms, of d] ahead_le [of "pc (snd T d)"] by (simp add: left_def)

text \<open>The goroutine that is not finished moves once the timeout has passed.\<close>

lemma moves_in_time:
  assumes "tunnel_ok closed valid (s, th)" "timely timeout (s, th)" "clock s + timeout \<le> now" "pc (th d) \<noteq> Done"
  shows "\<exists>T T'. (T = (s\<lparr>clock := now\<rparr>, th) \<or> tunnel_step ops env None (s\<lparr>clock := now\<rparr>, th) T)
    \<and> tunnel_step ops env (Some d) T T'"
proof -
  have v: "valid (src d s)" "valid (dst d s)"
    using assms(1) by (cases d; simp add: tunnel_ok_def src_def dst_def)+
  have t: "thread_ok (th d)" "timely1 timeout d s (th d)"
    using assms(1,2) by (simp_all add: tunnel_ok_def timely_def)
  have go: "\<exists>T'. tunnel_step ops env (Some d) (s', th) T'" if "ow_step ops d s' (th d) \<noteq> []" for s'
    using that by (metis list.set_intros(1) neq_Nil_conv surj_pair tunnel_step.goroutine)
  from late_step [OF t(1) assms(4) t(2) assms(3) v] show ?thesis
  proof
    assume "ow_step ops d (s\<lparr>clock := now\<rparr>) (th d) \<noteq> []"
    with go show ?thesis by blast
  next
    assume "\<exists>c'. parks (src d s) c' \<and> ow_step ops d (set_src d c' (s\<lparr>clock := now\<rparr>)) (th d) \<noteq> []"
    then obtain c' where c': "parks (src d s) c'" "ow_step ops d (set_src d c' (s\<lparr>clock := now\<rparr>)) (th d) \<noteq> []" by blast
    have "env (src d (s\<lparr>clock := now\<rparr>)) c'" using parks_env [OF c'(1) v(1)] by simp
    then have "tunnel_step ops env None (s\<lparr>clock := now\<rparr>, th) (set_src d c' (s\<lparr>clock := now\<rparr>), th)"
      by (cases d) (simp_all add: src_def set_src_def tunnel_step.peerA tunnel_step.peerB)
    with go [OF c'(2)] show ?thesis by blast
  qed
qed

end

section \<open>The connections of the program\<close>

lemma tcp_read_some: "((bs, er), c') \<in> set (tcp_read now n c) \<Longrightarrow> 0 < n \<Longrightarrow> bs = [] \<Longrightarrow> er \<noteq> None"
  by (cases "in_end c") (auto simp: tcp_read_def split: if_splits)

interpretation tcp_timed: timed_conn tcp_ops tclosed "\<lambda>_. True" tcp_env rdl wdl "\<lambda>c. length (inq c)" "\<lambda>_ _. False"
proof unfold_locales
  show "er \<noteq> None" if "((bs, er), c') \<in> set (c_read tcp_ops now n c)" "0 < n" "bs = []" for bs er c' now n c
    using that tcp_read_some by (simp add: tcp_ops_def)
qed (auto simp: tcp_op_defs expired_def elim!: tcp_envE split: if_splits option.splits)

text \<open>A read of a stream that finds nothing waits in \<^verbatim>\<open>waitRead\<close>.\<close>

definition mux_rdead :: "mux_conn \<Rightarrow> int option" where
  "mux_rdead c = readDeadline (objs (fst c) ! snd c)"

definition mux_wdead :: "mux_conn \<Rightarrow> int option" where
  "mux_wdead c = writeDeadline (objs (fst c) ! snd c)"

definition mux_unread :: "mux_conn \<Rightarrow> nat" where
  "mux_unread c = buffered (objs (fst c) ! snd c)"

inductive mux_parks :: "mux_conn \<Rightarrow> mux_conn \<Rightarrow> bool" where
  parks: "read_parks k s \<Longrightarrow> mux_parks (s, k) (park k s, k)"

inductive_cases mux_parksE: "mux_parks c c'"

lemmas mux_time_defs = mux_rdead_def mux_wdead_def mux_unread_def

text \<open>What matters of a stream for its deadlines.\<close>

definition same_times :: "smux_stream \<Rightarrow> smux_stream \<Rightarrow> bool" where
  "same_times a b \<longleftrightarrow> readDeadline b = readDeadline a \<and> writeDeadline b = writeDeadline a"

lemma try_read_times:
  assumes "((bs, er), s') \<in> set (try_read n k s)" "k < length (objs s)"
  shows "same_times (objs s ! k) (objs s' ! k) \<and> buffered (objs s' ! k) + length bs \<le> buffered (objs s ! k)"
  using assms
  by (auto simp: try_read_def read_block_def take_block_def unpark_def returnTokens_def same_times_def buffered_def
      Let_def split: if_splits list.splits)

lemma stream_read_times:
  assumes "((bs, er), s') \<in> set (stream_read now n k s)" "k < length (objs s)"
  shows "same_times (objs s ! k) (objs s' ! k) \<and> buffered (objs s' ! k) + length bs \<le> buffered (objs s ! k)"
proof -
  let ?t = "upd_obj k (\<lambda>st. st\<lparr>readEvent := False\<rparr>) s"
  have "same_times (objs s ! k) (objs (unpark k s) ! k)" "buffered (objs (unpark k s) ! k) = buffered (objs s ! k)"
    "same_times (objs s ! k) (objs ?t ! k)" "buffered (objs ?t ! k) = buffered (objs s ! k)"
    using assms(2) by (simp_all add: unpark_def same_times_def buffered_def)
  with assms try_read_times [of bs er s' n k s] try_read_times [of bs er s' n k ?t]
  show ?thesis by (auto simp: stream_read_def same_times_def split: if_splits)
qed

lemma write_chunks_times:
  assumes "(r, s') \<in> set (write_chunks late k sent bs s)" "k < length (objs s)"
  shows "same_times (objs s ! k) (objs s' ! k) \<and> buffered (objs s' ! k) = buffered (objs s ! k)"
  using assms
proof (induction bs arbitrary: sent s)
  case (Cons b bs)
  from Cons.prems(1) obtain n x s1 where
    w: "((n, x), s1) \<in> set (writeFrameInternal
          ((newFrame (ver_byte s) cmdPSH (stid (objs s ! k)))\<lparr>data := b\<rparr>) late s)"
    and r: "(r, s') \<in> set (let s2 = upd_obj k (\<lambda>st. st\<lparr>numWritten := numWritten st + 1,
          write_log := write_log st @ take n b\<rparr>) s1 in
        (case x of Some y \<Rightarrow> [((sent + n, Some y), s2)]
         | None \<Rightarrow> write_chunks late k (sent + n) bs s2))"
    by auto
  define s2 where "s2 = upd_obj k (\<lambda>st. st\<lparr>numWritten := numWritten st + 1,
          write_log := write_log st @ take n b\<rparr>) s1"
  have "objs s1 = objs s" using writeFrameInternal_core [OF w] by (simp add: same_core_def)
  with Cons.prems(2) have k: "k < length (objs s2)"
    and t: "same_times (objs s ! k) (objs s2 ! k)" "buffered (objs s2 ! k) = buffered (objs s ! k)"
    by (simp_all add: s2_def same_times_def buffered_def)
  show ?case
  proof (cases x)
    case None
    with r s2_def have "(r, s') \<in> set (write_chunks late k (sent + n) bs s2)" by simp
    from Cons.IH [OF this k] t show ?thesis by (simp add: same_times_def)
  qed (use r s2_def t in simp)
qed (simp add: same_times_def)

lemma stream_write_times:
  assumes "(r, s') \<in> set (stream_write now b k s)" "k < length (objs s)"
  shows "same_times (objs s ! k) (objs s' ! k) \<and> buffered (objs s' ! k) = buffered (objs s ! k)"
  using assms by (auto simp: stream_write_def same_times_def dest: write_chunks_times split: if_splits)

lemma stream_write_nonempty: "stream_write now b k s \<noteq> []"
proof -
  have "write_chunks late k sent bs s \<noteq> []" for late sent bs and s :: session
  proof (induction bs arbitrary: sent s)
    case (Cons b bs)
    let ?f = "(newFrame (ver_byte s) cmdPSH (stid (objs s ! k)))\<lparr>data := b\<rparr>"
    obtain n e s1 where "((n, e), s1) \<in> set (writeFrameInternal ?f late s)"
      using writeFrame_now_nonempty [of ?f s] by (cases "writeFrame_now ?f s") (auto simp: writeFrameInternal_def)
    define g where "g = (\<lambda>((n, e), s1).
        let s2 = upd_obj k (\<lambda>st. st\<lparr>numWritten := numWritten st + 1, write_log := write_log st @ take n b\<rparr>) s1
        in case e of Some y \<Rightarrow> [((sent + n, Some y), s2)] | None \<Rightarrow> write_chunks late k (sent + n) bs s2)"
    have "g x \<noteq> []" for x using Cons.IH by (simp add: g_def Let_def split: prod.split option.split)
    moreover have "write_chunks late k sent (b # bs) s = concat (map g (writeFrameInternal ?f late s))"
      unfolding g_def by simp
    ultimately show ?case using \<open>((n, e), s1) \<in> set (writeFrameInternal ?f late s)\<close> by auto
  qed simp
  then show ?thesis by (simp add: stream_write_def)
qed

lemma park_times:
  "k < length (objs s) \<Longrightarrow> same_times (objs s ! k) (objs (park k s) ! k)"
  "k < length (objs s) \<Longrightarrow> read_log (objs (park k s) ! k) = read_log (objs s ! k)"
  "k < length (objs s) \<Longrightarrow> write_log (objs (park k s) ! k) = write_log (objs s ! k)"
  by (simp_all add: park_def same_times_def)

lemma stream_late_read:
  assumes "k < length (objs s)" "readDeadline (objs s ! k) = Some t" "t \<le> now"
  shows "stream_read now n k s \<noteq> [] \<or> (read_parks k s \<and> stream_read now n k (park k s) \<noteq> [])"
  using assms
  by (auto simp: stream_read_def try_read_def wait_errors_def expired_def read_parks_def park_def Let_def)

lemma mux_env_times:
  "mux_env c c' \<Longrightarrow> mux_rdead c' = mux_rdead c \<and> mux_wdead c' = mux_wdead c"
  by (induction rule: mux_env.induct) (simp add: mux_time_defs)

lemma mux_parks_env: "mux_parks c c' \<Longrightarrow> mux_valid c \<Longrightarrow> mux_env c c'"
  by (induction rule: mux_parks.induct)
    (use park_times in \<open>auto simp: mux_defs same_times_def intro!: mux_env.others session_step.read_waits\<close>)

lemma mux_late_read:
  assumes "mux_valid c" "mux_rdead c = Some t" "t \<le> now"
  shows "c_read smux_ops now n c \<noteq> [] \<or> (\<exists>c'. mux_parks c c' \<and> c_read smux_ops now n c' \<noteq> [])"
  using stream_late_read [of "snd c" "fst c" t now n] assms
  by (cases c) (auto simp: smux_ops_def mux_defs mux_time_defs intro: mux_parks.parks)

lemma mux_calls_times:
  assumes "mux_valid c"
  shows "((bs, er), c') \<in> set (c_read smux_ops now n c) \<Longrightarrow>
      mux_rdead c' = mux_rdead c \<and> mux_wdead c' = mux_wdead c \<and> mux_unread c' + length bs \<le> mux_unread c
      \<and> (0 < n \<longrightarrow> bs = [] \<longrightarrow> er \<noteq> None)"
    "(r, c') \<in> set (c_write smux_ops now xs c) \<Longrightarrow>
      mux_rdead c' = mux_rdead c \<and> mux_wdead c' = mux_wdead c \<and> mux_unread c' = mux_unread c"
proof -
  obtain s k where c: "c = (s, k)" and v: "session_inv s" "k < length (objs s)"
    using assms by (cases c) (simp add: mux_valid_def)
  show "mux_rdead c' = mux_rdead c \<and> mux_wdead c' = mux_wdead c \<and> mux_unread c' + length bs \<le> mux_unread c
      \<and> (0 < n \<longrightarrow> bs = [] \<longrightarrow> er \<noteq> None)" if "((bs, er), c') \<in> set (c_read smux_ops now n c)"
  proof -
    from that c obtain s' where s': "((bs, er), s') \<in> set (stream_read now n k s)" "c' = (s', k)"
      by (cases c') (auto simp: smux_ops_def set_keep_ref)
    have "er \<noteq> None" if "0 < n" "bs = []" using stream_read_nothing [of er s' now n k s] s'(1) v that by auto
    with stream_read_times [OF s'(1) v(2)] show ?thesis by (simp add: c s'(2) mux_time_defs same_times_def)
  qed
  show "mux_rdead c' = mux_rdead c \<and> mux_wdead c' = mux_wdead c \<and> mux_unread c' = mux_unread c"
    if "(r, c') \<in> set (c_write smux_ops now xs c)"
  proof -
    from that c obtain s' where s': "(r, s') \<in> set (stream_write now xs k s)" "c' = (s', k)"
      by (cases c') (auto simp: smux_ops_def set_keep_ref)
    from stream_write_times [OF s'(1) v(2)] show ?thesis by (simp add: c s'(2) mux_time_defs same_times_def)
  qed
qed

lemma Stream_Close_unread:
  assumes "(e, s') \<in> set (Stream_Close k s)" "k < length (objs s)"
  shows "buffered (objs s' ! k) \<le> buffered (objs s ! k)"
proof (cases "sdie (objs s ! k)")
  case False
  let ?f = "\<lambda>st :: smux_stream. st\<lparr>sdie := True\<rparr>"
  from assms(1) False obtain r s2 where
    w: "(r, s2) \<in> set (writeFrame (newFrame (ver_byte s) cmdFIN (stid (objs s ! k))) (upd_obj k ?f s))"
    and s': "s' = streamClosed (stid (objs s ! k)) s2"
    by (auto simp: Stream_Close_def Let_def)
  from writeFrame_core [OF w] have "objs s2 = objs (upd_obj k ?f s)" by (simp add: same_core_def)
  then have "buffered (objs s2 ! k) = buffered (objs s ! k)" "k < length (objs s2)"
    using assms(2) by (simp_all add: buffered_def)
  moreover have "objs s' ! k = objs s2 ! k \<or> objs s' ! k = (objs s2 ! k)\<lparr>buffers := []\<rparr>"
    using upd_obj_nth_cases [OF \<open>k < length (objs s2)\<close>]
    by (auto simp: s' streamClosed_def Let_def split: option.split)
  ultimately show ?thesis by (auto simp: buffered_def)
qed (use assms in \<open>auto simp: Stream_Close_def\<close>)

lemma muxStream_Close_unread:
  assumes "(e, s') \<in> set (muxStream_Close k s)" "k < length (objs s)" "session_inv s"
  shows "buffered (objs s' ! k) \<le> buffered (objs s ! k)"
proof -
  from muxStream_Close_split [OF assms(1)] obtain e1 s1 where
    c: "(e1, s1) \<in> set (Stream_Close k s)" and s': "s' = snd (tryCloseOnIdle s1)" by blast
  note inv1 = Stream_Close_inv [OF c assms(3,2)]
  have k1: "k < length (objs s1)" using Stream_Close_evolves [OF c] assms(2) by (simp add: evolves_def)
  have "\<forall>k \<in> set (map snd (streams s1)). k < length (objs s1)"
    using inv1 by (auto simp: session_inv_def map_ok_def)
  from close_objs_nth [OF this] k1 have "buffered (objs s' ! k) = buffered (objs s1 ! k)"
    by (auto simp: s' tryCloseOnIdle_def Session_Close_def buffered_def)
  with Stream_Close_unread [OF c assms(2)] show ?thesis by simp
qed

lemma mux_deadline_times:
  assumes "mux_valid c"
  shows "mux_rdead (c_set_read_deadline smux_ops dl c) = Some dl" "mux_rdead (c_set_deadline smux_ops dl c) = Some dl"
    "mux_rdead (c_set_write_deadline smux_ops dl c) = mux_rdead c"
    "mux_wdead (c_set_write_deadline smux_ops dl c) = Some dl" "mux_wdead (c_set_deadline smux_ops dl c) = Some dl"
    "mux_wdead (c_set_read_deadline smux_ops dl c) = mux_wdead c"
    "mux_unread (c_set_deadline smux_ops dl c) = mux_unread c"
    "mux_unread (c_set_read_deadline smux_ops dl c) = mux_unread c"
    "mux_unread (c_set_write_deadline smux_ops dl c) = mux_unread c"
  using assms
  by (cases c; simp add: smux_ops_def mux_time_defs mux_defs deadline_stream SetDeadline_def buffered_def)+

lemma mux_close_unread:
  "mux_valid c \<Longrightarrow> (e, c') \<in> set (c_close smux_ops c) \<Longrightarrow> mux_unread c' \<le> mux_unread c"
  "mux_valid c \<Longrightarrow> (e, c') \<in> set (c_close cmux_ops c) \<Longrightarrow> mux_unread c' \<le> mux_unread c"
  by (cases c; cases c'; auto simp: smux_ops_def cmux_ops_def set_keep_ref mux_defs mux_unread_def
      dest: Stream_Close_unread muxStream_Close_unread)+

lemma smux_write_nonempty: "c_write smux_ops now bs c \<noteq> []"
  by (cases c) (simp add: smux_ops_def stream_write_nonempty)

interpretation smux_timed: timed_conn smux_ops mux_closed mux_valid mux_env mux_rdead mux_wdead mux_unread mux_parks
proof unfold_locales
  show "c_read smux_ops now n c \<noteq> [] \<or> (\<exists>c'. mux_parks c c' \<and> c_read smux_ops now n c' \<noteq> [])"
    if "mux_valid c" "mux_rdead c = Some t" "t \<le> now" for c t now n
    using mux_late_read [OF that] by (simp add: cmux_ops_methods)
qed (auto simp: mux_deadline_times smux_write_nonempty mux_parks_env
    dest: mux_calls_times mux_close_unread(1) mux_env_times)

interpretation cmux_timed: timed_conn cmux_ops mux_closed mux_valid mux_env mux_rdead mux_wdead mux_unread mux_parks
proof unfold_locales
  show "c_read cmux_ops now n c \<noteq> [] \<or> (\<exists>c'. mux_parks c c' \<and> c_read cmux_ops now n c' \<noteq> [])"
    if "mux_valid c" "mux_rdead c = Some t" "t \<le> now" for c t now n
    using mux_late_read [OF that] by (simp add: cmux_ops_methods)
qed (auto simp: cmux_ops_methods mux_deadline_times smux_write_nonempty mux_parks_env
    dest: mux_calls_times mux_close_unread(2) mux_env_times)

section \<open>Connections of two kinds\<close>

locale two_timed = two_conns opsA closedA validA envA takenA wroteA opsB closedB validB envB takenB wroteB
  + TA: timed_conn opsA closedA validA envA rdeadA wdeadA unreadA parksA
  + TB: timed_conn opsB closedB validB envB rdeadB wdeadB unreadB parksB
  for opsA :: "'a conn_ops" and closedA validA envA takenA wroteA rdeadA wdeadA unreadA parksA
    and opsB :: "'b conn_ops" and closedB validB envB takenB wroteB rdeadB wdeadB unreadB parksB

sublocale two_timed < timed: timed_conn "sum_ops opsA opsB" "case_sum closedA closedB"
    "case_sum validA validB" "sum_env envA envB" "case_sum rdeadA rdeadB" "case_sum wdeadA wdeadB"
    "case_sum unreadA unreadB" "sum_env parksA parksB"
proof -
  note laws = TA.read_some TB.read_some TA.read_takes TB.read_takes TA.write_takes TB.write_takes
    TA.close_takes TB.close_takes TA.rdead_kept TB.rdead_kept TA.wdead_kept TB.wdead_kept
  note sets = TA.deadline_takes TB.deadline_takes TA.rdead_set TB.rdead_set TA.wdead_set TB.wdead_set
    TA.late_write TB.late_write TA.rdead_kept(3) TB.rdead_kept(3) TA.wdead_kept(3) TB.wdead_kept(3)
  have late: "c_read (sum_ops opsA opsB) now n c \<noteq> []
      \<or> (\<exists>c'. sum_env parksA parksB c c' \<and> c_read (sum_ops opsA opsB) now n c' \<noteq> [])"
    if "case_sum validA validB c" "case_sum rdeadA rdeadB c = Some t" "t \<le> now" for c t now n
  proof (cases c)
    case (Inl a)
    have rd: "(c_read (sum_ops opsA opsB) now n (Inl x) = []) = (c_read opsA now n x = [])" for x
      by (simp add: sum_ops_def)
    with that Inl TA.late_read [of a t now n] sum_env.left [of parksA a] show ?thesis by auto
  next
    case (Inr b)
    have rd: "(c_read (sum_ops opsA opsB) now n (Inr x) = []) = (c_read opsB now n x = [])" for x
      by (simp add: sum_ops_def)
    with that Inr TB.late_read [of b t now n] sum_env.right [of parksB b] show ?thesis by auto
  qed
  have wset: "case_sum wdeadA wdeadB (c_set_deadline (sum_ops opsA opsB) dl c) \<in> {Some dl, case_sum wdeadA wdeadB c}"
    if "case_sum validA validB c" for c dl
    using that TA.wdead_set(2) TB.wdead_set(2) by (cases c) (simp_all add: sum_ops_def)
  show "timed_conn (sum_ops opsA opsB) (case_sum closedA closedB) (case_sum validA validB) (sum_env envA envB)
      (case_sum rdeadA rdeadB) (case_sum wdeadA wdeadB) (case_sum unreadA unreadB) (sum_env parksA parksB)"
    by (unfold_locales; (rule late wset; assumption)?)
      (auto simp: sum_ops_def set_map_result sets elim!: sum_envE intro: sum_env.intros TA.parks_env TB.parks_env
        split: sum.splits dest: laws)
qed

definition any_rdead :: "any_conn \<Rightarrow> int option" where
  "any_rdead = case_sum rdl (case_sum mux_rdead mux_rdead)"

definition any_wdead :: "any_conn \<Rightarrow> int option" where
  "any_wdead = case_sum wdl (case_sum mux_wdead mux_wdead)"

text \<open>The bytes a connection holds for its reader.\<close>

definition any_unread :: "any_conn \<Rightarrow> nat" where
  "any_unread = case_sum (\<lambda>c. length (inq c)) (case_sum mux_unread mux_unread)"

definition any_parks :: "any_conn \<Rightarrow> any_conn \<Rightarrow> bool" where
  "any_parks = sum_env (\<lambda>_ _. False) (sum_env mux_parks mux_parks)"

interpretation streams_timed: two_timed smux_ops mux_closed mux_valid mux_env mux_taken mux_wrote mux_rdead mux_wdead
    mux_unread mux_parks cmux_ops mux_closed mux_valid mux_env mux_taken mux_wrote mux_rdead mux_wdead mux_unread mux_parks
  by unfold_locales

interpretation conns_timed: two_timed tcp_ops tclosed "\<lambda>_. True" tcp_env tcp_recvd tcp_sent rdl wdl "\<lambda>c. length (inq c)"
    "\<lambda>_ _. False" "sum_ops smux_ops cmux_ops" "case_sum mux_closed mux_closed" "case_sum mux_valid mux_valid"
    "sum_env mux_env mux_env" "case_sum mux_taken mux_taken" "case_sum mux_wrote mux_wrote"
    "case_sum mux_rdead mux_rdead" "case_sum mux_wdead mux_wdead" "case_sum mux_unread mux_unread" "sum_env mux_parks mux_parks"
  by unfold_locales

interpretation any_timed: timed_conn any_ops any_closed any_valid any_env any_rdead any_wdead any_unread any_parks
  unfolding any_ops_def any_closed_def any_valid_def any_env_def any_rdead_def any_wdead_def any_unread_def any_parks_def
  by (rule conns_timed.timed.timed_conn_axioms)

section \<open>No call outlives the timeout\<close>


text \<open>The peers, the network and the sessions go on, but nothing more arrives for the reader.\<close>

definition any_quiet :: "any_conn \<Rightarrow> any_conn \<Rightarrow> bool" where
  "any_quiet c c' \<longleftrightarrow> any_env c c' \<and> any_unread c' \<le> any_unread c"


text \<open>The tunnel of \<open>Conns\<close>: its second goroutine finds nothing to read and is blocked until the timeout.\<close>

definition ex_waiting :: "any_conn tunnel" where
  "ex_waiting = the (exec any_ops [(BtoA, 0), (BtoA, 0), (BtoA, 0)] ex_tunnel)"

lemma ex_waiting_runs:
  "\<exists>s th. exec any_ops [(BtoA, 0), (BtoA, 0), (BtoA, 0)] ex_tunnel = Some (s, th) \<and> ex_waiting = (s, th)
     \<and> clock s = 10 \<and> pc (th BtoA) = ReadSrc \<and> ow_step any_ops BtoA s (th BtoA) = []"
  by (simp add: ex_waiting_def tunnel_eval)



end
