(* ===== verification/CmdMuServer.thy ===== *)
theory CmdMuServer
  imports CmdFlags MuConf
begin

text \<open>
  The command \<^verbatim>\<open>src/cmd/mtt-mu-server/mu_server.go\<close>. It does not run as a SIP003 plugin.
\<close>

definition mu_defaults :: MUServerConfig where
  "mu_defaults =
     \<lparr>ServerAddr = [], ServerBindUnix = False, HTTPControllerAddr = [], Key = [], Cert = [],
      ServerName = [], DisableTLS = False, EnableMux = False, EnableTFO = False,
      Timeout = 60 * second, Verbose = False\<rparr>"

definition mu_kinds :: "string \<Rightarrow> flag_kind option" where
  "mu_kinds = map_of
     [(''b'', ValueFlag), (''bind-unix'', BoolFlag), (''c'', ValueFlag), (''mux'', BoolFlag),
      (''timeout'', ValueFlag), (''cert'', ValueFlag), (''key'', ValueFlag), (''disable-tls'', BoolFlag),
      (''n'', ValueFlag), (''fast-open'', BoolFlag), (''verbose'', BoolFlag)]"

definition mu_set ::
  "fraction \<Rightarrow> string \<Rightarrow> string \<Rightarrow> MUServerConfig \<Rightarrow> gerror option \<times> MUServerConfig" where
  "mu_set frac n v =
     (if n = ''b'' then set_string (\<lambda>x. ServerAddr_update (\<lambda>_. x)) v
      else if n = ''bind-unix'' then set_bool (\<lambda>x. ServerBindUnix_update (\<lambda>_. x)) v
      else if n = ''c'' then set_string (\<lambda>x. HTTPControllerAddr_update (\<lambda>_. x)) v
      else if n = ''mux'' then set_bool (\<lambda>x. EnableMux_update (\<lambda>_. x)) v
      else if n = ''timeout'' then set_duration frac (\<lambda>x. Timeout_update (\<lambda>_. x)) v
      else if n = ''cert'' then set_string (\<lambda>x. Cert_update (\<lambda>_. x)) v
      else if n = ''key'' then set_string (\<lambda>x. Key_update (\<lambda>_. x)) v
      else if n = ''disable-tls'' then set_bool (\<lambda>x. DisableTLS_update (\<lambda>_. x)) v
      else if n = ''n'' then set_string (\<lambda>x. ServerName_update (\<lambda>_. x)) v
      else if n = ''fast-open'' then set_bool (\<lambda>x. EnableTFO_update (\<lambda>_. x)) v
      else set_bool (\<lambda>x. Verbose_update (\<lambda>_. x)) v)"

definition mu_main :: "fraction \<Rightarrow> string list \<Rightarrow> MUServer res" where
  "mu_main frac argv =
     (case flag_parse mu_kinds (mu_set frac) argv mu_defaults of
        (Some e, c) \<Rightarrow> Inl e
      | (None, c) \<Rightarrow>
          (case NewMUServer c of
             Inl e \<Rightarrow> Inl (Errorf ''init server failed'' e)
           | Inr mus \<Rightarrow> Inr mus))"

section \<open>Properties\<close>

text \<open>
  The command line of the multi-user server is checked, unlike plugin options: whatever the
  arguments before it, an unknown flag that the parser reaches ends the process with an error, and
  options that are all valid give a server with the assigned configuration and no users.
\<close>

theorem mu_command_line:
  assumes "set_opts mu_kinds (mu_set frac) opts mu_defaults = Some c"
    and "plain_flag_name k" "mu_kinds k = None" "k \<noteq> ''help''" "k \<noteq> ''h''"
  shows "(\<exists>mus. mu_main frac (concat (map opt_args opts)) = Inr mus \<and> MUServer.conf mus = c
      \<and> mux_len (users mus) = 0)
    \<and> mu_main frac (concat (map opt_args opts) @ (CHR ''-'' # k) # rest) =
        Inl (NewError (''flag provided but not defined: -'' @ k))"
proof
  show "\<exists>mus. mu_main frac (concat (map opt_args opts)) = Inr mus \<and> MUServer.conf mus = c
      \<and> mux_len (users mus) = 0"
    using flag_parse_opts [OF assms(1), of "[]"]
    by (simp add: mu_main_def NewMUServer_def mux_len_def newMux_def)
  show "mu_main frac (concat (map opt_args opts) @ (CHR ''-'' # k) # rest) =
      Inl (NewError (''flag provided but not defined: -'' @ k))"
    using flag_parse_opts [OF assms(1), of "(CHR ''-'' # k) # rest"]
      flag_parse_undefined [of k mu_kinds "mu_set frac" rest c, OF assms(2-5)]
    by (simp add: mu_main_def)
qed

definition mu_opts :: "plugin_opt list" where
  "mu_opts = [(''b'', Some ''0.0.0.0:443''), (''c'', Some ''127.0.0.1:8080''), (''mux'', None)]"

theorem mu_command_line_witness:
  "(\<exists>mus. mu_main exact_fraction [''-b'', ''0.0.0.0:443'', ''-c'', ''127.0.0.1:8080'', ''-mux''] = Inr mus
       \<and> mux_len (users mus) = 0)
   \<and> mu_main exact_fraction [''-b'', ''0.0.0.0:443'', ''-c'', ''127.0.0.1:8080'', ''-mux'', ''-sv'', ''-verbose''] =
       Inl (NewError ''flag provided but not defined: -sv'')"
proof -
  have "set_opts mu_kinds (mu_set exact_fraction) mu_opts mu_defaults = Some (mu_defaults
      \<lparr>ServerAddr := ''0.0.0.0:443'', HTTPControllerAddr := ''127.0.0.1:8080'', EnableMux := True\<rparr>)"
    by (simp add: mu_opts_def mu_kinds_def plain_flag_name_def mu_set_def set_string_def set_bool_def parseBool_def)
  from mu_command_line [OF this, of "''sv''" "[''-verbose'']"] show ?thesis
    by (auto simp: mu_opts_def plain_flag_name_def mu_kinds_def)
qed

end
