(* ===== verification/Processes.thy ===== *)
theory Processes
  imports CmdClient CmdServer CmdMuServer
begin

text \<open>
  The end of the three commands: after start-up, \<^verbatim>\<open>main\<close> waits for a signal while one goroutine for each
  listener serves and ends the process when it returns.
\<close>

section \<open>Processes\<close>

text \<open>
  \<open>serving\<close> holds for each serving goroutine whether it still runs, in the order in which \<^verbatim>\<open>main\<close> started them;
  \<open>shut\<close> whether the listener it serves was closed. \<open>Unwinding n\<close>: \<^verbatim>\<open>main\<close> has returned and \<open>n\<close> deferred calls
  are left, the last one deferred first.
\<close>

datatype command = ClientCmd | ServerCmd | MuServerCmd

datatype main_at = WaitSignal | Unwinding nat

record proc =
  main_at :: main_at
  serving :: "bool list"
  shut :: "bool list"
  exit_status :: "int option"

definition goroutines :: "command \<Rightarrow> nat" where
  "goroutines prg = (case prg of ClientCmd \<Rightarrow> 1 | ServerCmd \<Rightarrow> 1 | MuServerCmd \<Rightarrow> 2)"

definition start_proc :: "command \<Rightarrow> proc" where
  "start_proc prg =
     \<lparr>main_at = WaitSignal, serving = replicate (goroutines prg) True,
      shut = replicate (goroutines prg) False, exit_status = None\<rparr>"

text \<open>
  A signal ends the client at once; \<^verbatim>\<open>main\<close> of the servers returns. A deferred call closes a listener, and
  when none is left the process exits.
\<close>

definition on_signal :: "command \<Rightarrow> proc \<Rightarrow> proc" where
  "on_signal prg p =
     (case prg of
        ClientCmd \<Rightarrow> p\<lparr>exit_status := Some 0\<rparr>
      | _ \<Rightarrow> p\<lparr>main_at := Unwinding (goroutines prg)\<rparr>)"

definition unwind :: "nat \<Rightarrow> proc \<Rightarrow> proc" where
  "unwind n p =
     (case n of 0 \<Rightarrow> p\<lparr>exit_status := Some 0\<rparr> | Suc i \<Rightarrow> p\<lparr>main_at := Unwinding i, shut := (shut p)[i := True]\<rparr>)"

text \<open>\<^verbatim>\<open>logrus.Fatalf\<close> exits with status 1.\<close>

definition status_of :: "ended \<Rightarrow> int" where
  "status_of e = (case e of ExitZero \<Rightarrow> 0 | ExitFatal _ \<Rightarrow> 1)"

definition server_ends :: "gerror option \<Rightarrow> ended" where
  "server_ends start = (case start of Some e \<Rightarrow> ExitFatal (Errorf ''server exited'' e) | None \<Rightarrow> ExitZero)"

definition controller_ends :: "gerror option \<Rightarrow> ended" where
  "controller_ends start =
     (case start of Some e \<Rightarrow> ExitFatal (Errorf ''server control exited'' e) | None \<Rightarrow> ExitZero)"

definition serve_ends :: "command \<Rightarrow> nat \<Rightarrow> gerror option \<Rightarrow> ended" where
  "serve_ends prg i r =
     (case prg of
        ClientCmd \<Rightarrow> client_ends r
      | ServerCmd \<Rightarrow> server_ends r
      | MuServerCmd \<Rightarrow> if i = 0 then server_ends r else controller_ends r)"

definition goroutine_returns :: "command \<Rightarrow> nat \<Rightarrow> gerror option \<Rightarrow> proc \<Rightarrow> proc" where
  "goroutine_returns prg i r p =
     p\<lparr>serving := (serving p)[i := False], exit_status := Some (status_of (serve_ends prg i r))\<rparr>"

text \<open>
  The steps of a process whose listeners work: a goroutine returns only when its listener was closed, and
  then with an error (\<^verbatim>\<open>Accept\<close> and \<^verbatim>\<open>http.Serve\<close> never end without one). A process that has exited
  makes no step.
\<close>

inductive proc_step :: "command \<Rightarrow> proc \<Rightarrow> proc \<Rightarrow> bool" for prg where
  signal: "exit_status p = None \<Longrightarrow> main_at p = WaitSignal \<Longrightarrow> proc_step prg p (on_signal prg p)"
| deferred: "exit_status p = None \<Longrightarrow> main_at p = Unwinding n \<Longrightarrow> proc_step prg p (unwind n p)"
| returns: "exit_status p = None \<Longrightarrow> i < length (serving p) \<Longrightarrow> serving p ! i \<Longrightarrow> shut p ! i \<Longrightarrow>
    proc_step prg p (goroutine_returns prg i (Some e) p)"

inductive proc_run :: "command \<Rightarrow> proc \<Rightarrow> proc \<Rightarrow> bool" for prg where
  proc_start: "proc_run prg p p"
| proc_more: "proc_run prg p p' \<Longrightarrow> proc_step prg p' p'' \<Longrightarrow> proc_run prg p p''"

definition exit_statuses :: "command \<Rightarrow> int set" where
  "exit_statuses prg = {x. \<exists>p. proc_run prg (start_proc prg) p \<and> exit_status p = Some x}"

section \<open>Exit statuses\<close>

text \<open>Until the process exits nothing has closed the client's listener.\<close>

definition client_proc_ok :: "proc \<Rightarrow> bool" where
  "client_proc_ok p \<longleftrightarrow> (exit_status p = None \<longrightarrow> p = start_proc ClientCmd) \<and> exit_status p \<in> {None, Some 0}"

lemma client_proc_step: "proc_step ClientCmd p p' \<Longrightarrow> client_proc_ok p \<Longrightarrow> client_proc_ok p'"
  by (induction rule: proc_step.induct)
    (auto simp: client_proc_ok_def start_proc_def on_signal_def goroutines_def)

lemma client_proc_run: "proc_run ClientCmd p p' \<Longrightarrow> client_proc_ok p \<Longrightarrow> client_proc_ok p'"
  by (induction rule: proc_run.induct) (auto intro: client_proc_step)

lemma proc_status: "proc_step prg p p' \<Longrightarrow> exit_status p' = None \<or> (\<exists>x \<in> {0, 1}. exit_status p' = Some x)"
  by (induction rule: proc_step.induct)
    (auto simp: on_signal_def unwind_def goroutine_returns_def status_of_def split: command.split nat.split ended.split)

lemma proc_run_status:
  "proc_run prg p p' \<Longrightarrow> exit_status p = None \<Longrightarrow> exit_status p' = None \<or> (\<exists>x \<in> {0, 1}. exit_status p' = Some x)"
  by (induction rule: proc_run.induct) (use proc_status in auto)

text \<open>The steps up to the first deferred call, and then either side wins.\<close>

definition unwinding :: "command \<Rightarrow> nat \<Rightarrow> proc" where
  "unwinding prg n = (start_proc prg)\<lparr>main_at := Unwinding n,
     shut := replicate n False @ replicate (goroutines prg - n) True\<rparr>"

lemma unwinding_run:
  assumes "prg \<noteq> ClientCmd" "n \<le> goroutines prg"
  shows "proc_run prg (start_proc prg) (unwinding prg (goroutines prg - n))"
  using assms(2)
proof (induction n)
  case 0
  have "proc_step prg (start_proc prg) (on_signal prg (start_proc prg))"
    by (rule signal) (simp_all add: start_proc_def)
  moreover have "on_signal prg (start_proc prg) = unwinding prg (goroutines prg)"
    using assms(1) by (cases prg) (simp_all add: on_signal_def unwinding_def start_proc_def)
  ultimately show ?case using proc_more [OF proc_start] by simp
next
  case (Suc n)
  obtain i where i: "goroutines prg - n = Suc i" "i < goroutines prg" "i = goroutines prg - Suc n"
    using Suc.prems by (cases "goroutines prg - n") auto
  have "proc_step prg (unwinding prg (Suc i)) (unwind (Suc i) (unwinding prg (Suc i)))"
    by (rule deferred) (simp_all add: unwinding_def start_proc_def)
  moreover have "unwind (Suc i) (unwinding prg (Suc i)) = unwinding prg i"
    using i(2) by (simp add: unwind_def unwinding_def start_proc_def replicate_append_same [symmetric]
        list_update_append Suc_diff_Suc [symmetric])
  ultimately show ?case using Suc i(1,3) proc_more by fastforce
qed

text \<open>
  C40: (exit status) A client that is ended by a signal always exits with status 0. The two servers close
  their listeners on the way out, and the goroutine that serves one then reports the closing as a fatal
  error, if it is scheduled before the process is gone: they exit with 0 or with 1, as it happens.
\<close>

theorem signal_exit_statuses:
  "exit_statuses prg = (if prg = ClientCmd then {0} else {0, 1})"
proof (cases "prg = ClientCmd")
  case True
  have "client_proc_ok (start_proc ClientCmd)" by (simp add: client_proc_ok_def start_proc_def)
  then have "exit_statuses ClientCmd \<subseteq> {0}"
    using client_proc_run by (fastforce simp: exit_statuses_def client_proc_ok_def)
  moreover have "proc_run ClientCmd (start_proc ClientCmd) (on_signal ClientCmd (start_proc ClientCmd))"
    by (rule proc_more [OF proc_start signal]) (simp_all add: start_proc_def)
  then have "0 \<in> exit_statuses ClientCmd" by (force simp: exit_statuses_def on_signal_def)
  ultimately show ?thesis using True by auto
next
  case False
  have "exit_statuses prg \<subseteq> {0, 1}"
    using proc_run_status [of prg "start_proc prg"] by (fastforce simp: exit_statuses_def start_proc_def)
  moreover have run: "proc_run prg (start_proc prg) (unwinding prg 0)"
    using unwinding_run [OF False, of "goroutines prg"] by simp
  have "proc_step prg (unwinding prg 0) (unwind 0 (unwinding prg 0))"
    by (rule deferred) (simp_all add: unwinding_def start_proc_def)
  with run have "0 \<in> exit_statuses prg"
    by (force simp: exit_statuses_def unwind_def dest: proc_more)
  moreover have "proc_step prg (unwinding prg 0) (goroutine_returns prg 0 (Some EOF) (unwinding prg 0))"
    by (rule returns) (simp_all add: unwinding_def start_proc_def goroutines_def split: command.split)
  with run have "1 \<in> exit_statuses prg"
    using False by (force simp: exit_statuses_def goroutine_returns_def serve_ends_def server_ends_def status_of_def
      dest: proc_more split: command.splits)
  ultimately show ?thesis using False by auto
qed

end
