(* ===== verification/SmuxEffect.thy ===== *)
theory SmuxEffect
  imports SmuxInvariant "HOL-Library.Sublist"
begin

text \<open>
  What each transition of a session does to the frames sent and to the data of its streams: the frames it
  sends, which streams keep, gain or lose data, what the receive loop makes of a frame, and that a byte reported
  as written was sent.
\<close>

section \<open>Frames on the connection and data of a stream\<close>

definition wire :: "Frame list \<Rightarrow> byte list" where
  "wire fs = concat (map frame_bytes fs)"

lemma wire_simps [simp]: "wire [] = []" "wire (f # fs) = frame_bytes f @ wire fs" "wire (fs @ gs) = wire fs @ wire gs"
  by (simp_all add: wire_def)

text \<open>The data sent for a stream, and the data a stream object got: read or waiting to be read.\<close>

definition psh :: "u32 \<Rightarrow> Frame list \<Rightarrow> byte list" where
  "psh i fs = concat (map data (filter (\<lambda>f. cmd f = cmdPSH \<and> sid f = i) fs))"

definition content :: "smux_stream \<Rightarrow> byte list" where
  "content st = read_log st @ concat (buffers st)"

lemma psh_simps [simp]:
  "psh i [] = []" "psh i (fs @ gs) = psh i fs @ psh i gs"
  "psh i (f # fs) = (if cmd f = cmdPSH \<and> sid f = i then data f else []) @ psh i fs"
  by (simp_all add: psh_def)

section \<open>What a step sends\<close>

text \<open>
  The frames of a step: data only for streams the session has, and a \<^verbatim>\<open>cmdSYN\<close> alone, from a client, with an
  id it has not used.
\<close>

definition frame_ok :: "session \<Rightarrow> Frame \<Rightarrow> bool" where
  "frame_ok s f \<longleftrightarrow> ver f = ver_byte s \<and> length (data f) \<le> 65535
     \<and> (cmd f = cmdPSH \<and> data f \<noteq> [] \<and> sid f \<in> set (used s) \<or> (cmd f = cmdNOP \<or> cmd f = cmdFIN) \<and> data f = [])"

definition syn_ok :: "session \<Rightarrow> session \<Rightarrow> Frame \<Rightarrow> bool" where
  "syn_ok s s' f \<longleftrightarrow> ver f = ver_byte s \<and> cmd f = cmdSYN \<and> data f = [] \<and> client s \<and> \<not> goAway s
     \<and> nextStreamID s < sid f \<and> sid f = nextStreamID s'"

definition sent :: "session \<Rightarrow> session \<Rightarrow> Frame list \<Rightarrow> bool" where
  "sent s s' fs \<longleftrightarrow> outbox s' = outbox s @ fs
     \<and> ((\<forall>f \<in> set fs. frame_ok s f) \<or> (\<exists>f. fs = [f] \<and> syn_ok s s' f))"

text \<open>What a step leaves of the streams' contents when it is not one of the receive loop.\<close>

definition kept :: "session \<Rightarrow> session \<Rightarrow> nat \<Rightarrow> bool" where
  "kept s s' j \<longleftrightarrow> stid (objs s' ! j) = stid (objs s ! j)
     \<and> prefix (content (objs s' ! j)) (content (objs s ! j))
     \<and> ((stid (objs s ! j), j) \<in> set (streams s') \<longrightarrow>
          (stid (objs s ! j), j) \<in> set (streams s) \<and> content (objs s' ! j) = content (objs s ! j))"

definition keeps :: "session \<Rightarrow> session \<Rightarrow> bool" where
  "keeps s s' \<longleftrightarrow> client s' = client s \<and> inbuf s' = inbuf s \<and> recv_done s' = recv_done s \<and> length (objs s') = length (objs s)
     \<and> (\<forall>j < length (objs s). kept s s' j)"

text \<open>A new stream has an id that is larger than all before.\<close>

definition opens :: "session \<Rightarrow> session \<Rightarrow> bool" where
  "opens s s' \<longleftrightarrow> (\<exists>i. objs s' = objs s @ [newStream i]
     \<and> streams s' = alist_put i (length (objs s)) (streams s) \<and> inbuf s' = inbuf s \<and> recv_done s' = recv_done s
     \<and> client s \<and> client s' \<and> \<not> goAway s \<and> nextStreamID s < i)"

lemma keeps_same:
  "objs s' = objs s \<Longrightarrow> streams s' = streams s \<Longrightarrow> inbuf s' = inbuf s \<Longrightarrow> recv_done s' = recv_done s
     \<Longrightarrow> client s' = client s \<Longrightarrow> keeps s s'"
  by (simp add: keeps_def kept_def)

lemma kept_trans: "kept s t j \<Longrightarrow> kept t u j \<Longrightarrow> kept s u j"
  by (auto simp: kept_def intro: prefix_order.trans)

lemma keeps_trans: "keeps s t \<Longrightarrow> keeps t u \<Longrightarrow> keeps s u"
  by (auto simp: keeps_def intro: kept_trans)

lemma keeps_upd:
  assumes "k < length (objs s)" "stid (f (objs s ! k)) = stid (objs s ! k)"
    and "content (f (objs s ! k)) = content (objs s ! k)"
  shows "keeps s (upd_obj k f s)"
proof -
  have "kept s (upd_obj k f s) j" for j
    using assms by (cases "j = k") (simp_all add: kept_def)
  moreover have "inbuf (upd_obj k f s) = inbuf s" "recv_done (upd_obj k f s) = recv_done s" "client (upd_obj k f s) = client s"
    by (simp_all add: upd_obj_def)
  ultimately show ?thesis by (simp add: keeps_def)
qed

lemma sent_nothing: "outbox s' = outbox s \<Longrightarrow> sent s s' []"
  by (simp add: sent_def)

text \<open>Writing a frame.\<close>

lemma writeFrame_now_sent:
  "(r, s') \<in> set (writeFrame_now f s) \<Longrightarrow>
     (outbox s' = outbox s \<or> outbox s' = outbox s @ [f]) \<and> inbuf s' = inbuf s \<and> recv_done s' = recv_done s"
  by (auto simp: writeFrame_now_def Let_def notifyWriteError_def split: option.splits if_splits)

lemma writeFrameInternal_sent:
  "(r, s') \<in> set (writeFrameInternal f late s) \<Longrightarrow>
     (outbox s' = outbox s \<or> outbox s' = outbox s @ [f]) \<and> inbuf s' = inbuf s \<and> recv_done s' = recv_done s"
  by (auto simp: writeFrameInternal_def dest: writeFrame_now_sent split: if_splits)

lemma writeFrameInternal_keeps: "(r, s') \<in> set (writeFrameInternal f late s) \<Longrightarrow> keeps s s'"
  using writeFrameInternal_core writeFrameInternal_sent by (intro keeps_same) (auto simp: same_core_def)

lemma writeFrameInternal_frame:
  assumes "(r, s') \<in> set (writeFrameInternal f late s)" "frame_ok s f"
  shows "\<exists>fs. outbox s' = outbox s @ fs \<and> (\<forall>f \<in> set fs. frame_ok s f)"
  using writeFrameInternal_sent [OF assms(1)] assms(2)
  by (metis append_Nil2 empty_iff empty_set list.set_cases set_ConsD)

lemma outbox_upd [simp]: "outbox (upd_obj k f s) = outbox s" "inbuf (upd_obj k f s) = inbuf s"
  "recv_done (upd_obj k f s) = recv_done s" "client (upd_obj k f s) = client s"
  by (simp_all add: upd_obj_def)

text \<open>The steps of a session other than those of its receive loop: what they send, and what they keep.\<close>

definition frames_sent :: "session \<Rightarrow> session \<Rightarrow> bool" where
  "frames_sent s s' \<longleftrightarrow> (\<exists>fs. outbox s' = outbox s @ fs \<and> (\<forall>f \<in> set fs. frame_ok s f))"

lemma frames_sent_sent: "frames_sent s s' \<Longrightarrow> \<exists>fs. sent s s' fs"
  by (auto simp: frames_sent_def sent_def)

lemma frames_sent_same: "outbox s' = outbox s \<Longrightarrow> frames_sent s s'"
  by (simp add: frames_sent_def)

lemma frames_sent_trans:
  "frames_sent s t \<Longrightarrow> frames_sent t u \<Longrightarrow> config t = config s \<Longrightarrow> set (used t) \<subseteq> set (used s) \<Longrightarrow> frames_sent s u"
  unfolding frames_sent_def frame_ok_def ver_byte_def by fastforce

lemma writeFrameInternal_frames:
  "(r, s') \<in> set (writeFrameInternal f late s) \<Longrightarrow> frame_ok s f \<Longrightarrow> frames_sent s s'"
  unfolding frames_sent_def by (rule writeFrameInternal_frame)

lemma chunks_size: "b \<in> set (chunks sz bs) \<Longrightarrow> b \<noteq> [] \<and> length b \<le> sz"
  by (induction sz bs rule: chunks.induct) (subst (asm) chunks.simps, auto split: if_splits)

lemma write_chunks_effect:
  assumes "(r, s') \<in> set (write_chunks late k n0 bs s)" "k < length (objs s)"
    and "\<forall>b \<in> set bs. b \<noteq> [] \<and> length b \<le> 65535"
  shows "frames_sent s s' \<and> keeps s s'"
  using assms
proof (induction bs arbitrary: n0 s)
  case Nil
  then show ?case by (simp add: frames_sent_same keeps_same)
next
  case (Cons b bs)
  let ?f = "(newFrame (ver_byte s) cmdPSH (stid (objs s ! k)))\<lparr>data := b\<rparr>"
  from Cons.prems(1) obtain n e s1 where w: "((n, e), s1) \<in> set (writeFrameInternal ?f late s)"
    and r: "(r, s') \<in> set (let s2 = upd_obj k (\<lambda>st. st\<lparr>numWritten := numWritten st + 1,
          write_log := write_log st @ take n b\<rparr>) s1 in
        (case e of Some x \<Rightarrow> [((n0 + n, Some x), s2)] | None \<Rightarrow> write_chunks late k (n0 + n) bs s2))"
    by auto
  define s2 where "s2 = upd_obj k (\<lambda>st. st\<lparr>numWritten := numWritten st + 1, write_log := write_log st @ take n b\<rparr>) s1"
  note core = writeFrameInternal_core [OF w]
  have k: "k < length (objs s1)" "k < length (objs s2)" "config s2 = config s" "objs s1 = objs s"
    using core Cons.prems(2) by (simp_all add: same_core_def s2_def)
  have u: "used s2 = used s"
    using used_update [OF k(1)] k(4) by (simp add: s2_def used_def)
  have "stid (objs s ! k) \<in> set (used s)" using Cons.prems(2) by (simp add: used_def)
  then have "frame_ok s ?f" using Cons.prems(3) by (simp add: frame_ok_def newFrame_def)
  from writeFrameInternal_frames [OF w this] have "frames_sent s s2" by (simp add: frames_sent_def s2_def)
  moreover have "keeps s1 s2" unfolding s2_def by (rule keeps_upd [OF k(1)]) (simp_all add: content_def)
  then have kp: "keeps s s2" by (rule keeps_trans [OF writeFrameInternal_keeps [OF w]])
  show ?case
  proof (cases e)
    case None
    with r s2_def have "(r, s') \<in> set (write_chunks late k (n0 + n) bs s2)" by simp
    from Cons.IH [OF this k(2)] Cons.prems(3) have "frames_sent s2 s'" "keeps s2 s'" by simp_all
    with \<open>frames_sent s s2\<close> kp u k(3) show ?thesis by (auto intro: frames_sent_trans keeps_trans)
  next
    case (Some x)
    with r s2_def have "s' = s2" by simp
    with \<open>frames_sent s s2\<close> kp show ?thesis by simp
  qed
qed

definition frame_size_ok :: "session \<Rightarrow> bool" where
  "frame_size_ok s \<longleftrightarrow> MaxFrameSize (config s) \<le> 65535"

lemma stream_write_effect:
  assumes "(r, s') \<in> set (stream_write now b k s)" "k < length (objs s)" "frame_size_ok s"
  shows "frames_sent s s' \<and> keeps s s'"
proof (cases "sdie (objs s ! k)")
  case True
  with assms(1) show ?thesis by (simp add: stream_write_def frames_sent_same keeps_same)
next
  case False
  have "\<forall>c \<in> set (chunks (nat (MaxFrameSize (config s))) b). c \<noteq> [] \<and> length c \<le> 65535"
    using chunks_size assms(3) unfolding frame_size_ok_def by fastforce
  with assms(1,2) False write_chunks_effect show ?thesis by (auto simp: stream_write_def)
qed

text \<open>Reading moves data from the buffers to the log.\<close>

lemma content_take_block: "content (snd (take_block n st)) = content st" "stid (snd (take_block n st)) = stid st"
  by (auto simp: take_block_def content_def split: list.split)

lemma content_fields [simp]:
  "content (st\<lparr>parked := b\<rparr>) = content st" "content (st\<lparr>readEvent := b\<rparr>) = content st"
  "content (st\<lparr>finEvent := b\<rparr>) = content st" "content (st\<lparr>sdie := b\<rparr>) = content st"
  "content (st\<lparr>readDeadline := d\<rparr>) = content st" "content (st\<lparr>writeDeadline := d\<rparr>) = content st"
  by (simp_all add: content_def)

lemma keeps_core_upd:
  "keeps s t \<Longrightarrow> objs u = objs t \<Longrightarrow> streams u = streams t \<Longrightarrow> inbuf u = inbuf t \<Longrightarrow> recv_done u = recv_done t
     \<Longrightarrow> client u = client t \<Longrightarrow> keeps s u"
  using keeps_trans keeps_same by blast

lemma try_read_effect:
  assumes "(r, s') \<in> set (try_read n k s)" "k < length (objs s)"
  shows "outbox s' = outbox s \<and> keeps s s'"
proof -
  have "keeps s (unpark k s)" unfolding unpark_def by (rule keeps_upd [OF assms(2)]) simp_all
  moreover have "keeps s (upd_obj k (\<lambda>st. (snd (take_block n st))\<lparr>parked := False\<rparr>) s)"
    by (rule keeps_upd [OF assms(2)]) (simp_all add: content_take_block)
  then have "keeps s (snd (read_block n k s))"
    by (rule keeps_core_upd) (simp_all add: read_block_def Let_def returnTokens_def)
  ultimately show ?thesis
    using assms(1) by (auto simp: try_read_def prod_eq_iff unpark_def read_block_def Let_def returnTokens_def split: if_splits)
qed

lemma stream_read_effect:
  assumes "(r, s') \<in> set (stream_read now n k s)" "k < length (objs s)"
  shows "outbox s' = outbox s \<and> keeps s s'"
proof -
  let ?t = "upd_obj k (\<lambda>st. st\<lparr>readEvent := False\<rparr>) s"
  have t: "keeps s ?t" "keeps s (unpark k s)" "outbox (unpark k s) = outbox s" "k < length (objs ?t)"
    unfolding unpark_def using assms(2) by (auto intro!: keeps_upd)
  with assms try_read_effect [of r s' n k ?t] try_read_effect [of r s' n k s] show ?thesis
    by (auto simp: stream_read_def intro: keeps_trans split: if_splits)
qed

section \<open>Closing\<close>

lemma prefix_closed_content: "prefix (content (st\<lparr>buffers := []\<rparr>)) (content st)"
  by (simp add: content_def)

lemma streamClosed_effect:
  assumes "session_inv s"
  shows "outbox (streamClosed i s) = outbox s \<and> keeps s (streamClosed i s)"
proof (cases "map_of (streams s) i")
  case None
  then show ?thesis by (simp add: streamClosed_def keeps_same)
next
  case (Some k)
  let ?u = "upd_obj k (\<lambda>st. st\<lparr>buffers := []\<rparr>) s"
  from Some assms have k: "k < length (objs s)" "stid (objs s ! k) = i"
    by (auto simp: session_inv_def map_ok_def dest: map_of_SomeD)
  have t: "objs (streamClosed i s) = objs ?u" "streams (streamClosed i s) = alist_del i (streams s)"
    "inbuf (streamClosed i s) = inbuf s" "recv_done (streamClosed i s) = recv_done s" "client (streamClosed i s) = client s" "outbox (streamClosed i s) = outbox s"
    using Some by (simp_all add: streamClosed_def Let_def)
  have "kept s (streamClosed i s) j" if "j < length (objs s)" for j
  proof (cases "j = k")
    case True
    with k t show ?thesis by (simp add: kept_def prefix_closed_content alist_del_def)
  next
    case False
    with t show ?thesis by (auto simp: kept_def alist_del_def)
  qed
  with t show ?thesis by (simp add: keeps_def)
qed

lemma Stream_Close_effect:
  assumes "(e, s') \<in> set (Stream_Close k s)" "k < length (objs s)" "session_inv s"
  shows "frames_sent s s' \<and> keeps s s'"
proof (cases "sdie (objs s ! k)")
  case True
  with assms(1) show ?thesis by (simp add: Stream_Close_def frames_sent_same keeps_same)
next
  case False
  let ?i = "stid (objs s ! k)" and ?u = "upd_obj k (\<lambda>st. st\<lparr>sdie := True\<rparr>) s"
  from assms(1) False obtain r s2 where w: "(r, s2) \<in> set (writeFrame (newFrame (ver_byte s) cmdFIN ?i) ?u)"
    and s': "s' = streamClosed ?i s2"
    by (auto simp: Stream_Close_def Let_def)
  note w = w [unfolded writeFrame_def]
  have inv: "session_inv s2"
    using same_core_inv [OF writeFrameInternal_core [OF w]] session_inv_update [OF assms(3,2)] by simp
  have u: "ver_byte ?u = ver_byte s" "used ?u = used s"
    using used_update [OF assms(2)] by (simp_all add: ver_byte_def)
  have "frame_ok ?u (newFrame (ver_byte s) cmdFIN ?i)" by (simp add: frame_ok_def newFrame_def u)
  from writeFrameInternal_frames [OF w this] have "frames_sent ?u s2" .
  then have "frames_sent s s2" using u by (simp add: frames_sent_def frame_ok_def)
  moreover have "keeps s ?u" by (rule keeps_upd [OF assms(2)]) simp_all
  then have "keeps s s2" by (rule keeps_trans [OF _ writeFrameInternal_keeps [OF w]])
  ultimately show ?thesis
    using streamClosed_effect [OF inv, of ?i] by (auto simp: s' frames_sent_def intro: keeps_trans)
qed

lemma Session_Close_effect:
  assumes "session_inv s"
  shows "outbox (snd (Session_Close s)) = outbox s \<and> keeps s (snd (Session_Close s))"
proof -
  have "\<forall>k \<in> set (map snd (streams s)). k < length (objs s)"
    using assms by (auto simp: session_inv_def map_ok_def)
  from close_objs_nth [OF this] have "j < length (objs s) \<Longrightarrow> kept s (snd (Session_Close s)) j" for j
    by (simp add: Session_Close_def kept_def)
  with close_objs_nth [OF \<open>\<forall>k \<in> set (map snd (streams s)). k < length (objs s)\<close>] show ?thesis
    by (simp add: Session_Close_def keeps_def)
qed

section \<open>Opening\<close>

lemma OpenStream_effect:
  assumes "(r, s') \<in> set (OpenStream s)" "session_inv s" "client s"
  shows "(\<exists>fs. sent s s' fs) \<and> (keeps s s' \<or> opens s s')"
proof (cases "die s \<or> goAway s \<or> nextStreamID s + 2 = (nextStreamID s + 2) mod 2")
  case True
  with assms(1) have "outbox s' = outbox s \<and> keeps s s'"
    by (auto simp: OpenStream_def IsClosed_def Let_def keeps_same split: if_splits)
  then show ?thesis using frames_sent_sent frames_sent_same by blast
next
  case False
  define i where "i = nextStreamID s + 2"
  let ?t = "s\<lparr>nextStreamID := i\<rparr>" and ?f = "newFrame (ver_byte s) cmdSYN i"
  have odd: "odd (unat (nextStreamID s))" using assms(2,3) by (simp add: session_inv_def ids_ok_def)
  from next_id_larger [OF odd] False have lt: "nextStreamID s < i" by (simp add: i_def)
  from assms(1) False obtain n e s2 where w: "((n, e), s2) \<in> set (writeFrame ?f ?t)"
    and r: "(r, s') \<in> set (case e of Some x \<Rightarrow> [(Inl x, s2)] | None \<Rightarrow> register_stream i s2)"
    by (auto simp: OpenStream_def IsClosed_def Let_def simp flip: i_def)
  note w = w [unfolded writeFrame_def]
  from writeFrameInternal_core [OF w] writeFrameInternal_sent [OF w]
  have s2: "objs s2 = objs s" "streams s2 = streams s" "inbuf s2 = inbuf s" "recv_done s2 = recv_done s" "client s2 = client s"
    "nextStreamID s2 = i" "outbox s2 = outbox s \<or> outbox s2 = outbox s @ [?f]"
    by (simp_all add: same_core_def)
  from r have s': "s' = s2 \<or> s' = s2\<lparr>objs := objs s2 @ [newStream i], streams := alist_put i (length (objs s2)) (streams s2)\<rparr>"
    by (auto simp: register_stream_def Let_def split: option.splits if_splits)
  have "syn_ok s s' ?f" using s' s2 False assms(3) lt by (auto simp: syn_ok_def newFrame_def)
  moreover have "outbox s' = outbox s \<or> outbox s' = outbox s @ [?f]" using s' s2 by auto
  ultimately have "\<exists>fs. sent s s' fs" by (fastforce simp: sent_def)
  moreover have "s' = s2 \<Longrightarrow> keeps s s'" using s2 by (simp add: keeps_same)
  moreover have "s' \<noteq> s2 \<Longrightarrow> opens s s'" using s' s2 False assms(3) lt by (auto simp: opens_def)
  ultimately show ?thesis by blast
qed

section \<open>Every step but those of the receive loop\<close>

lemma conn_step_effect:
  assumes "conn_step s s'" "length (inbuf s') \<le> length (inbuf s)"
  shows "outbox s' = outbox s \<and> keeps s s'"
  using assms by cases (auto simp: keeps_same)

lemma session_step_effect:
  assumes "session_step s s'" "length (inbuf s') \<le> length (inbuf s)" "session_inv s" "frame_size_ok s"
  shows "((\<exists>fs. sent s s' fs) \<and> (keeps s s' \<or> opens s s')) \<or> s' \<in> set (recv_step s)"
proof -
  have same: ?thesis if "outbox s' = outbox s \<and> keeps s s'" using that frames_sent_sent frames_sent_same by blast
  have frames: ?thesis if "frames_sent s s' \<and> keeps s s'" using that frames_sent_sent by blast
  show ?thesis
    using assms(1)
  proof cases
    case connection
    with conn_step_effect assms(2) show ?thesis by (intro same) blast
  next
    case (open_stream r)
    with OpenStream_effect assms(3) show ?thesis by blast
  next
    case (accept_stream r)
    then have "outbox s' = outbox s \<and> keeps s s'" by (auto simp: AcceptStream_def keeps_same split: list.splits if_splits)
    then show ?thesis by (rule same)
  next
    case (ping late)
    have "frame_ok s (newFrame (ver_byte s) cmdNOP 0)" by (simp add: frame_ok_def newFrame_def)
    with ping writeFrameInternal_frames writeFrameInternal_keeps show ?thesis
      by (intro frames) (auto simp: keepalive_ping_def split: if_splits)
  next
    case timeout
    with Session_Close_effect [OF assms(3)] show ?thesis
      by (intro same) (auto simp: keepalive_timeout_def keeps_same split: if_splits)
  next
    case (close_session e)
    with Session_Close_effect [OF assms(3)] show ?thesis by (intro same) (metis snd_conv)
  next
    case (close_stream k e)
    with Stream_Close_effect assms(3) show ?thesis by (intro frames) blast
  next
    case (reads k r now n)
    with stream_read_effect show ?thesis by (intro same) blast
  next
    case (read_waits k)
    then have "keeps s s'" by (auto simp: park_def intro!: keeps_upd)
    with read_waits show ?thesis by (intro same) (simp add: park_def)
  next
    case (writes k r now b)
    with stream_write_effect assms(4) show ?thesis by (intro frames) blast
  next
    case (read_deadline k t)
    then have "keeps s s'" by (auto simp: SetReadDeadline_def notify_stream_def intro!: keeps_upd)
    with read_deadline show ?thesis by (intro same) (simp add: SetReadDeadline_def)
  next
    case (write_deadline k t)
    then have "keeps s s'" by (auto simp: SetWriteDeadline_def intro!: keeps_upd)
    with write_deadline show ?thesis by (intro same) (simp add: SetWriteDeadline_def)
  qed blast
qed

section \<open>What the receive loop does\<close>

text \<open>The frames of a peer: of the right version, short enough, and with data exactly in a \<^verbatim>\<open>cmdPSH\<close>.\<close>

definition plain :: "byte \<Rightarrow> Frame \<Rightarrow> bool" where
  "plain v f \<longleftrightarrow> ver f = v \<and> length (data f) \<le> 65535
     \<and> (cmd f = cmdPSH \<and> data f \<noteq> [] \<or> (cmd f = cmdNOP \<or> cmd f = cmdFIN \<or> cmd f = cmdSYN) \<and> data f = [])"

text \<open>The next state of a session that takes the frame \<open>f\<close> off its connection, of which \<open>u\<close> remains.\<close>

definition takes :: "Frame \<Rightarrow> byte list \<Rightarrow> session \<Rightarrow> session \<Rightarrow> bool" where
  "takes f u r r' \<longleftrightarrow> (let r1 = r\<lparr>inbuf := u, dataReady := True\<rparr> in
       cmd f = cmdNOP \<and> r' = r1 \<or> cmd f = cmdSYN \<and> recv_syn (sid f) r1 = Next r'
     \<or> cmd f = cmdFIN \<and> r' = recv_fin (sid f) r1 \<or> cmd f = cmdPSH \<and> r' = recv_psh (sid f) (data f) r1)"

lemma wire_length: "headerSize \<le> length (wire (f # fs))"
  by (simp add: length_frame_bytes)

lemma hdr_append:
  assumes "headerSize \<le> length h"
  shows "hdr_Version (h @ w) = hdr_Version h" "hdr_Cmd (h @ w) = hdr_Cmd h" "hdr_Length (h @ w) = hdr_Length h"
    "hdr_StreamID (h @ w) = hdr_StreamID h"
  using assms by (auto simp: hdr_defs nth_append headerSize_def)

lemma first_header:
  assumes "headerSize \<le> length h" "h @ w = wire (f # fs)" "length (data f) \<le> 65535"
  shows "hdr_Version h = ver f" "hdr_Cmd h = cmd f" "unat (hdr_Length h) = length (data f)" "hdr_StreamID h = sid f"
    "drop headerSize h @ w = data f @ wire fs"
proof -
  have h: "h @ w = frame_bytes f @ wire fs" using assms(2) by simp
  note eqs = hdr_append [OF assms(1), of w, unfolded h]
  show "hdr_Version h = ver f" "hdr_Cmd h = cmd f" "hdr_StreamID h = sid f" "unat (hdr_Length h) = length (data f)"
    using eqs hdr_frame_bytes [of f "wire fs"] hdr_Length_small [OF assms(3), of "wire fs"] by simp_all
  have "drop headerSize (h @ w) = data f @ wire fs" unfolding h by (rule drop_headerSize_frame_bytes)
  then show "drop headerSize h @ w = data f @ wire fs" using assms(1) by simp
qed

lemma recv_frame_takes:
  assumes "recv_frame r = Next r'" "inbuf r @ w = wire pend" "\<forall>f \<in> set pend. plain (ver_byte r) f"
  shows "\<exists>f fs u. pend = f # fs \<and> u @ w = wire fs \<and> takes f u r r'"
proof -
  have l: "headerSize \<le> length (inbuf r)" using assms(1) by (auto simp: recv_frame_def Let_def split: if_splits)
  with assms(2) obtain f fs where p: "pend = f # fs" by (cases pend) (auto simp: headerSize_def)
  with assms(3) have f: "plain (ver_byte r) f" "length (data f) \<le> 65535" by (simp_all add: plain_def)
  let ?rest = "drop headerSize (inbuf r)"
  note H = first_header [OF l assms(2) [unfolded p] f(2)]
  note st = assms(1) [unfolded recv_frame_def Let_def H(1-4)]
  have cases: "cmd f = cmdPSH \<and> 0 < length (data f) \<or> (cmd f = cmdNOP \<or> cmd f = cmdFIN \<or> cmd f = cmdSYN) \<and> data f = []"
    and v: "ver f = ver_byte r" using f(1) by (auto simp: plain_def)
  show ?thesis
  proof (cases "cmd f = cmdPSH")
    case True
    with st l v cases have "length (data f) \<le> length ?rest"
      and r': "r' = recv_psh (sid f) (take (length (data f)) ?rest)
                 (r\<lparr>dataReady := True, inbuf := drop (length (data f)) ?rest\<rparr>)"
      by (auto simp: cmd_defs not_less split: if_splits)
    then have "take (length (data f)) ?rest = data f" "drop (length (data f)) ?rest @ w = wire fs"
      using H(5) by (metis append_eq_append_conv_if append_take_drop_id append_assoc)+
    moreover have "\<And>u. r\<lparr>dataReady := True, inbuf := u\<rparr> = r\<lparr>inbuf := u, dataReady := True\<rparr>" by simp
    ultimately show ?thesis using p r' True
      by (intro exI [of _ f] exI [of _ fs] exI [of _ "drop (length (data f)) ?rest"]) (simp only: takes_def Let_def, simp)
  next
    case False
    with cases have d: "data f = []" "cmd f = cmdNOP \<or> cmd f = cmdFIN \<or> cmd f = cmdSYN" by auto
    with st l v have "takes f ?rest r r'" by (auto simp: takes_def cmd_defs split: if_splits)
    moreover have "?rest @ w = wire fs" using H(5) d by simp
    ultimately show ?thesis using p by blast
  qed
qed

text \<open>What it means for the streams: the data of a frame goes to the stream of its id, if there is one.\<close>

definition gains :: "Frame \<Rightarrow> session \<Rightarrow> session \<Rightarrow> nat \<Rightarrow> bool" where
  "gains f r r' j \<longleftrightarrow> stid (objs r' ! j) = stid (objs r ! j)
     \<and> ((stid (objs r ! j), j) \<in> set (streams r') \<longleftrightarrow> (stid (objs r ! j), j) \<in> set (streams r))
     \<and> content (objs r' ! j) = content (objs r ! j)
         @ (if (stid (objs r ! j), j) \<in> set (streams r) then psh (stid (objs r ! j)) [f] else [])"

definition taken :: "Frame \<Rightarrow> session \<Rightarrow> session \<Rightarrow> bool" where
  "taken f r r' \<longleftrightarrow> client r' = client r \<and> outbox r' = outbox r \<and> recv_done r' = recv_done r
     \<and> (length (objs r') = length (objs r)
        \<or> cmd f = cmdSYN \<and> length (objs r') = Suc (length (objs r)) \<and> objs r' ! length (objs r) = newStream (sid f))
     \<and> (\<forall>j < length (objs r). gains f r r' j)"

lemma put_other: "j \<noteq> k \<Longrightarrow> i \<notin> fst ` set m \<Longrightarrow> (x, j) \<in> set (alist_put i k m) \<longleftrightarrow> (x, j) \<in> set m"
  by (auto simp: alist_put_new)

lemma psh_one [simp]: "cmd f \<noteq> cmdPSH \<Longrightarrow> psh i [f] = []"
  by simp

lemma taken_same:
  "objs r' = objs r \<Longrightarrow> streams r' = streams r \<Longrightarrow> outbox r' = outbox r \<Longrightarrow> recv_done r' = recv_done r
     \<Longrightarrow> client r' = client r \<Longrightarrow> cmd f \<noteq> cmdPSH \<Longrightarrow> taken f r r'"
  by (simp add: taken_def gains_def)

lemma recv_syn_taken:
  assumes "recv_syn (sid f) r = Next r'" "cmd f = cmdSYN" "session_inv r"
  shows "taken f r r'"
proof (cases "map_of (streams r) (sid f)")
  case None
  let ?u = "add_stream (sid f) r"
  from assms(3) have small: "k < length (objs r)" if "(i, k) \<in> set (streams r)" for i k
    using that by (auto simp: session_inv_def map_ok_def)
  from None have new: "sid f \<notin> fst ` set (streams r)" by (simp add: map_of_eq_None_iff)
  from assms(1) None have r': "objs r' = objs ?u" "streams r' = streams ?u" "outbox r' = outbox r" "recv_done r' = recv_done r" "client r' = client r"
    by (auto simp: recv_syn_def Let_def add_stream_def split: if_splits)
  have "gains f r r' j" if "j < length (objs r)" for j
    using that r' new assms(2)
    by (simp add: gains_def add_stream_def nth_append put_other cmd_defs)
  with r' assms(2) show ?thesis by (simp add: taken_def add_stream_def)
next
  case (Some k)
  with assms(1) have "r' = r" by (simp add: recv_syn_def)
  with assms(2) show ?thesis by (simp add: taken_same cmd_defs)
qed

lemma taken_upd:
  assumes "session_inv r" "map_of (streams r) i = Some k" "content (g (objs r ! k)) = content (objs r ! k) @ psh i [f]"
    and "stid (g (objs r ! k)) = stid (objs r ! k)" "\<And>x. x \<noteq> i \<Longrightarrow> psh x [f] = []"
  shows "taken f r (upd_obj k g r)"
proof -
  from assms(1,2) have k: "k < length (objs r)" "stid (objs r ! k) = i" "(i, k) \<in> set (streams r)"
    by (auto simp: session_inv_def map_ok_def dest: map_of_SomeD)
  have "gains f r (upd_obj k g r) j" if "j < length (objs r)" for j
  proof (cases "j = k")
    case True
    with k assms(3,4) show ?thesis by (simp add: gains_def)
  next
    case False
    have "psh (stid (objs r ! j)) [f] = []" if "(stid (objs r ! j), j) \<in> set (streams r)"
    proof (rule assms(5), rule notI)
      assume "stid (objs r ! j) = i"
      with that assms(1) have "map_of (streams r) i = Some j"
        by (auto simp: session_inv_def map_ok_def)
      with assms(2) False show False by simp
    qed
    with False show ?thesis by (simp add: gains_def)
  qed
  then show ?thesis by (simp add: taken_def)
qed

lemma recv_fin_taken:
  assumes "cmd f = cmdFIN" "session_inv r"
  shows "taken f r (recv_fin i r)"
proof (cases "map_of (streams r) i")
  case (Some k)
  with taken_upd [OF assms(2) Some, of _ f] assms(1) show ?thesis
    by (simp add: recv_fin_def notify_stream_def cmd_defs)
qed (use assms in \<open>simp add: recv_fin_def taken_same cmd_defs\<close>)

lemma recv_psh_taken:
  assumes "cmd f = cmdPSH" "session_inv r"
  shows "taken f r (recv_psh (sid f) (data f) r)"
proof (cases "map_of (streams r) (sid f)")
  case None
  then have "(sid f, j) \<notin> set (streams r)" for j by (simp add: map_of_eq_None_iff) force
  then have "gains f r r j" for j by (auto simp: gains_def)
  with None show ?thesis by (simp add: recv_psh_def taken_def)
next
  case (Some k)
  let ?g = "\<lambda>st. notify_stream (st\<lparr>buffers := buffers st @ [data f]\<rparr>)"
  have "taken f r (upd_obj k ?g r)"
    using assms by (intro taken_upd [OF assms(2) Some]) (simp_all add: notify_stream_def content_def)
  with Some show ?thesis by (simp add: recv_psh_def taken_def gains_def)
qed

lemma takes_taken:
  assumes "takes f u r r'" "session_inv r"
  shows "taken f r r' \<and> inbuf r' = u"
proof -
  let ?r1 = "r\<lparr>inbuf := u, dataReady := True\<rparr>"
  have inv: "session_inv ?r1" using same_core_inv [of r ?r1] assms(2) by (simp add: same_core_def)
  have up: "taken f ?r1 r' \<Longrightarrow> taken f r r'" by (simp add: taken_def gains_def)
  from assms(1) consider "cmd f = cmdNOP" "r' = ?r1" | "cmd f = cmdSYN" "recv_syn (sid f) ?r1 = Next r'"
    | "cmd f = cmdFIN" "r' = recv_fin (sid f) ?r1" | "cmd f = cmdPSH" "r' = recv_psh (sid f) (data f) ?r1"
    by (auto simp: takes_def Let_def)
  then show ?thesis
  proof cases
    case 1 then show ?thesis by (simp add: taken_same cmd_defs)
  next
    case 2
    with recv_syn_taken [OF 2(2,1) inv] up show ?thesis
      by (auto simp: recv_syn_def Let_def split: option.splits if_splits)
  next
    case 3
    with recv_fin_taken [OF 3(1) inv] up show ?thesis by (simp add: recv_fin_def split: option.split)
  next
    case 4
    with recv_psh_taken [OF 4(1) inv] up show ?thesis by (simp add: recv_psh_def split: option.split)
  qed
qed

lemma recv_step_cases:
  assumes "r' \<in> set (recv_step r)"
  shows "\<not> recv_done r \<and> (recv_frame r = Next r' \<or> r' = recv_stop r \<or> (\<exists>e. r' = recv_stop (notifyReadError e r)))"
  using assms by (auto simp: recv_step_def split: if_splits received.splits)

lemma recv_step_outbox:
  assumes "s' \<in> set (recv_step s)"
  shows "outbox s' = outbox s"
proof -
  have "outbox s' = outbox s" if "recv_frame s = Next s'"
    using recv_frame_cases [OF that]
    by (auto simp: recv_stop_def notifyProtoError_def recv_syn_def recv_fin_def recv_psh_def Let_def
        split: option.splits if_splits)
  with recv_step_cases [OF assms] show ?thesis by (auto simp: recv_stop_def notifyReadError_def)
qed

section \<open>Stream ids\<close>

text \<open>A session that runs out of ids says so before it could use one again.\<close>

definition ids_move :: "session \<Rightarrow> session \<Rightarrow> bool" where
  "ids_move s s' \<longleftrightarrow> (goAway s \<longrightarrow> goAway s') \<and> (goAway s' \<or> nextStreamID s \<le> nextStreamID s')"

lemma ids_same: "goAway s' = goAway s \<Longrightarrow> nextStreamID s' = nextStreamID s \<Longrightarrow> ids_move s s'"
  by (simp add: ids_move_def)

lemma ids_trans: "ids_move s t \<Longrightarrow> ids_move t u \<Longrightarrow> ids_move s u"
  by (auto simp: ids_move_def)

lemma core_ids: "same_core s s' \<Longrightarrow> ids_move s s'"
  by (simp add: ids_same same_core_def)

lemma upd_ids: "ids_move s (upd_obj k g s)"
  by (simp add: ids_same upd_obj_def)

lemma streamClosed_ids: "ids_move s (streamClosed i s)"
  by (auto simp: streamClosed_def Let_def upd_obj_def intro!: ids_same split: option.split)

lemma OpenStream_ids:
  assumes "(r, s') \<in> set (OpenStream s)" "session_inv s" "client s"
  shows "ids_move s s'"
proof (cases "die s \<or> goAway s \<or> nextStreamID s + 2 = (nextStreamID s + 2) mod 2")
  case True
  with assms(1) show ?thesis by (auto simp: OpenStream_def IsClosed_def Let_def ids_move_def split: if_splits)
next
  case False
  define i where "i = nextStreamID s + 2"
  have odd: "odd (unat (nextStreamID s))" using assms(2,3) by (simp add: session_inv_def ids_ok_def)
  from assms(1) False obtain n e s2
    where w: "((n, e), s2) \<in> set (writeFrameInternal (newFrame (ver_byte s) cmdSYN i) False (s\<lparr>nextStreamID := i\<rparr>))"
    and r: "(r, s') \<in> set (case e of Some x \<Rightarrow> [(Inl x, s2)] | None \<Rightarrow> register_stream i s2)"
    by (auto simp: OpenStream_def IsClosed_def writeFrame_def Let_def simp flip: i_def)
  from r have "nextStreamID s' = nextStreamID s2" by (auto simp: register_stream_def Let_def split: option.splits if_splits)
  also have "\<dots> = i" using writeFrameInternal_core [OF w] by (simp add: same_core_def)
  finally show ?thesis using next_id_larger [OF odd] False by (auto simp: ids_move_def i_def)
qed

lemma write_chunks_ids: "(r, s') \<in> set (write_chunks late k n bs s) \<Longrightarrow> ids_move s s'"
proof (induction bs arbitrary: n s)
  case (Cons b bs)
  have "ids_move s (upd_obj k g t)" if "same_core s t" for g t
    using that by (simp add: same_core_def upd_obj_def ids_same)
  with Cons show ?case
    by (fastforce simp: Let_def dest!: writeFrameInternal_core intro: ids_trans split: option.splits)
qed (simp add: ids_same)

lemma recv_step_ids:
  assumes "s' \<in> set (recv_step s)"
  shows "ids_move s s'"
proof -
  have "ids_move s s'" if "recv_frame s = Next s'"
    using recv_frame_cases [OF that]
    by (auto simp: recv_stop_def notifyProtoError_def recv_syn_def recv_fin_def recv_psh_def upd_obj_def Let_def
        intro!: ids_same split: option.splits if_splits)
  moreover have "ids_move s (recv_stop s)" "ids_move s (recv_stop (notifyReadError e s))" for e
    by (simp_all add: recv_stop_def notifyReadError_def ids_same)
  ultimately show ?thesis using recv_step_cases [OF assms] by metis
qed

lemma stream_read_ids: "(r, s') \<in> set (stream_read now n k s) \<Longrightarrow> ids_move s s'"
  by (auto simp: stream_read_def try_read_def unpark_def read_block_def returnTokens_def upd_obj_def Let_def
      intro!: ids_same split: if_splits)

lemma Stream_Close_ids:
  assumes "(e, s') \<in> set (Stream_Close k s)"
  shows "ids_move s s'"
proof (cases "sdie (objs s ! k)")
  case True
  with assms show ?thesis by (simp add: Stream_Close_def ids_same)
next
  case False
  let ?u = "upd_obj k (\<lambda>st. st\<lparr>sdie := True\<rparr>) s"
  from assms False obtain r s2 where w: "(r, s2) \<in> set (writeFrame (newFrame (ver_byte s) cmdFIN (stid (objs s ! k))) ?u)"
    and s': "s' = streamClosed (stid (objs s ! k)) s2" by (auto simp: Stream_Close_def Let_def)
  from writeFrameInternal_core [OF w [unfolded writeFrame_def]] have "ids_move ?u s2" by (rule core_ids)
  with s' show ?thesis by (auto intro: ids_trans [OF upd_ids] ids_trans [OF _ streamClosed_ids])
qed

lemma session_step_ids: "session_step s s' \<Longrightarrow> session_inv s \<Longrightarrow> ids_move s s'"
proof (induction rule: session_step.induct)
  case (connection s s')
  then show ?case by cases (simp_all add: ids_same)
next
  case (accept_stream r s' s)
  then show ?case by (auto simp: AcceptStream_def intro!: ids_same split: list.splits if_splits)
next
  case (ping s' late s)
  then show ?case by (auto simp: keepalive_ping_def dest!: writeFrameInternal_core core_ids split: if_splits)
next
  case (timeout s' s)
  then show ?case by (auto simp: keepalive_timeout_def Session_Close_def intro!: ids_same split: if_splits)
next
  case (close_session s e s')
  then show ?case by (auto simp: Session_Close_def intro!: ids_same split: if_splits)
next
  case (writes k s r s' now b)
  then show ?case by (auto simp: stream_write_def ids_same dest: write_chunks_ids split: if_splits)
qed (auto intro: OpenStream_ids Stream_Close_ids recv_step_ids stream_read_ids upd_ids
    simp: park_def SetReadDeadline_def SetWriteDeadline_def notify_stream_def)

section \<open>The two halves of OpenStream\<close>

text \<open>
  \<^verbatim>\<open>OpenStream\<close> up to the point where the \<^verbatim>\<open>cmdSYN\<close> is on the connection. The receive loop may run before the
  second half, \<open>register_stream\<close>, puts the stream into the map.
\<close>

definition OpenStream_sends :: "session \<Rightarrow> (u32 res \<times> session) list" where
  "OpenStream_sends s =
     (if IsClosed s then [(Inl ErrClosedPipe, s)]
      else if goAway s then [(Inl ErrGoAway, s)]
      else let i = nextStreamID s + 2; s1 = s\<lparr>nextStreamID := i\<rparr> in
        (if i = i mod 2 then [(Inl ErrGoAway, s1\<lparr>goAway := True\<rparr>)]
         else map (\<lambda>((n, e), s2). (case e of Some x \<Rightarrow> Inl x | None \<Rightarrow> Inr i, s2))
              (writeFrame (newFrame (ver_byte s) cmdSYN i) s1)))"

lemma OpenStream_halves:
  "OpenStream s = concat (map (\<lambda>(r, s1). case r of Inl e \<Rightarrow> [(Inl e, s1)] | Inr i \<Rightarrow> register_stream i s1) (OpenStream_sends s))"
  by (auto simp: OpenStream_def OpenStream_sends_def Let_def comp_def intro!: arg_cong [where f = concat]
      split: option.split)

section \<open>What the writers were told\<close>

text \<open>Every byte that a \<^verbatim>\<open>Write\<close> reported as written is among those sent, in the order of the writes.\<close>

definition acked :: "session \<Rightarrow> bool" where
  "acked s \<longleftrightarrow> (\<forall>st \<in> set (objs s). subseq (write_log st) (psh (stid st) (outbox s)))"

lemma subseq_longer: "subseq xs ys \<Longrightarrow> subseq xs (ys @ zs)"
  using list_emb_append_mono [of "(=)" xs ys "[]" zs] by simp

definition logs :: "session \<Rightarrow> session \<Rightarrow> bool" where
  "logs s s' \<longleftrightarrow> (\<forall>st' \<in> set (objs s'). write_log st' = [] \<or> (\<exists>st \<in> set (objs s). write_log st' = write_log st \<and> stid st' = stid st))
     \<and> (\<exists>fs. outbox s' = outbox s @ fs)"

lemma logs_acked:
  assumes "logs s s'" "acked s"
  shows "acked s'"
proof -
  from assms(1) obtain fs where "outbox s' = outbox s @ fs" by (auto simp: logs_def)
  with assms show ?thesis by (force simp: acked_def logs_def intro: subseq_longer)
qed

lemma logs_same: "objs s' = objs s \<Longrightarrow> outbox s' = outbox s @ fs \<Longrightarrow> logs s s'"
  by (auto simp: logs_def)

lemma logs_bucket: "logs s (t\<lparr>bucket := b\<rparr>) = logs s t"
  by (simp add: logs_def)

lemma logs_trans: "logs s t \<Longrightarrow> logs t u \<Longrightarrow> logs s u"
  unfolding logs_def by (metis append_assoc)

lemma logs_upd:
  assumes "stid (g (objs s ! k)) = stid (objs s ! k)" "write_log (g (objs s ! k)) = write_log (objs s ! k)"
  shows "logs s (upd_obj k g s)"
proof (cases "k < length (objs s)")
  case True
  with assms nth_mem [OF True] show ?thesis
    by (auto simp: logs_def upd_obj_def dest!: set_update_subset_insert [THEN subsetD])
qed (auto simp: upd_obj_def logs_def list_update_beyond)

lemma writeFrameInternal_logs: "(r, s') \<in> set (writeFrameInternal f late s) \<Longrightarrow> logs s s'"
  using writeFrameInternal_core [of r s' f late s] writeFrameInternal_sent [of r s' f late s]
  by (auto simp: same_core_def logs_def)

lemma streamClosed_logs: "logs s (streamClosed i s)"
proof -
  have "logs s (upd_obj k (\<lambda>st. st\<lparr>buffers := []\<rparr>) s)" for k by (rule logs_upd) simp_all
  then show ?thesis by (auto simp: streamClosed_def Let_def logs_def upd_obj_def split: option.split)
qed

lemma Stream_Close_logs:
  assumes "(e, s') \<in> set (Stream_Close k s)"
  shows "logs s s'"
proof (cases "sdie (objs s ! k)")
  case True
  with assms show ?thesis by (simp add: Stream_Close_def logs_same)
next
  case False
  let ?u = "upd_obj k (\<lambda>st. st\<lparr>sdie := True\<rparr>) s"
  from assms False obtain r s2 where w: "(r, s2) \<in> set (writeFrame (newFrame (ver_byte s) cmdFIN (stid (objs s ! k))) ?u)"
    and s': "s' = streamClosed (stid (objs s ! k)) s2" by (auto simp: Stream_Close_def Let_def)
  have "logs s ?u" by (rule logs_upd) simp_all
  from logs_trans [OF this writeFrameInternal_logs [OF w [unfolded writeFrame_def]]] show ?thesis
    unfolding s' by (rule logs_trans [OF _ streamClosed_logs])
qed

lemma write_chunks_acked:
  "(r, s') \<in> set (write_chunks late k n0 bs s) \<Longrightarrow> acked s \<Longrightarrow> acked s'"
proof (induction bs arbitrary: n0 s)
  case (Cons b bs)
  let ?f = "(newFrame (ver_byte s) cmdPSH (stid (objs s ! k)))\<lparr>data := b\<rparr>"
  have step: "acked (upd_obj k (\<lambda>st. st\<lparr>numWritten := numWritten st + 1, write_log := write_log st @ take n b\<rparr>) t)"
    if "((n, e), t) \<in> set (writeFrameInternal ?f late s)" for n e t
  proof -
    from writeFrameInternal_core [OF that] have o: "objs t = objs s" by (simp add: same_core_def)
    have "(n = 0 \<and> (\<exists>fs. outbox t = outbox s @ fs)) \<or> (n = length b \<and> outbox t = outbox s @ [?f])"
      using that by (auto simp: writeFrameInternal_def writeFrame_now_def Let_def notifyWriteError_def split: option.splits if_splits)
    then obtain fs where out: "outbox t = outbox s @ fs" "n = 0 \<or> n = length b \<and> fs = [?f]" by auto
    let ?u = "upd_obj k (\<lambda>st. st\<lparr>numWritten := numWritten st + 1, write_log := write_log st @ take n b\<rparr>) t"
    have "subseq (write_log (objs ?u ! j)) (psh (stid (objs ?u ! j)) (outbox ?u))" if "j < length (objs s)" for j
    proof -
      have old: "subseq (write_log (objs s ! j)) (psh (stid (objs s ! j)) (outbox s))"
        using Cons.prems(2) that by (simp add: acked_def)
      with out o that show ?thesis
        by (cases "j = k") (auto simp: newFrame_def intro: subseq_longer list_emb_append_mono)
    qed
    then show ?thesis using o by (auto simp: acked_def in_set_conv_nth)
  qed
  with Cons show ?case by (fastforce simp: Let_def split: option.splits)
qed simp

lemma recv_frame_logs:
  assumes "recv_frame s = Next s'"
  shows "logs s s'"
proof -
  let ?s1 = "s\<lparr>inbuf := drop headerSize (inbuf s), dataReady := True\<rparr>"
  have upd: "logs s (upd_obj k g t)"
    if "objs t = objs s" "outbox t = outbox s" "\<And>st. stid (g st) = stid st \<and> write_log (g st) = write_log st" for k g t
    using that logs_trans [OF logs_same [of t s "[]"] logs_upd [of g t k]] by simp
  from recv_frame_cases [OF assms]
  show ?thesis
    apply (elim disjE conjE)
    subgoal by (simp add: logs_same)
    subgoal by (simp add: logs_same recv_stop_def notifyProtoError_def)
    subgoal by (auto simp: recv_syn_def Let_def logs_def newStream_def split: option.splits if_splits)
    subgoal by (auto simp: recv_fin_def notify_stream_def logs_same intro!: upd split: option.split)
    subgoal by (auto simp: recv_psh_def notify_stream_def logs_same logs_bucket intro!: upd split: option.split)
    subgoal by (simp add: logs_same)
    done
qed

lemma recv_step_logs: "s' \<in> set (recv_step s) \<Longrightarrow> logs s s'"
proof -
  have "logs s (recv_stop s)" "logs s (recv_stop (notifyReadError e s))" for e
    by (auto simp: recv_stop_def notifyReadError_def intro!: logs_same)
  then show "s' \<in> set (recv_step s) \<Longrightarrow> logs s s'" using recv_step_cases recv_frame_logs by metis
qed

lemma try_read_logs: "(r, s') \<in> set (try_read n k s) \<Longrightarrow> logs s s'"
proof -
  have "logs s (upd_obj k (\<lambda>st. (snd (take_block n st))\<lparr>parked := False\<rparr>) s)"
    by (rule logs_upd) (auto simp: take_block_def split: list.split)
  moreover have "logs s (unpark k s)" unfolding unpark_def by (rule logs_upd) simp_all
  ultimately show "(r, s') \<in> set (try_read n k s) \<Longrightarrow> logs s s'"
    by (auto simp: try_read_def read_block_def returnTokens_def Let_def logs_def split: if_splits)
qed

lemma stream_read_logs: "(r, s') \<in> set (stream_read now n k s) \<Longrightarrow> logs s s'"
proof -
  have "logs s (upd_obj k (\<lambda>st. st\<lparr>readEvent := False\<rparr>) s)" by (rule logs_upd) simp_all
  moreover have "logs s (unpark k s)" unfolding unpark_def by (rule logs_upd) simp_all
  ultimately show "(r, s') \<in> set (stream_read now n k s) \<Longrightarrow> logs s s'"
    by (auto simp: stream_read_def dest: try_read_logs intro: logs_trans logs_same split: if_splits)
qed

lemma OpenStream_logs:
  assumes "(r, s') \<in> set (OpenStream s)"
  shows "logs s s'"
proof -
  have reg: "logs t u" if "(x, u) \<in> set (register_stream i t)" for x u i t
    using that by (auto simp: register_stream_def Let_def logs_def newStream_def split: if_splits)
  have "logs s t" if "(x, t) \<in> set (OpenStream_sends s)" for x t
  proof -
    have "logs s u" if "(y, u) \<in> set (writeFrame f (s\<lparr>nextStreamID := i\<rparr>))" for y u f i
      using writeFrameInternal_logs [OF that [unfolded writeFrame_def]] by (simp add: logs_def)
    with that show ?thesis by (auto simp: OpenStream_sends_def Let_def logs_same split: if_splits)
  qed
  note sends = this
  from assms obtain x t where t: "(x, t) \<in> set (OpenStream_sends s)"
    and r: "(r, s') \<in> set (case x of Inl e \<Rightarrow> [(Inl e, t)] | Inr i \<Rightarrow> register_stream i t)"
    unfolding OpenStream_halves by auto
  from r have "s' = t \<or> logs t s'" by (cases x) (auto intro: reg)
  with sends [OF t] show ?thesis by (auto intro: logs_trans)
qed

lemma Session_Close_logs:
  assumes "session_inv s"
  shows "logs s (snd (Session_Close s))"
proof -
  have "\<forall>k \<in> set (map snd (streams s)). k < length (objs s)"
    using assms by (auto simp: session_inv_def map_ok_def)
  from close_objs_nth [OF this] have "\<exists>st \<in> set (objs s). write_log st' = write_log st \<and> stid st' = stid st"
    if "st' \<in> set (close_objs (map snd (streams s)) (objs s))" for st'
    using that unfolding in_set_conv_nth by fastforce
  then show ?thesis by (auto simp: Session_Close_def logs_def)
qed

lemma session_step_acked: "session_step s s' \<Longrightarrow> session_inv s \<Longrightarrow> acked s \<Longrightarrow> acked s'"
proof (induction rule: session_step.induct)
  case (connection s s')
  then show ?case by cases (simp_all add: acked_def)
next
  case (accept_stream r s' s)
  then show ?case by (auto simp: AcceptStream_def acked_def split: list.splits if_splits)
next
  case (ping s' late s)
  then show ?case using logs_acked [OF writeFrameInternal_logs] by (auto simp: keepalive_ping_def split: if_splits)
next
  case (timeout s' s)
  then show ?case using logs_acked [OF Session_Close_logs] by (auto simp: keepalive_timeout_def acked_def split: if_splits)
next
  case (close_session s e s')
  then show ?case using logs_acked [OF Session_Close_logs] by (metis snd_conv)
next
  case (writes k s r s' now b)
  then show ?case by (auto simp: stream_write_def dest: write_chunks_acked split: if_splits)
qed (auto intro: logs_acked OpenStream_logs Stream_Close_logs recv_step_logs stream_read_logs logs_acked [OF logs_upd]
    simp: park_def SetReadDeadline_def SetWriteDeadline_def notify_stream_def)

end
