(* ===== verification/SmuxLink.thy ===== *)
theory SmuxLink
  imports SmuxEffect
begin

text \<open>
  Two smux sessions and the connection between them: what a stream's reader gets is, in order, what the
  stream of the same id sent on the other side, while both sessions open, accept, read, write, close, time
  out and fail as they like. A call of \<^verbatim>\<open>OpenStream\<close> is one step here; what may happen between its two halves is
  the subject of the last section.
\<close>

section \<open>The two sessions\<close>

text \<open>
  A step of one session, at which no bytes come from nowhere: those arrive from the other side only.
\<close>

definition own_step :: "session \<Rightarrow> session \<Rightarrow> bool" where
  "own_step s s' \<longleftrightarrow> session_step s s' \<and> length (inbuf s') \<le> length (inbuf s)"

definition delivered :: "byte list \<Rightarrow> session \<Rightarrow> session" where
  "delivered bs s = s\<lparr>inbuf := inbuf s @ bs\<rparr>"

text \<open>
  \<open>up\<close> and \<open>down\<close> are the bytes under way to the server and to the client. A session that writes a frame puts its
  bytes there.
\<close>

record mux_link =
  cl :: session
  sv :: session
  up :: "byte list"
  down :: "byte list"

definition new_bytes :: "session \<Rightarrow> session \<Rightarrow> byte list" where
  "new_bytes s s' = wire (drop (length (outbox s)) (outbox s'))"

inductive mlink_step :: "mux_link \<Rightarrow> mux_link \<Rightarrow> bool" where
  client_does: "own_step (cl L) s \<Longrightarrow> mlink_step L (L\<lparr>cl := s, up := up L @ new_bytes (cl L) s\<rparr>)"
| server_does: "own_step (sv L) s \<Longrightarrow> mlink_step L (L\<lparr>sv := s, down := down L @ new_bytes (sv L) s\<rparr>)"
| to_server: "mlink_step L (L\<lparr>sv := delivered (take k (up L)) (sv L), up := drop k (up L)\<rparr>)"
| to_client: "mlink_step L (L\<lparr>cl := delivered (take k (down L)) (cl L), down := drop k (down L)\<rparr>)"

inductive mlink_run :: "mux_link \<Rightarrow> mux_link \<Rightarrow> bool" where
  mlink_start: "mlink_run L L"
| mlink_more: "mlink_run L L' \<Longrightarrow> mlink_step L' L'' \<Longrightarrow> mlink_run L L''"

definition new_mlink :: "Config \<Rightarrow> mux_link" where
  "new_mlink c = \<lparr>cl = newSession c True, sv = newSession c False, up = [], down = []\<rparr>"

section \<open>The invariant of the link\<close>

text \<open>
  Of the frames one side has sent, the other has taken some, \<open>sofar\<close>; the bytes of the others are under way or
  waiting. A stream's content is the data of the frames taken, or a prefix of it once the stream has left the map;
  a server's streams were opened by its client, each with an id of its own.
\<close>

definition holds :: "session \<Rightarrow> Frame list \<Rightarrow> nat \<Rightarrow> bool" where
  "holds r sofar j \<longleftrightarrow> (let st = objs r ! j in prefix (content st) (psh (stid st) sofar)
     \<and> (\<not> recv_done r \<and> (stid st, j) \<in> set (streams r) \<longrightarrow> content st = psh (stid st) sofar)
     \<and> (client r \<or> (\<exists>f \<in> set sofar. cmd f = cmdSYN \<and> sid f = stid st)))"

definition flow :: "session \<Rightarrow> session \<Rightarrow> byte list \<Rightarrow> bool" where
  "flow l r w \<longleftrightarrow> (\<exists>sofar pend. outbox l = sofar @ pend \<and> (recv_done r \<or> inbuf r @ w = wire pend)
     \<and> (\<forall>j < length (objs r). holds r sofar j) \<and> distinct (used r))"

lemma flow_sends:
  assumes "flow l r w" "outbox l' = outbox l @ fs"
  shows "flow l' r (w @ wire fs)"
proof -
  from assms(1) obtain sofar pend where "outbox l = sofar @ pend" "recv_done r \<or> inbuf r @ w = wire pend"
    "\<forall>j < length (objs r). holds r sofar j" "distinct (used r)" by (auto simp: flow_def)
  then show ?thesis unfolding flow_def using assms(2)
    by (intro exI [of _ sofar] exI [of _ "pend @ fs"]) (auto simp flip: append_assoc)
qed

lemma flow_delivers: "flow l r w \<Longrightarrow> flow l (delivered (take k w) r) (drop k w)"
  by (auto simp: flow_def delivered_def holds_def used_def)

lemma flow_keeps:
  assumes "flow l r w" "keeps r r'"
  shows "flow l r' w"
proof -
  from assms(1) obtain sofar pend where f: "outbox l = sofar @ pend" "recv_done r \<or> inbuf r @ w = wire pend"
    "\<forall>j < length (objs r). holds r sofar j" "distinct (used r)" by (auto simp: flow_def)
  have same: "inbuf r' = inbuf r" "recv_done r' = recv_done r" "length (objs r') = length (objs r)" "client r' = client r"
    "used r' = used r"
    using assms(2) by (auto simp: keeps_def kept_def used_def intro: nth_equalityI)
  have "holds r' sofar j" if "j < length (objs r)" for j
  proof -
    from assms(2) that have "kept r r' j" by (simp add: keeps_def)
    moreover from f(3) that have "holds r sofar j" by simp
    ultimately show ?thesis by (auto simp: kept_def holds_def Let_def same intro: prefix_order.trans)
  qed
  with f same show ?thesis unfolding flow_def by metis
qed

lemma flow_opens:
  assumes "flow l r w" "opens r r'" "\<And>i. \<not> goAway r \<Longrightarrow> nextStreamID r < i \<Longrightarrow> psh i (outbox l) = []" "session_inv r"
  shows "flow l r' w"
proof -
  from assms(1) obtain sofar pend where f: "outbox l = sofar @ pend" "recv_done r \<or> inbuf r @ w = wire pend"
    "\<forall>j < length (objs r). holds r sofar j" "distinct (used r)" by (auto simp: flow_def)
  from assms(2) obtain i where i: "objs r' = objs r @ [newStream i]" "inbuf r' = inbuf r" "recv_done r' = recv_done r"
    "streams r' = alist_put i (length (objs r)) (streams r)" "\<not> goAway r" "nextStreamID r < i" "client r" "client r'"
    by (auto simp: opens_def)
  have "psh i sofar = []" using assms(3) [OF i(5,6)] f(1) by simp
  have "i \<notin> set (used r)" using assms(4) i(5-7) by (auto simp: session_inv_def ids_ok_def)
  then have new: "i \<notin> fst ` set (streams r)"
    using assms(4) by (auto simp: session_inv_def map_ok_def used_def)
  have "holds r' sofar j" if "j < length (objs r')" for j
  proof (cases "j = length (objs r)")
    case True
    with i \<open>psh i sofar = []\<close> show ?thesis by (simp add: holds_def newStream_def content_def)
  next
    case False
    with that i have "j < length (objs r)" by simp
    with f(3) i new False show ?thesis by (simp add: holds_def Let_def nth_append put_other)
  qed
  moreover have "distinct (used r')" using f(4) \<open>i \<notin> set (used r)\<close> i(1) by (simp add: used_def newStream_def)
  ultimately show ?thesis using f(1,2) i(2,3) unfolding flow_def by metis
qed

lemma holds_taken:
  assumes "holds r sofar j" "gains f r r' j" "recv_done r' = recv_done r" "\<not> recv_done r" "client r' = client r"
  shows "holds r' (sofar @ [f]) j"
  using assms by (auto simp: holds_def gains_def Let_def prefix_append)

lemma flow_stops:
  assumes "flow l r w" "objs r' = objs r" "streams r' = streams r" "recv_done r'" "client r' = client r"
  shows "flow l r' w"
  using assms unfolding flow_def holds_def used_def Let_def by auto

text \<open>A \<^verbatim>\<open>cmdSYN\<close> is the first frame but perhaps for a \<^verbatim>\<open>cmdFIN\<close> of its stream.\<close>

definition syn_first :: "Frame list \<Rightarrow> bool" where
  "syn_first fs \<longleftrightarrow> (\<forall>n < length fs. cmd (fs ! n) = cmdSYN \<longrightarrow>
     (\<forall>g \<in> set (take n fs). cmd g = cmdSYN \<or> cmd g = cmdPSH \<longrightarrow> sid g \<noteq> sid (fs ! n)))"

lemma psh_fresh: "(\<And>f. f \<in> set fs \<Longrightarrow> cmd f = cmdPSH \<Longrightarrow> sid f \<noteq> i) \<Longrightarrow> psh i fs = []"
  by (induction fs) auto

text \<open>A round of the loop that takes a frame takes the first of those on their way.\<close>

lemma flow_next:
  assumes "flow l r w" "recv_frame r = Next r'" "\<not> recv_done r" "session_inv r"
    and "\<forall>f \<in> set (outbox l). plain (ver_byte r) f"
  obtains sofar g gs where "outbox l = sofar @ g # gs" "\<forall>j < length (objs r). holds r sofar j" "distinct (used r)"
    "inbuf r' @ w = wire gs" "taken g r r'"
proof -
  from assms(1,3) obtain sofar pend where f: "outbox l = sofar @ pend" "inbuf r @ w = wire pend"
    "\<forall>j < length (objs r). holds r sofar j" "distinct (used r)" by (auto simp: flow_def)
  with assms(5) have "\<forall>f \<in> set pend. plain (ver_byte r) f" by simp
  from recv_frame_takes [OF assms(2) f(2) this] obtain g gs u where p: "pend = g # gs" "u @ w = wire gs" "takes g u r r'"
    by blast
  from takes_taken [OF p(3) assms(4)] f p(1,2) that show thesis by simp
qed

lemma flow_receives:
  assumes "flow l r w" "r' \<in> set (recv_step r)" "session_inv r" "\<forall>f \<in> set (outbox l). plain (ver_byte r) f"
    and "syn_first (outbox l)" "\<not> client r \<or> (\<forall>f \<in> set (outbox l). cmd f \<noteq> cmdSYN)"
  shows "flow l r' w"
proof -
  from recv_step_cases [OF assms(2)] have nd: "\<not> recv_done r" by simp
  from recv_step_cases [OF assms(2)]
  consider "recv_frame r = Next r'" | "objs r' = objs r" "streams r' = streams r" "recv_done r'" "client r' = client r"
    by (auto simp: recv_stop_def notifyReadError_def)
  then show ?thesis
  proof cases
    case 1
    from flow_next [OF assms(1) 1 nd assms(3,4)] obtain sofar g gs where f: "outbox l = sofar @ g # gs"
      "\<forall>j < length (objs r). holds r sofar j" "distinct (used r)" "inbuf r' @ w = wire gs" "taken g r r'" .
    have old: "holds r' (sofar @ [g]) j" "stid (objs r' ! j) = stid (objs r ! j)" if "j < length (objs r)" for j
    proof -
      have "gains g r r' j" "recv_done r' = recv_done r" "client r' = client r" using f(5) that by (simp_all add: taken_def)
      with f(2) that nd show "holds r' (sofar @ [g]) j" "stid (objs r' ! j) = stid (objs r ! j)"
        by (auto simp: gains_def intro: holds_taken)
    qed
    from f(5) consider (same) "length (objs r') = length (objs r)"
      | (new) "cmd g = cmdSYN" "length (objs r') = Suc (length (objs r))" "objs r' ! length (objs r) = newStream (sid g)"
      by (auto simp: taken_def)
    then have "(\<forall>j < length (objs r'). holds r' (sofar @ [g]) j) \<and> distinct (used r')"
    proof cases
      case same
      with old(2) have "used r' = used r" by (auto simp: used_def intro: nth_equalityI)
      with same old(1) f(3) show ?thesis by simp
    next
      case new
      have fresh: "\<forall>h \<in> set sofar. cmd h = cmdSYN \<or> cmd h = cmdPSH \<longrightarrow> sid h \<noteq> sid g"
        using assms(5) f(1) new(1) by (auto simp: syn_first_def dest: spec [of _ "length sofar"])
      then have "psh (sid g) sofar = []" by (auto intro: psh_fresh)
      then have "holds r' (sofar @ [g]) (length (objs r))" using new by (simp add: holds_def newStream_def content_def cmd_defs)
      moreover have "\<not> client r" using assms(6) f(1) new(1) by auto
      with f(2) fresh have "sid g \<notin> set (used r)" by (fastforce simp: used_def holds_def Let_def in_set_conv_nth)
      moreover have "used r' = used r @ [sid g]"
        using old(2) new(2,3) by (auto simp: used_def newStream_def nth_append less_Suc_eq intro!: nth_equalityI)
      ultimately show ?thesis using old(1) new(2) f(3) by (auto simp: less_Suc_eq)
    qed
    moreover have "outbox l = (sofar @ [g]) @ gs" using f(1) by simp
    ultimately show ?thesis using f(4) unfolding flow_def by blast
  next
    case 2
    with assms(1) show ?thesis by (rule flow_stops)
  qed
qed

section \<open>What each side has sent\<close>

text \<open>One side of the link.\<close>

definition numbered :: "session \<Rightarrow> bool" where
  "numbered s \<longleftrightarrow> (if client s then goAway s \<or> (\<forall>f \<in> set (outbox s). cmd f = cmdSYN \<or> cmd f = cmdPSH \<longrightarrow> sid f \<le> nextStreamID s)
     else (\<forall>f \<in> set (outbox s). cmd f \<noteq> cmdSYN))"

definition side :: "Config \<Rightarrow> bool \<Rightarrow> session \<Rightarrow> bool" where
  "side c b s \<longleftrightarrow> session_inv s \<and> config s = c \<and> client s = b \<and> (\<forall>f \<in> set (outbox s). plain (ver_byte s) f)
     \<and> numbered s \<and> syn_first (outbox s) \<and> (\<forall>f \<in> set (outbox s). cmd f = cmdPSH \<longrightarrow> sid f \<in> set (used s))"

lemma syn_first_more:
  assumes "syn_first fs" "\<forall>f \<in> set gs. cmd f \<noteq> cmdSYN"
  shows "syn_first (fs @ gs)"
  using assms by (auto simp: syn_first_def nth_append)

lemma syn_first_syn:
  "syn_first fs \<Longrightarrow> \<forall>g \<in> set fs. cmd g = cmdSYN \<or> cmd g = cmdPSH \<longrightarrow> sid g \<noteq> sid f \<Longrightarrow> syn_first (fs @ [f])"
  by (auto simp: syn_first_def nth_append less_Suc_eq)

lemma own_step_sends:
  assumes "own_step s s'" "side c b s" "VerifyConfig c = None"
  shows "\<exists>fs. sent s s' fs"
proof -
  have "frame_size_ok s" using assms(2,3) by (auto simp: side_def frame_size_ok_def VerifyConfig_def split: if_splits)
  with session_step_effect [of s s'] assms(1,2) have "(\<exists>fs. sent s s' fs) \<or> s' \<in> set (recv_step s)"
    by (auto simp: own_step_def side_def)
  then show ?thesis
  proof
    assume "s' \<in> set (recv_step s)"
    then have "outbox s' = outbox s" by (rule recv_step_outbox)
    then show ?thesis by (auto intro: sent_nothing)
  qed
qed

lemma evolves_used:
  assumes "evolves s s'"
  shows "set (used s) \<subseteq> set (used s')"
proof
  fix i
  assume "i \<in> set (used s)"
  then obtain k where "k < length (objs s)" "i = stid (objs s ! k)" by (auto simp: used_def in_set_conv_nth)
  with assms have "k < length (objs s')" "i = stid (objs s' ! k)" by (simp_all add: evolves_def)
  then show "i \<in> set (used s')" by (simp add: used_def)
qed

lemma side_step:
  assumes "own_step s s'" "side c b s" "VerifyConfig c = None"
  shows "side c b s'"
proof -
  from assms(1,2) have st: "session_step s s'" "session_inv s" by (auto simp: own_step_def side_def)
  have inv: "session_inv s'" and ev: "evolves s s'" and ids: "ids_move s s'"
    using session_step_inv session_step_evolves session_step_ids st by blast+
  have fix_: "config s' = config s" "client s' = client s" using ev by (simp_all add: evolves_def)
  have "set (used s) \<subseteq> set (used s')" using evolves_used [OF ev] .
  then have used: "\<forall>f \<in> set (outbox s). cmd f = cmdPSH \<longrightarrow> sid f \<in> set (used s')" using assms(2) by (auto simp: side_def)
  have small: "client s \<Longrightarrow> \<not> goAway s \<Longrightarrow> i \<in> set (used s) \<Longrightarrow> i \<le> nextStreamID s" for i
    using st(2) by (auto simp: session_inv_def ids_ok_def)
  from own_step_sends [OF assms] obtain fs where out: "outbox s' = outbox s @ fs"
    and fs: "(\<forall>f \<in> set fs. frame_ok s f) \<or> (\<exists>f. fs = [f] \<and> syn_ok s s' f)" by (auto simp: sent_def)
  have pl: "\<forall>f \<in> set fs. plain (ver_byte s) f" using fs by (auto simp: frame_ok_def syn_ok_def plain_def)
  have "numbered s' \<and> syn_first (outbox s') \<and> (\<forall>f \<in> set fs. cmd f = cmdPSH \<longrightarrow> sid f \<in> set (used s'))"
    using fs
  proof
    assume fs: "\<forall>f \<in> set fs. frame_ok s f"
    then have no: "\<forall>f \<in> set fs. cmd f \<noteq> cmdSYN" "\<forall>f \<in> set fs. cmd f = cmdPSH \<longrightarrow> sid f \<in> set (used s)"
      by (auto simp: frame_ok_def cmd_defs)
    have "numbered s'"
      using assms(2) no small ids fix_ out by (fastforce simp: side_def numbered_def ids_move_def intro: order.trans)
    moreover have "syn_first (outbox s')" using syn_first_more no(1) assms(2) out by (simp add: side_def)
    ultimately show ?thesis using no(2) \<open>set (used s) \<subseteq> set (used s')\<close> by auto
  next
    assume "\<exists>f. fs = [f] \<and> syn_ok s s' f"
    then obtain f where f: "fs = [f]" "cmd f = cmdSYN" "client s" "\<not> goAway s" "nextStreamID s < sid f"
      "sid f = nextStreamID s'" by (auto simp: syn_ok_def)
    with assms(2) have old: "\<forall>g \<in> set (outbox s). cmd g = cmdSYN \<or> cmd g = cmdPSH \<longrightarrow> sid g \<le> nextStreamID s"
      by (simp add: side_def numbered_def)
    have "numbered s'" using old f fix_ out by (fastforce simp: numbered_def)
    moreover have "\<forall>g \<in> set (outbox s). cmd g = cmdSYN \<or> cmd g = cmdPSH \<longrightarrow> sid g \<noteq> sid f" using old f by fastforce
    then have "syn_first (outbox s')" using syn_first_syn assms(2) f(1) out by (simp add: side_def)
    ultimately show ?thesis using f by (simp add: cmd_defs)
  qed
  with pl used inv fix_ out assms(2) show ?thesis by (auto simp: side_def ver_byte_def)
qed

lemma flow_steps:
  assumes "flow l r w" "own_step r r'" "side c b r" "VerifyConfig c = None" "ver_byte l = ver_byte r"
    and "\<forall>f \<in> set (outbox l). plain (ver_byte l) f" "syn_first (outbox l)"
    and "\<And>i. client r \<Longrightarrow> \<not> goAway r \<Longrightarrow> nextStreamID r < i \<Longrightarrow> psh i (outbox l) = []"
    and "\<not> client r \<or> (\<forall>f \<in> set (outbox l). cmd f \<noteq> cmdSYN)"
  shows "flow l r' w"
proof -
  have r: "session_inv r" "frame_size_ok r"
    using assms(3,4) by (auto simp: side_def frame_size_ok_def VerifyConfig_def split: if_splits)
  from session_step_effect [of r r'] assms(2) r
  consider "keeps r r'" | "opens r r'" | "r' \<in> set (recv_step r)" by (auto simp: own_step_def)
  then show ?thesis
  proof cases
    case 1 then show ?thesis by (rule flow_keeps [OF assms(1)])
  next
    case 2
    then have "client r" by (auto simp: opens_def)
    with flow_opens [OF assms(1) 2 _ r(1)] assms(8) show ?thesis by blast
  next
    case 3
    with flow_receives [OF assms(1) 3 r(1)] assms(5-7,9) show ?thesis by simp
  qed
qed

section \<open>The link keeps its invariant\<close>

definition mlink_inv :: "Config \<Rightarrow> mux_link \<Rightarrow> bool" where
  "mlink_inv c L \<longleftrightarrow> side c True (cl L) \<and> side c False (sv L) \<and> acked (cl L) \<and> acked (sv L)
     \<and> flow (cl L) (sv L) (up L) \<and> flow (sv L) (cl L) (down L)"

lemma new_mlink_inv: "VerifyConfig c = None \<Longrightarrow> mlink_inv c (new_mlink c)"
proof -
  assume "VerifyConfig c = None"
  from newSession_inv [OF VerifyConfig_buffer [OF this]] have "session_inv (newSession c b)" for b .
  moreover have "outbox (newSession c b) = []" "objs (newSession c b) = []" "inbuf (newSession c b) = []"
    "config (newSession c b) = c" "client (newSession c b) = b" for b
    by (simp_all add: newSession_def)
  ultimately show ?thesis
    by (simp add: mlink_inv_def new_mlink_def side_def acked_def used_def flow_def numbered_def syn_first_def)
qed

lemma delivered_side: "side c b (delivered bs s) = side c b s" "flow (delivered bs s) r w = flow s r w" "acked (delivered bs s) = acked s"
proof -
  have "same_core s (delivered bs s)" by (simp add: same_core_def delivered_def)
  from same_core_inv [OF this] show "side c b (delivered bs s) = side c b s"
    by (simp add: side_def delivered_def numbered_def ver_byte_def used_def)
qed (simp_all add: acked_def delivered_def flow_def)

lemma sends_link:
  assumes "own_step s s'" "side c b s" "VerifyConfig c = None" "flow s r w"
  shows "flow s' r (w @ new_bytes s s')"
proof -
  from own_step_sends [OF assms(1-3)] obtain fs where fs: "outbox s' = outbox s @ fs" by (auto simp: sent_def)
  with flow_sends [OF assms(4) fs] show ?thesis by (simp add: new_bytes_def)
qed

lemma flow_asked:
  assumes "flow l r w" "\<not> client r" "i \<in> set (used r)"
  shows "\<exists>g \<in> set (outbox l). cmd g = cmdSYN \<and> sid g = i"
proof -
  from assms(3) obtain j where j: "j < length (objs r)" "stid (objs r ! j) = i" by (auto simp: used_def in_set_conv_nth)
  from assms(1) obtain sofar pend where f: "outbox l = sofar @ pend" "\<forall>j < length (objs r). holds r sofar j"
    by (auto simp: flow_def)
  from f(2) j have "holds r sofar j" by simp
  with assms(2) j f(1) show ?thesis by (auto simp: holds_def Let_def)
qed

text \<open>What the server has sent concerns no stream that its client has yet to open.\<close>

lemma no_early_data:
  assumes "mlink_inv c L" "\<not> goAway (cl L)" "nextStreamID (cl L) < i"
  shows "psh i (outbox (sv L)) = []"
proof (rule psh_fresh, rule notI)
  fix f
  assume f: "f \<in> set (outbox (sv L))" "cmd f = cmdPSH" "sid f = i"
  with assms(1) have "i \<in> set (used (sv L))" by (auto simp: mlink_inv_def side_def)
  moreover have "flow (cl L) (sv L) (up L)" "\<not> client (sv L)" using assms(1) by (simp_all add: mlink_inv_def side_def)
  ultimately obtain g where "g \<in> set (outbox (cl L))" "cmd g = cmdSYN" "sid g = i" using flow_asked by blast
  with assms have "i \<le> nextStreamID (cl L)" by (auto simp: mlink_inv_def side_def numbered_def)
  with assms(3) show False by simp
qed

lemma mlink_step_inv:
  assumes "mlink_step L L'" "mlink_inv c L" "VerifyConfig c = None"
  shows "mlink_inv c L'"
proof -
  from assms(2) have S: "side c True (cl L)" "side c False (sv L)"
    "flow (cl L) (sv L) (up L)" "flow (sv L) (cl L) (down L)" by (simp_all add: mlink_inv_def)
  then have P: "ver_byte (cl L) = ver_byte (sv L)" "\<forall>f \<in> set (outbox (cl L)). plain (ver_byte (cl L)) f"
    "\<forall>f \<in> set (outbox (sv L)). plain (ver_byte (sv L)) f" "syn_first (outbox (cl L))" "syn_first (outbox (sv L))"
    by (auto simp: side_def ver_byte_def)
  have A: "acked (cl L)" "acked (sv L)" using assms(2) by (simp_all add: mlink_inv_def)
  have own: "acked s'" if "own_step s s'" "side c b s" "acked s" for s s' b
    using that session_step_acked by (auto simp: own_step_def side_def)
  show ?thesis
    using assms(1)
  proof cases
    case (client_does s)
    have "\<forall>f \<in> set (outbox (sv L)). cmd f \<noteq> cmdSYN" using S(2) by (simp add: side_def numbered_def)
    with flow_steps [OF S(4) client_does(2) S(1) assms(3) _ P(3,5)] no_early_data [OF assms(2)] P(1)
    have "flow (sv L) s (down L)" by simp
    with client_does side_step [OF client_does(2) S(1) assms(3)] sends_link [OF client_does(2) S(1) assms(3) S(3)] S A own [OF client_does(2) S(1)]
    show ?thesis by (simp add: mlink_inv_def)
  next
    case (server_does s)
    have "\<not> client (sv L)" using S(2) by (simp add: side_def)
    with flow_steps [OF S(3) server_does(2) S(2) assms(3) P(1,2,4)] have "flow (cl L) s (up L)" by simp
    with server_does side_step [OF server_does(2) S(2) assms(3)] sends_link [OF server_does(2) S(2) assms(3) S(4)] S
      A own [OF server_does(2) S(2)]
    show ?thesis by (simp add: mlink_inv_def)
  next
    case (to_server k)
    with S A flow_delivers [OF S(3), of k] show ?thesis by (simp add: mlink_inv_def delivered_side)
  next
    case (to_client k)
    with S A flow_delivers [OF S(4), of k] show ?thesis by (simp add: mlink_inv_def delivered_side)
  qed
qed

lemma mlink_run_inv: "mlink_run L L' \<Longrightarrow> mlink_inv c L \<Longrightarrow> VerifyConfig c = None \<Longrightarrow> mlink_inv c L'"
  by (induction rule: mlink_run.induct) (auto intro: mlink_step_inv)

section \<open>The streams of the two sides\<close>

text \<open>
  The reads of every stream on the side \<open>r\<close> return, in order, a first part of the data \<open>l\<close> sent for its id; and
  all of that has come to an open stream when nothing is under way and \<open>r\<close>'s loop is running.
\<close>

definition in_order :: "session \<Rightarrow> session \<Rightarrow> byte list \<Rightarrow> bool" where
  "in_order l r w \<longleftrightarrow> (\<forall>st \<in> set (objs r). prefix (read_log st) (psh (stid st) (outbox l))
     \<and> (w = [] \<and> inbuf r = [] \<and> \<not> recv_done r \<and> \<not> sdie st \<longrightarrow> content st = psh (stid st) (outbox l)))"

lemma wire_empty: "wire fs = [] \<longleftrightarrow> fs = []" "[] = wire fs \<longleftrightarrow> fs = []"
  by (cases fs; simp add: frame_bytes_def)+

lemma flow_in_order:
  assumes "flow l r w" "session_inv r"
  shows "in_order l r w"
proof -
  from assms(1) obtain sofar pend where f: "outbox l = sofar @ pend" "recv_done r \<or> inbuf r @ w = wire pend"
    "\<forall>j < length (objs r). holds r sofar j" "distinct (used r)" by (auto simp: flow_def)
  have "prefix (read_log st) (psh (stid st) (outbox l))
      \<and> (w = [] \<and> inbuf r = [] \<and> \<not> recv_done r \<and> \<not> sdie st \<longrightarrow> content st = psh (stid st) (outbox l))"
    if st: "st \<in> set (objs r)" for st
  proof -
    from st obtain j where j: "j < length (objs r)" "st = objs r ! j" by (auto simp: in_set_conv_nth)
    with f(3) have h: "prefix (content st) (psh (stid st) sofar)"
      "\<not> recv_done r \<Longrightarrow> (stid st, j) \<in> set (streams r) \<Longrightarrow> content st = psh (stid st) sofar"
      by (simp_all add: holds_def Let_def)
    have "prefix (read_log st) (content st)" by (simp add: content_def)
    with h(1) f(1) have "prefix (read_log st) (psh (stid st) (outbox l))" by (auto intro: prefix_order.trans)
    moreover have "\<not> sdie st \<Longrightarrow> (stid st, j) \<in> set (streams r)" using assms(2) j by (simp add: session_inv_def map_ok_def)
    ultimately show ?thesis using h(2) f(1,2) by (auto simp: wire_empty)
  qed
  then show ?thesis by (simp add: in_order_def)
qed


section \<open>A stream from the client to the server\<close>

text \<open>
  The client opens a stream and writes to it, in frames of two bytes; the bytes arrive in two parts, cut inside
  the second header.
\<close>

definition small_config :: Config where
  "small_config = sample_config\<lparr>MaxFrameSize := 2\<rparr>"

definition c_open :: session where
  "c_open = snd (hd (OpenStream (newSession small_config True)))"

definition c_sent :: session where
  "c_sent = snd (hd (stream_write 0 [7, 8, 9] 0 c_open))"

definition s_syn :: session where
  "s_syn = hd (recv_step (delivered (take 10 (wire (outbox c_sent))) (newSession small_config False)))"

definition s_psh :: session where
  "s_psh = hd (recv_step (delivered (drop 10 (wire (outbox c_sent))) s_syn))"

definition s_psh2 :: session where
  "s_psh2 = hd (recv_step s_psh)"

definition s_read :: session where
  "s_read = snd (hd (stream_read 0 2 0 s_psh2))"

definition read_link :: mux_link where
  "read_link = \<lparr>cl = c_sent, sv = s_read, up = [], down = []\<rparr>"

lemma own_steps:
  "own_step (newSession small_config True) c_open" "own_step c_open c_sent"
  "own_step (delivered (take 10 (wire (outbox c_sent))) (newSession small_config False)) s_syn"
  "own_step (delivered (drop 10 (wire (outbox c_sent))) s_syn) s_psh" "own_step s_psh s_psh2" "own_step s_psh2 s_read"
proof -
  let ?c = "newSession small_config True" and ?s = "delivered (take 10 (wire (outbox c_sent))) (newSession small_config False)"
    and ?t = "delivered (drop 10 (wire (outbox c_sent))) s_syn"
  have "OpenStream ?c \<noteq> []" "client ?c" "inbuf c_open = inbuf ?c" by code_simp+
  then show "own_step ?c c_open"
    unfolding own_step_def using open_stream [of ?c "fst (hd (OpenStream ?c))" c_open] by (simp add: c_open_def)
  have "stream_write 0 [7, 8, 9] 0 c_open \<noteq> []" "0 < length (objs c_open)" "inbuf c_sent = inbuf c_open" by code_simp+
  then show "own_step c_open c_sent"
    unfolding own_step_def
    using writes [of 0 c_open "fst (hd (stream_write 0 [7, 8, 9] 0 c_open))" c_sent 0 "[7, 8, 9]"] by (simp add: c_sent_def)
  have "recv_step ?s \<noteq> []" "\<not> client ?s" "length (inbuf s_syn) \<le> length (inbuf ?s)" by code_simp+
  then show "own_step ?s s_syn" unfolding own_step_def using receive [of ?s s_syn] by (simp add: s_syn_def)
  have "recv_step ?t \<noteq> []" "\<not> client ?t" "length (inbuf s_psh) \<le> length (inbuf ?t)" by code_simp+
  then show "own_step ?t s_psh" unfolding own_step_def using receive [of ?t s_psh] by (simp add: s_psh_def)
  have "recv_step s_psh \<noteq> []" "\<not> client s_psh" "length (inbuf s_psh2) \<le> length (inbuf s_psh)" by code_simp+
  then show "own_step s_psh s_psh2" unfolding own_step_def using receive [of s_psh s_psh2] by (simp add: s_psh2_def)
  have "stream_read 0 2 0 s_psh2 \<noteq> []" "0 < length (objs s_psh2)" "inbuf s_read = inbuf s_psh2" by code_simp+
  then show "own_step s_psh2 s_read"
    unfolding own_step_def
    using reads [of 0 s_psh2 "fst (hd (stream_read 0 2 0 s_psh2))" s_read 0 2] by (simp add: s_read_def)
qed

lemma read_link_run: "mlink_run (new_mlink small_config) read_link"
proof -
  let ?c = "newSession small_config True" and ?s = "newSession small_config False" and ?w = "wire (outbox c_sent)"
  note more = mlink_more [OF _ client_does] mlink_more [OF _ server_does] mlink_more [OF _ to_server]
  have sent: "new_bytes ?c c_open @ new_bytes c_open c_sent = ?w" by code_simp
  have quiet: "new_bytes (delivered (take 10 ?w) ?s) s_syn = []" "new_bytes (delivered (drop 10 ?w) s_syn) s_psh = []"
    "new_bytes s_psh s_psh2 = []" "new_bytes s_psh2 s_read = []" "take (length ?w) (drop 10 ?w) = drop 10 ?w" "drop (length ?w) (drop 10 ?w) = []" by code_simp+
  have "mlink_run (new_mlink small_config) \<lparr>cl = c_sent, sv = ?s, up = ?w, down = []\<rparr>"
    using more(1) [OF more(1) [OF mlink_start [of "new_mlink small_config"]], of c_open c_sent] own_steps(1,2) sent
    by (simp add: new_mlink_def)
  from more(2) [OF more(3) [OF this, of 10], of s_syn] own_steps(3)
  have "mlink_run (new_mlink small_config) \<lparr>cl = c_sent, sv = s_syn, up = drop 10 ?w, down = []\<rparr>" by (simp add: quiet)
  from more(2) [OF more(3) [OF this, of "length ?w"], of s_psh] own_steps(4)
  have "mlink_run (new_mlink small_config) \<lparr>cl = c_sent, sv = s_psh, up = [], down = []\<rparr>" by (simp add: quiet)
  from more(2) [OF more(2) [OF this, of s_psh2], of s_read] own_steps(5,6) show ?thesis by (simp add: quiet read_link_def)
qed


section \<open>Between the two halves of OpenStream\<close>

text \<open>
  C38: A reply that reaches the client between the two halves is lost: the receive loop drops its data, no error is
  raised, and the stream that \<^verbatim>\<open>OpenStream\<close> then returns is open and has never had any data.
\<close>

theorem early_reply_lost:
  assumes "session_inv s" "client s" "(Inr i, s1) \<in> set (OpenStream_sends s)" "(Inr k, s2) \<in> set (register_stream i (recv_psh i bs s1))"
  shows "recv_psh i bs s1 = s1 \<and> stid (objs s2 ! k) = i \<and> content (objs s2 ! k) = [] \<and> \<not> sdie (objs s2 ! k)
    \<and> readError s2 = None"
proof -
  have odd: "odd (unat (nextStreamID s))" using assms(1,2) by (simp add: session_inv_def ids_ok_def)
  from assms(3) obtain n where i: "i = nextStreamID s + 2" "i \<noteq> i mod 2" "\<not> goAway s"
    and w: "((n, None), s1) \<in> set (writeFrameInternal (newFrame (ver_byte s) cmdSYN i) False (s\<lparr>nextStreamID := i\<rparr>))"
    by (auto simp: OpenStream_sends_def writeFrame_def Let_def split: if_splits option.splits)
  have "nextStreamID s < i" using next_id_larger [OF odd] i by simp
  with assms(1,2) i(3) have "i \<notin> set (used s)" by (auto simp: session_inv_def ids_ok_def)
  moreover have "set (map fst (streams s)) \<subseteq> set (used s)"
    using assms(1) by (auto simp: session_inv_def map_ok_def used_def)
  moreover have "streams s1 = streams s" using writeFrameInternal_core [OF w] by (simp add: same_core_def)
  ultimately have "map_of (streams s1) i = None" by (auto simp: map_of_eq_None_iff)
  then have "recv_psh i bs s1 = s1" by (simp add: recv_psh_def)
  with assms(4) show ?thesis
    by (auto simp: register_stream_def Let_def newStream_def content_def opt_list_def split: if_splits option.splits)
qed

text \<open>The client has written the \<^verbatim>\<open>cmdSYN\<close> of stream 3; the server's greeting comes back at once.\<close>

definition c_half :: session where
  "c_half = snd (hd (OpenStream_sends (newSession small_config True)))"

definition c_greeted :: session where
  "c_greeted = recv_psh 3 [104, 105] c_half"

theorem early_reply_lost_witness:
  "recv_psh 3 [104, 105] c_half = c_half \<and> content (objs (snd (hd (register_stream 3 c_greeted))) ! 0) = []"
proof -
  let ?s = "newSession small_config True"
  have inv: "session_inv ?s" by (rule newSession_inv) (simp add: small_config_def sample_config_def)
  have "client ?s" by (simp add: newSession_def)
  have "map fst (OpenStream_sends ?s) = [Inr 3]" by code_simp
  then have "(Inr 3, c_half) \<in> set (OpenStream_sends ?s)"
    by (cases "OpenStream_sends ?s") (auto simp: c_half_def prod_eq_iff)
  moreover have "map fst (register_stream 3 c_greeted) = [Inr 0]" by code_simp
  then have "(Inr 0, snd (hd (register_stream 3 c_greeted))) \<in> set (register_stream 3 c_greeted)"
    by (cases "register_stream 3 c_greeted") (auto simp: prod_eq_iff)
  ultimately show ?thesis using early_reply_lost [OF inv \<open>client ?s\<close>] by (simp add: c_greeted_def)
qed

end
