(* ===== verification/EndToEnd.thy ===== *)
theory EndToEnd
  imports Conns "HOL-Library.Sublist"
begin

text \<open>
  A client and a server with the connection between them: the client's tunnel joins the application's
  connection and the one to the server (\<^verbatim>\<open>ForwardConn\<close>), the server's tunnel joins the
  destination and the one from the client (\<^verbatim>\<open>handleClientConn\<close>).
\<close>

section \<open>The path of a connection\<close>

text \<open>The tunnel \<^verbatim>\<open>ForwardConn\<close> opens and the one \<^verbatim>\<open>handleClientConn\<close> opens, in their argument order.\<close>

definition client_tunnel :: "any_conn \<Rightarrow> any_conn \<Rightarrow> int \<Rightarrow> int \<Rightarrow> nat list \<Rightarrow> any_conn tunnel" where
  "client_tunnel c rightConn timeout now bufs = openTunnel c rightConn timeout now bufs"

definition server_tunnel :: "any_conn \<Rightarrow> any_conn \<Rightarrow> int \<Rightarrow> int \<Rightarrow> nat list \<Rightarrow> any_conn tunnel" where
  "server_tunnel leftConn rightConn timeout now bufs = openTunnel rightConn leftConn timeout now bufs"

text \<open>A connection that carried nothing yet, and a list of pooled buffers of the size the pool makes.\<close>

definition fresh :: "any_conn \<Rightarrow> bool" where
  "fresh c \<longleftrightarrow> any_valid c \<and> any_taken c = [] \<and> any_wrote c = []"

definition pooled :: "nat list \<Rightarrow> bool" where
  "pooled bufs \<longleftrightarrow> set bufs \<subseteq> {defaultCopyIOBufferSize}"

lemma tunnel_prefix:
  assumes "tunnel_run any_ops any_env (openTunnel a b timeout now bufs) ls (s, th)"
    and "fresh a" "fresh b" "pooled bufs"
  shows "prefix (any_wrote (dst d s)) (any_taken (src d s))"
    "outcome (th d) = Some None \<Longrightarrow> any_wrote (dst d s) = any_taken (src d s)"
proof -
  have v: "any_valid a" "any_valid b" "set bufs \<subseteq> {defaultCopyIOBufferSize}"
    using assms(2-4) by (simp_all add: fresh_def pooled_def)
  from any_tunnel_traffic [OF assms(1) v, of d] assms(2,3)
  obtain p rest where p: "any_wrote (dst d s) = p" "any_taken (src d s) = p @ rest"
    "outcome (th d) = Some None \<longrightarrow> rest = []"
    by (cases d) (auto simp: fresh_def)
  from p show "prefix (any_wrote (dst d s)) (any_taken (src d s))" by simp
  from p show "any_wrote (dst d s) = any_taken (src d s)" if "outcome (th d) = Some None" using that by simp
qed

text \<open>
  (safety, end to end) What the server has written to the destination is, in order, what the
  client read from the application, and in the other direction alike, provided the connection between
  them delivers what was written to it in order. Nothing is missing once the two goroutines of
  a direction ended normally and the connection delivered everything.
\<close>

theorem end_to_end_in_order:
  assumes "tunnel_run any_ops any_env (client_tunnel app up tc nc bufc) lc (sc, thc)"
    and "tunnel_run any_ops any_env (server_tunnel down dest ts ns bufs) ls (ss, ths)"
    and "fresh app" "fresh up" "fresh down" "fresh dest" "pooled bufc" "pooled bufs"
    and "prefix (any_taken (connB ss)) (any_wrote (connB sc))"
    and "prefix (any_taken (connB sc)) (any_wrote (connB ss))"
  shows "prefix (any_wrote (connA ss)) (any_taken (connA sc))
    \<and> prefix (any_wrote (connA sc)) (any_taken (connA ss))
    \<and> (outcome (thc AtoB) = Some None \<and> outcome (ths BtoA) = Some None
         \<and> any_taken (connB ss) = any_wrote (connB sc)
       \<longrightarrow> any_wrote (connA ss) = any_taken (connA sc))"
proof -
  note c = tunnel_prefix [OF assms(1) [unfolded client_tunnel_def] assms(3,4,7)]
  note s = tunnel_prefix [OF assms(2) [unfolded server_tunnel_def] assms(6,5,8)]
  have up: "prefix (any_wrote (connB sc)) (any_taken (connA sc))"
    and down: "prefix (any_wrote (connA sc)) (any_taken (connB sc))"
    using c(1) [of AtoB] c(1) [of BtoA] by (simp_all add: src_def dst_def)
  have "prefix (any_wrote (connA ss)) (any_taken (connB ss))"
    and "prefix (any_wrote (connB ss)) (any_taken (connA ss))"
    using s(1) [of BtoA] s(1) [of AtoB] by (simp_all add: src_def dst_def)
  with up down assms(9,10) have "prefix (any_wrote (connA ss)) (any_taken (connA sc))"
    "prefix (any_wrote (connA sc)) (any_taken (connA ss))"
    by (meson prefix_order.trans)+
  with c(2) [of AtoB] s(2) [of BtoA] show ?thesis by (auto simp: src_def dst_def)
qed

section \<open>What a goroutine has given its destination\<close>

text \<open>
  A destination may have taken more than it admits to: \<open>out\<close> is what it has, which is what the goroutine has
  read, or a first part of it once the goroutine is about to report an error.
\<close>

definition offered_ok :: "byte list \<Rightarrow> thread \<Rightarrow> bool" where
  "offered_ok out t \<longleftrightarrow> prefix out (got t) \<and> (outcome t = None \<and> (\<forall>e. pc t \<noteq> Report e) \<longrightarrow> out = put t)"

text \<open>A socket the tunnel is the first to use; bytes may have arrived on it.\<close>

definition untouched :: "tcp_conn \<Rightarrow> bool" where
  "untouched t \<longleftrightarrow> tcp_recvd t = [] \<and> tcp_sent t = []"

section \<open>A concrete path\<close>

text \<open>
  The client of the concrete tunnel in \<open>Conns\<close> has forwarded three bytes and the end of the stream; the
  server receives them.
\<close>

definition ex_server :: "any_conn tunnel" where
  "ex_server = server_tunnel (Inl ex_a) (Inl ex_b) 1000 10 []"

definition ex_server_sched :: "(dir \<times> nat) list" where
  "ex_server_sched = map (\<lambda>(d, i). (BtoA, i)) ex_first"

definition ex_server_end :: "any_conn tunnel" where
  "ex_server_end = the (exec any_ops ex_server_sched ex_server)"

lemma ex_server_runs:
  "\<exists>s th. exec any_ops ex_server_sched ex_server = Some (s, th) \<and> ex_server_end = (s, th)
     \<and> any_taken (connB s) = [1, 2, 3] \<and> any_wrote (connB s) = [] \<and> outcome (th BtoA) = Some None"
  by (simp add: ex_server_end_def ex_server_def ex_server_sched_def server_tunnel_def tunnel_eval any_taken_def)

theorem end_to_end_in_order_witness:
  "any_wrote (connA (fst ex_server_end)) = [1, 2, 3]"
proof -
  obtain sc thc where c: "exec any_ops ex_first ex_tunnel = Some (sc, thc)" "any_wrote (connB sc) = [1, 2, 3]"
    "outcome (thc AtoB) = Some None" "any_taken (connB sc) = []" "any_taken (connA sc) = [1, 2, 3]"
    by (simp add: tunnel_eval any_taken_def)
  obtain ss ths where s: "exec any_ops ex_server_sched ex_server = Some (ss, ths)" "ex_server_end = (ss, ths)"
    "any_taken (connB ss) = [1, 2, 3]" "any_wrote (connB ss) = []" "outcome (ths BtoA) = Some None"
    using ex_server_runs by blast
  have f: "fresh (Inl ex_a)" "fresh (Inl ex_b)" "pooled []"
    by (simp_all add: fresh_def pooled_def any_valid_def any_taken_def any_wrote_def ex_a_def ex_b_def)
  have rc: "tunnel_run any_ops any_env (client_tunnel (Inl ex_a) (Inl ex_b) 1000 10 [])
      (map (\<lambda>c. Some (fst c)) ex_first) (sc, thc)"
    using exec_run [OF c(1)] by (simp add: ex_tunnel_def client_tunnel_def)
  have rs: "tunnel_run any_ops any_env (server_tunnel (Inl ex_a) (Inl ex_b) 1000 10 [])
      (map (\<lambda>c. Some (fst c)) ex_server_sched) (ss, ths)"
    using exec_run [OF s(1)] by (simp add: ex_server_def)
  have "prefix (any_taken (connB ss)) (any_wrote (connB sc))" "prefix (any_taken (connB sc)) (any_wrote (connB ss))"
    by (simp_all add: c s)
  from end_to_end_in_order [OF rc rs f(1,2) f(1,2) f(3,3) this] show ?thesis
    by (simp add: c s)
qed

end
