(* ===== verification/MuxTunnel.thy ===== *)
theory MuxTunnel
  imports SmuxLink EndToEnd
begin

text \<open>
  What a tunnel does to the session its stream belongs to: its calls use that stream and no other, and what
  it gives the stream is what it has read from its socket.
\<close>

section \<open>Streams that are left alone\<close>

text \<open>What a session does to a stream that is not being used: it may close it or give it data.\<close>

definition same_stream :: "session \<Rightarrow> session \<Rightarrow> nat \<Rightarrow> bool" where
  "same_stream s s' k \<longleftrightarrow> read_log (objs s' ! k) = read_log (objs s ! k) \<and> write_log (objs s' ! k) = write_log (objs s ! k)
     \<and> readDeadline (objs s' ! k) = readDeadline (objs s ! k) \<and> writeDeadline (objs s' ! k) = writeDeadline (objs s ! k)
     \<and> psh (stid (objs s ! k)) (outbox s') = psh (stid (objs s ! k)) (outbox s)"

text \<open>A step in which at most the streams in \<open>X\<close> are used.\<close>

definition leaves :: "nat set \<Rightarrow> session \<Rightarrow> session \<Rightarrow> bool" where
  "leaves X s s' \<longleftrightarrow> own_step s s' \<and> (\<forall>k < length (objs s). k \<notin> X \<longrightarrow> same_stream s s' k)"

lemma leaves_env:
  assumes "leaves X s s'" "k \<notin> X" "k < length (objs s)"
  shows "mux_env (s, k) (s', k)"
proof -
  have "same_stream s s' k" "session_step s s'" using assms by (auto simp: leaves_def own_step_def)
  then show ?thesis by (intro mux_env.others) (simp_all add: same_stream_def mux_taken_def mux_wrote_def)
qed

lemma same_objs: "objs s' ! k = objs s ! k \<Longrightarrow> outbox s' = outbox s \<Longrightarrow> same_stream s s' k"
  by (simp add: same_stream_def)

lemma own_stepI: "session_step s s' \<Longrightarrow> keeps s s' \<Longrightarrow> own_step s s'"
  by (simp add: own_step_def keeps_def)

text \<open>Each method of a stream uses that stream only.\<close>

lemma read_leaves:
  assumes "(r, s') \<in> set (stream_read now n k s)" "k < length (objs s)"
  shows "leaves {k} s s'"
proof -
  have "objs s' ! j = objs s ! j" if "j \<noteq> k" for j
    using assms(1) that
    by (auto simp: stream_read_def try_read_def read_block_def unpark_def returnTokens_def Let_def split: if_splits)
  with stream_read_effect [OF assms] same_objs own_stepI [OF session_step.reads [OF assms(2,1)]] show ?thesis
    by (simp add: leaves_def)
qed

lemma distinct_ids:
  "distinct (used s) \<Longrightarrow> j < length (objs s) \<Longrightarrow> k < length (objs s) \<Longrightarrow> j \<noteq> k \<Longrightarrow> stid (objs s ! j) \<noteq> stid (objs s ! k)"
  by (simp add: used_def distinct_conv_nth)

lemma write_chunks_others:
  assumes "(r, s') \<in> set (write_chunks late k n0 bs s)" "k < length (objs s)" "j \<noteq> k"
  shows "objs s' ! j = objs s ! j \<and> (\<forall>i. i \<noteq> stid (objs s ! k) \<longrightarrow> psh i (outbox s') = psh i (outbox s))"
  using assms(1,2)
proof (induction bs arbitrary: n0 s)
  case (Cons b bs)
  let ?f = "(newFrame (ver_byte s) cmdPSH (stid (objs s ! k)))\<lparr>data := b\<rparr>"
  let ?u = "\<lambda>n t. upd_obj k (\<lambda>st. st\<lparr>numWritten := numWritten st + 1, write_log := write_log st @ take n b\<rparr>) t"
  have step: "objs (?u n t) ! j = objs s ! j \<and> stid (objs (?u n t) ! k) = stid (objs s ! k) \<and> k < length (objs (?u n t))
      \<and> (\<forall>i. i \<noteq> stid (objs s ! k) \<longrightarrow> psh i (outbox (?u n t)) = psh i (outbox s))"
    if "((n, e), t) \<in> set (writeFrameInternal ?f late s)" for n e t
  proof -
    from writeFrameInternal_core [OF that] have "objs t = objs s" by (simp add: same_core_def)
    with writeFrameInternal_sent [OF that] Cons.prems(2) assms(3) show ?thesis by (auto simp: newFrame_def)
  qed
  from Cons.prems(1) obtain n e t where w: "((n, e), t) \<in> set (writeFrameInternal ?f late s)"
    and r: "(r, s') \<in> set (case e of Some x \<Rightarrow> [((n0 + n, Some x), ?u n t)]
        | None \<Rightarrow> write_chunks late k (n0 + n) bs (?u n t))"
    by (auto simp: Let_def)
  note st = step [OF w]
  from r Cons.IH [of "n0 + n" "?u n t"] st show ?case by (cases e) auto
qed simp

lemma write_leaves:
  assumes "(r, s') \<in> set (stream_write now b k s)" "k < length (objs s)" "frame_size_ok s" "distinct (used s)"
  shows "leaves {k} s s'"
proof -
  have "same_stream s s' j" if "j < length (objs s)" "j \<noteq> k" for j
  proof (cases "sdie (objs s ! k)")
    case False
    with assms(1) obtain bs late where w: "(r, s') \<in> set (write_chunks late k 0 bs s)" by (auto simp: stream_write_def)
    from write_chunks_others [OF this assms(2) that(2)] distinct_ids [OF assms(4) that(1) assms(2) that(2)] show ?thesis
      by (simp add: same_stream_def)
  qed (use assms in \<open>simp add: stream_write_def same_stream_def\<close>)
  with stream_write_effect [OF assms(1-3)] own_stepI [OF session_step.writes [OF assms(2,1)]] show ?thesis
    by (auto simp: leaves_def)
qed

lemma Session_Close_leaves:
  assumes "session_inv s"
  shows "leaves {} s (snd (Session_Close s))"
proof -
  have "\<forall>k \<in> set (map snd (streams s)). k < length (objs s)"
    using assms by (auto simp: session_inv_def map_ok_def)
  from close_objs_nth [OF this] have "same_stream s (snd (Session_Close s)) k" if "k < length (objs s)" for k
    using that by (simp add: same_stream_def Session_Close_def)
  moreover have "session_step s (snd (Session_Close s))" by (rule session_step.close_session [of s "fst (Session_Close s)"]) simp
  ultimately show ?thesis using Session_Close_effect [OF assms] by (simp add: leaves_def own_stepI)
qed

lemma Stream_Close_leaves:
  assumes "(e, s') \<in> set (Stream_Close k s)" "k < length (objs s)" "session_inv s"
  shows "leaves {} s s'"
proof -
  have "same_stream s s' j" if j: "j < length (objs s)" for j
  proof (cases "sdie (objs s ! k)")
    case True
    with assms(1) show ?thesis by (simp add: Stream_Close_def same_stream_def)
  next
    case False
    let ?u = "upd_obj k (\<lambda>st. st\<lparr>sdie := True\<rparr>) s" and ?i = "stid (objs s ! k)"
    from assms(1) False obtain r t where w: "(r, t) \<in> set (writeFrameInternal (newFrame (ver_byte s) cmdFIN ?i) False ?u)"
      and s': "s' = streamClosed ?i t" by (auto simp: Stream_Close_def writeFrame_def Let_def)
    from writeFrameInternal_core [OF w] have o: "objs t = objs ?u" by (simp add: same_core_def)
    then have "same_stream s t j"
      using writeFrameInternal_sent [OF w] upd_obj_nth_cases [OF j, of k "\<lambda>st. st\<lparr>sdie := True\<rparr>"]
      by (auto simp: same_stream_def newFrame_def cmd_defs)
    moreover have "j < length (objs t)" using j o by simp
    then have "objs s' ! j = objs t ! j \<or> objs s' ! j = (objs t ! j)\<lparr>buffers := []\<rparr>"
      using upd_obj_nth_cases [of j t _ "\<lambda>st. st\<lparr>buffers := []\<rparr>"]
      by (auto simp: s' streamClosed_def Let_def split: option.split)
    moreover have "outbox s' = outbox t" by (simp add: s' streamClosed_def Let_def split: option.split)
    ultimately show ?thesis by (auto simp: same_stream_def)
  qed
  with Stream_Close_effect [OF assms] own_stepI [OF session_step.close_stream [OF assms(2,1)]] show ?thesis
    by (simp add: leaves_def)
qed

lemma deadline_leaves:
  assumes "k < length (objs s)"
  shows "leaves {k} s (SetReadDeadline dl k s)" "leaves {k} s (SetWriteDeadline dl k s)"
proof -
  have "keeps s (SetReadDeadline dl k s)" "keeps s (SetWriteDeadline dl k s)"
    using assms by (auto simp: SetReadDeadline_def SetWriteDeadline_def notify_stream_def intro!: keeps_upd)
  with own_stepI session_step.read_deadline [OF assms] session_step.write_deadline [OF assms]
  show "leaves {k} s (SetReadDeadline dl k s)" "leaves {k} s (SetWriteDeadline dl k s)"
    by (auto simp: leaves_def SetReadDeadline_def SetWriteDeadline_def same_stream_def)
qed

section \<open>A tunnel and its stream\<close>

type_synonym sconn = "tcp_conn + mux_conn"

text \<open>A client's stream is a \<^verbatim>\<open>muxStream\<close>, a server's a \<^verbatim>\<open>smux.Stream\<close>.\<close>

definition stream_ops :: "bool \<Rightarrow> mux_conn conn_ops" where
  "stream_ops b = (if b then cmux_ops else smux_ops)"

definition mops :: "bool \<Rightarrow> sconn conn_ops" where
  "mops b = sum_ops tcp_ops (stream_ops b)"

text \<open>What a call leaves behind: of the session only that stream was used, in one step or several.\<close>

definition used_by :: "nat set \<Rightarrow> session \<Rightarrow> session \<Rightarrow> bool" where
  "used_by X = (leaves X)\<^sup>*\<^sup>*"

definition calls :: "sconn \<Rightarrow> sconn \<Rightarrow> bool" where
  "calls c c' \<longleftrightarrow> (case c of Inl a \<Rightarrow> \<exists>a'. c' = Inl a' | Inr (s, k) \<Rightarrow> \<exists>s'. c' = Inr (s', k) \<and> used_by {k} s s')"

lemma leaves_more: "leaves X s s' \<Longrightarrow> X \<subseteq> Y \<Longrightarrow> leaves Y s s'"
  by (auto simp: leaves_def)

lemma used_by_one: "leaves X s s' \<Longrightarrow> used_by X s s'"
  by (simp add: used_by_def)

lemma used_by_two: "leaves X s t \<Longrightarrow> leaves X t u \<Longrightarrow> used_by X s u"
  by (simp add: used_by_def)

definition stream_at :: "sconn \<Rightarrow> bool" where
  "stream_at c \<longleftrightarrow> (case c of Inl a \<Rightarrow> True
     | Inr (s, k) \<Rightarrow> session_inv s \<and> k < length (objs s) \<and> frame_size_ok s \<and> distinct (used s))"

lemma stream_calls:
  assumes "session_inv s" "k < length (objs s)" "frame_size_ok s" "distinct (used s)"
  shows "((bs, er), c') \<in> set (c_read (stream_ops b) now n (s, k)) \<Longrightarrow> \<exists>s'. c' = (s', k) \<and> used_by {k} s s'"
    and "((nw, ew), c') \<in> set (c_write (stream_ops b) now xs (s, k)) \<Longrightarrow> \<exists>s'. c' = (s', k) \<and> used_by {k} s s'"
    and "(e, c') \<in> set (c_close (stream_ops b) (s, k)) \<Longrightarrow> \<exists>s'. c' = (s', k) \<and> used_by {k} s s'"
    and "\<exists>s'. c_set_deadline (stream_ops b) dl (s, k) = (s', k) \<and> used_by {k} s s'"
    and "\<exists>s'. c_set_read_deadline (stream_ops b) dl (s, k) = (s', k) \<and> used_by {k} s s'"
    and "\<exists>s'. c_set_write_deadline (stream_ops b) dl (s, k) = (s', k) \<and> used_by {k} s s'"
proof -
  show "((bs, er), c') \<in> set (c_read (stream_ops b) now n (s, k)) \<Longrightarrow> \<exists>s'. c' = (s', k) \<and> used_by {k} s s'"
    using read_leaves [OF _ assms(2)]
    by (cases c') (auto simp: stream_ops_def cmux_ops_def smux_ops_def set_keep_ref intro: used_by_one split: if_splits)
  show "((nw, ew), c') \<in> set (c_write (stream_ops b) now xs (s, k)) \<Longrightarrow> \<exists>s'. c' = (s', k) \<and> used_by {k} s s'"
    using write_leaves [OF _ assms(2-4)]
    by (cases c') (auto simp: stream_ops_def cmux_ops_def smux_ops_def set_keep_ref intro: used_by_one split: if_splits)
  show "\<exists>s'. c' = (s', k) \<and> used_by {k} s s'" if "(e, c') \<in> set (c_close (stream_ops b) (s, k))"
  proof -
    from that obtain s' where c': "c' = (s', k)" "if b then (e, s') \<in> set (muxStream_Close k s) else (e, s') \<in> set (Stream_Close k s)"
      by (cases b; cases c') (auto simp: stream_ops_def cmux_ops_def smux_ops_def set_keep_ref)
    have "used_by {k} s s'"
    proof (cases b)
      case True
      with c'(2) muxStream_Close_split obtain e1 t where t: "(e1, t) \<in> set (Stream_Close k s)" "s' = snd (tryCloseOnIdle t)"
        by force
      have one: "leaves {k} s t" using leaves_more [OF Stream_Close_leaves [OF t(1) assms(2,1)]] by simp
      have "session_inv t" using Stream_Close_inv [OF t(1) assms(1,2)] .
      from leaves_more [OF Session_Close_leaves [OF this]] have "leaves {k} t (snd (Session_Close t))" by simp
      with one t(2) show ?thesis by (auto simp: tryCloseOnIdle_def intro: used_by_one used_by_two)
    next
      case False
      with c'(2) leaves_more [OF Stream_Close_leaves [OF _ assms(2,1)]] show ?thesis by (auto intro: used_by_one)
    qed
    with c'(1) show ?thesis by blast
  qed
  note dl = deadline_leaves [OF assms(2)]
  have "k < length (objs (SetReadDeadline dl k s))" using assms(2) by (simp add: deadline_stream)
  from used_by_two [OF dl(1) deadline_leaves(2) [OF this]]
  show "\<exists>s'. c_set_deadline (stream_ops b) dl (s, k) = (s', k) \<and> used_by {k} s s'"
    by (simp add: stream_ops_def cmux_ops_def smux_ops_def SetDeadline_def)
  show "\<exists>s'. c_set_read_deadline (stream_ops b) dl (s, k) = (s', k) \<and> used_by {k} s s'"
    and "\<exists>s'. c_set_write_deadline (stream_ops b) dl (s, k) = (s', k) \<and> used_by {k} s s'"
    using used_by_one [OF dl(1)] used_by_one [OF dl(2)] by (simp_all add: stream_ops_def cmux_ops_def smux_ops_def)
qed

lemma calls_socket: "calls (Inl a) c' \<longleftrightarrow> (\<exists>a'. c' = Inl a')"
  by (simp add: calls_def)

lemma calls_stream: "calls (Inr (s, k)) c' \<longleftrightarrow> (\<exists>s'. c' = Inr (s', k) \<and> used_by {k} s s')"
  by (simp add: calls_def)

lemma mops_calls:
  assumes "stream_at c"
  shows "((bs, er), c') \<in> set (c_read (mops b) now n c) \<Longrightarrow> calls c c'"
    and "((nw, ew), c') \<in> set (c_write (mops b) now xs c) \<Longrightarrow> calls c c'"
    and "(e, c') \<in> set (c_close (mops b) c) \<Longrightarrow> calls c c'"
    and "calls c (c_set_deadline (mops b) dl c)"
    and "calls c (c_set_read_deadline (mops b) dl c)"
    and "calls c (c_set_write_deadline (mops b) dl c)"
proof -
  consider (socket) a where "c = Inl a" | (stream) s k where "c = Inr (s, k)" by (cases c) auto
  then have "(((bs, er), c') \<in> set (c_read (mops b) now n c) \<longrightarrow> calls c c')
    \<and> (((nw, ew), c') \<in> set (c_write (mops b) now xs c) \<longrightarrow> calls c c') \<and> ((e, c') \<in> set (c_close (mops b) c) \<longrightarrow> calls c c')
    \<and> calls c (c_set_deadline (mops b) dl c) \<and> calls c (c_set_read_deadline (mops b) dl c)
    \<and> calls c (c_set_write_deadline (mops b) dl c)"
  proof cases
    case socket
    then show ?thesis by (auto simp: mops_def sum_ops_def set_map_result calls_socket)
  next
    case (stream s k)
    with assms have "session_inv s" "k < length (objs s)" "frame_size_ok s" "distinct (used s)" by (simp_all add: stream_at_def)
    note S = stream_calls [where b = b, OF this]
    show ?thesis
      unfolding stream mops_def
      by (intro conjI impI) (auto simp: sum_ops_def set_map_result calls_stream dest: S(1-3) intro: S(4-6))
  qed
  then show "((bs, er), c') \<in> set (c_read (mops b) now n c) \<Longrightarrow> calls c c'"
    "((nw, ew), c') \<in> set (c_write (mops b) now xs c) \<Longrightarrow> calls c c'" "(e, c') \<in> set (c_close (mops b) c) \<Longrightarrow> calls c c'"
    "calls c (c_set_deadline (mops b) dl c)" "calls c (c_set_read_deadline (mops b) dl c)"
    "calls c (c_set_write_deadline (mops b) dl c)"
    by blast+
qed

text \<open>A goroutine makes at most one call on the stream.\<close>

definition joined :: "sconn shared \<Rightarrow> sconn shared \<Rightarrow> bool" where
  "joined s s' \<longleftrightarrow> (\<forall>a x k. connA s = Inl a \<longrightarrow> connB s = Inr (x, k) \<longrightarrow>
     (\<exists>a' x'. connA s' = Inl a' \<and> connB s' = Inr (x', k) \<and> used_by {k} x x'))"

lemma used_by_refl [simp]: "used_by X s s"
  by (simp add: used_by_def)

lemma joined_same: "connA s' = connA s \<Longrightarrow> connB s' = connB s \<Longrightarrow> joined s s'"
  by (simp add: joined_def)

lemma joined_calls:
  "calls (src d s) c' \<Longrightarrow> joined s (set_src d c' s)" "calls (dst d s) c' \<Longrightarrow> joined s (set_dst d c' s)"
  by (cases d; auto simp: joined_def calls_def src_def dst_def set_src_def set_dst_def)+

lemma acquire_keeps_conns: "(b, s') \<in> set (acquireIOBuf s) \<Longrightarrow> connA s' = connA s \<and> connB s' = connB s"
  by (auto simp: acquireIOBuf_def)

lemma ow_step_joined:
  assumes "(s', t') \<in> set (ow_step (mops b) d s t)" "stream_at (connA s)" "stream_at (connB s)"
  shows "joined s s'"
proof -
  have at: "stream_at (src d s)" "stream_at (dst d s)" using assms(2,3) by (cases d; simp add: src_def dst_def)+
  note C = mops_calls [OF at(1)] mops_calls [OF at(2)]
  show ?thesis
  proof (cases "pc t")
    case Acquire
    with assms(1) obtain n where "(n, s') \<in> set (acquireIOBuf s)" by (auto simp: ow_step_def)
    with acquire_keeps_conns joined_same show ?thesis by metis
  qed (use assms(1) in \<open>auto simp: ow_step_def read_step_def write_step_def releaseIOBuf_def intro!: joined_calls
    intro: C joined_same\<close>)
qed

section \<open>What a tunnel sends on its stream\<close>

definition sent_on :: "sconn \<Rightarrow> byte list" where
  "sent_on c = (case c of Inl a \<Rightarrow> [] | Inr (s, k) \<Rightarrow> psh (stid (objs s ! k)) (outbox s))"

lemma leaves_sent:
  assumes "leaves X s s'" "k \<notin> X" "k < length (objs s)" "session_inv s"
  shows "psh (stid (objs s' ! k)) (outbox s') = psh (stid (objs s ! k)) (outbox s)"
proof -
  have "same_stream s s' k" "session_step s s'" using assms(1-3) by (auto simp: leaves_def own_step_def)
  moreover from session_step_evolves [OF this(2) assms(4)] assms(3) have "stid (objs s' ! k) = stid (objs s ! k)"
    by (simp add: evolves_def)
  ultimately show ?thesis by (simp add: same_stream_def)
qed

lemma write_chunks_psh:
  assumes "((n, e), s') \<in> set (write_chunks late k n0 bs s)" "k < length (objs s)"
  shows "\<exists>p. prefix p (concat bs) \<and> psh (stid (objs s ! k)) (outbox s') = psh (stid (objs s ! k)) (outbox s) @ p
    \<and> stid (objs s' ! k) = stid (objs s ! k) \<and> (e = None \<longrightarrow> p = concat bs)"
  using assms
proof (induction bs arbitrary: n0 s)
  case (Cons b bs)
  let ?i = "stid (objs s ! k)" and ?f = "(newFrame (ver_byte s) cmdPSH (stid (objs s ! k)))\<lparr>data := b\<rparr>"
  let ?u = "\<lambda>n t. upd_obj k (\<lambda>st. st\<lparr>numWritten := numWritten st + 1, write_log := write_log st @ take n b\<rparr>) t"
  from Cons.prems(1) obtain m x t where w: "((m, x), t) \<in> set (writeFrameInternal ?f late s)"
    and r: "((n, e), s') \<in> set (case x of Some y \<Rightarrow> [((n0 + m, Some y), ?u m t)]
        | None \<Rightarrow> write_chunks late k (n0 + m) bs (?u m t))"
    by (auto simp: Let_def)
  from writeFrameInternal_core [OF w] Cons.prems(2)
  have o: "k < length (objs (?u m t))" "stid (objs (?u m t) ! k) = ?i" by (simp_all add: same_core_def)
  have out: "outbox (?u m t) = outbox s @ [?f] \<or> x \<noteq> None \<and> outbox (?u m t) = outbox s"
    using w by (auto simp: writeFrameInternal_def writeFrame_now_def Let_def notifyWriteError_def split: option.splits if_splits)
  show ?case
  proof (cases x)
    case None
    with r have "((n, e), s') \<in> set (write_chunks late k (n0 + m) bs (?u m t))" by simp
    from Cons.IH [OF this o(1)] o(2) out None show ?thesis by (fastforce simp: newFrame_def)
  next
    case (Some y)
    with r have s': "e = Some y" "s' = ?u m t" by auto
    from out show ?thesis
    proof
      assume "outbox (?u m t) = outbox s @ [?f]"
      with s' o(2) show ?thesis by (intro exI [of _ b]) (simp add: newFrame_def)
    next
      assume "x \<noteq> None \<and> outbox (?u m t) = outbox s"
      with s' o(2) show ?thesis by (intro exI [of _ "[]"]) simp
    qed
  qed
qed simp

lemma write_chunks_total: "((n, None), s') \<in> set (write_chunks late k n0 bs s) \<Longrightarrow> n = n0 + length (concat bs)"
proof (induction bs arbitrary: n0 s)
  case (Cons b bs)
  then show ?case by (fastforce simp: Let_def dest: writeFrameInternal_data split: option.splits)
qed simp

lemma stream_write_sent:
  assumes "((n, e), s') \<in> set (stream_write now xs k s)" "k < length (objs s)"
  shows "\<exists>p. prefix p xs \<and> sent_on (Inr (s', k)) = sent_on (Inr (s, k)) @ p \<and> (e = None \<longrightarrow> p = take n xs)"
proof (cases "sdie (objs s ! k)")
  case True
  with assms show ?thesis by (auto simp: stream_write_def sent_on_def)
next
  case False
  define bs where "bs = chunks (nat (MaxFrameSize (config s))) xs"
  have bs: "concat bs = (if nat (MaxFrameSize (config s)) = 0 then [] else xs)" by (simp add: bs_def concat_chunks)
  from assms(1) False obtain late where w: "((n, e), s') \<in> set (write_chunks late k 0 bs s)" by (auto simp: stream_write_def bs_def)
  from write_chunks_psh [OF w assms(2)] obtain p where p: "prefix p (concat bs)"
    "psh (stid (objs s ! k)) (outbox s') = psh (stid (objs s ! k)) (outbox s) @ p" "stid (objs s' ! k) = stid (objs s ! k)"
    "e = None \<longrightarrow> p = concat bs" by blast
  have "prefix p xs" using p(1) bs by (auto split: if_splits)
  moreover have "e = None \<longrightarrow> p = take n xs" using p(4) write_chunks_total [of n s' late k 0 bs s] w bs by (auto split: if_splits)
  ultimately show ?thesis using p(2,3) by (intro exI [of _ p]) (simp add: sent_on_def)
qed

lemma keeps_stid: "keeps s s' \<Longrightarrow> k < length (objs s) \<Longrightarrow> stid (objs s' ! k) = stid (objs s ! k)"
  by (simp add: keeps_def kept_def)

lemma stream_close_sent:
  assumes "(e, s') \<in> set (Stream_Close k s)" "k < length (objs s)" "session_inv s"
  shows "sent_on (Inr (s', k)) = sent_on (Inr (s, k))"
  using leaves_sent [OF Stream_Close_leaves [OF assms] _ assms(2,3)] by (simp add: sent_on_def)

lemma muxStream_close_sent:
  assumes "(e, s') \<in> set (muxStream_Close k s)" "k < length (objs s)" "session_inv s"
  shows "sent_on (Inr (s', k)) = sent_on (Inr (s, k))"
proof -
  from muxStream_Close_split [OF assms(1)] obtain e1 t where t: "(e1, t) \<in> set (Stream_Close k s)" "s' = snd (tryCloseOnIdle t)"
    by blast
  have inv: "session_inv t" using Stream_Close_inv [OF t(1) assms(3,2)] .
  have k: "k < length (objs t)" using Stream_Close_evolves [OF t(1)] assms(2) by (simp add: evolves_def)
  have "sent_on (Inr (snd (Session_Close t), k)) = sent_on (Inr (t, k))"
    using leaves_sent [OF Session_Close_leaves [OF inv] _ k inv] by (simp add: sent_on_def)
  with t(2) stream_close_sent [OF t(1) assms(2,3)] show ?thesis by (auto simp: tryCloseOnIdle_def)
qed

lemma mops_sent:
  assumes "stream_at c"
  shows "((bs, er), c') \<in> set (c_read (mops b) now n c) \<Longrightarrow> sent_on c' = sent_on c"
    and "(e, c') \<in> set (c_close (mops b) c) \<Longrightarrow> sent_on c' = sent_on c"
    and "sent_on (c_set_deadline (mops b) dl c) = sent_on c"
    and "sent_on (c_set_read_deadline (mops b) dl c) = sent_on c"
    and "sent_on (c_set_write_deadline (mops b) dl c) = sent_on c"
proof -
  consider (socket) a where "c = Inl a" | (stream) s k where "c = Inr (s, k)" by (cases c) auto
  then have "(((bs, er), c') \<in> set (c_read (mops b) now n c) \<longrightarrow> sent_on c' = sent_on c)
    \<and> ((e, c') \<in> set (c_close (mops b) c) \<longrightarrow> sent_on c' = sent_on c)
    \<and> sent_on (c_set_deadline (mops b) dl c) = sent_on c \<and> sent_on (c_set_read_deadline (mops b) dl c) = sent_on c
    \<and> sent_on (c_set_write_deadline (mops b) dl c) = sent_on c"
  proof cases
    case socket
    then show ?thesis by (auto simp: mops_def sum_ops_def set_map_result sent_on_def)
  next
    case (stream s k)
    with assms have s: "session_inv s" "k < length (objs s)" by (simp_all add: stream_at_def)
    have "sent_on (Inr (s', k)) = sent_on (Inr (s, k))" if "(r, s') \<in> set (stream_read now n k s)" for r s'
      using stream_read_effect [OF that s(2)] keeps_stid s(2) by (auto simp: sent_on_def)
    with s stream stream_close_sent muxStream_close_sent show ?thesis
      by (cases b) (auto simp: mops_def sum_ops_def stream_ops_def cmux_ops_def smux_ops_def set_map_result set_keep_ref
          SetDeadline_def deadline_stream sent_on_def SetReadDeadline_def SetWriteDeadline_def notify_stream_def)
  qed
  then show "((bs, er), c') \<in> set (c_read (mops b) now n c) \<Longrightarrow> sent_on c' = sent_on c"
    "(e, c') \<in> set (c_close (mops b) c) \<Longrightarrow> sent_on c' = sent_on c"
    "sent_on (c_set_deadline (mops b) dl c) = sent_on c" "sent_on (c_set_read_deadline (mops b) dl c) = sent_on c"
    "sent_on (c_set_write_deadline (mops b) dl c) = sent_on c"
    by blast+
qed

lemma reader_sends:
  assumes "(s', t') \<in> set (ow_step (mops b) BtoA s t)" "connA s = Inl a" "stream_at (connB s)"
  shows "sent_on (connB s') = sent_on (connB s)"
proof (cases "pc t")
  case Acquire
  with assms(1) obtain n where "(n, s') \<in> set (acquireIOBuf s)" by (auto simp: ow_step_def)
  with acquire_keeps_conns show ?thesis by metis
qed (use assms in \<open>auto simp: ow_step_def read_step_def write_step_def releaseIOBuf_def src_def dst_def
  set_src_def set_dst_def mops_sent\<close>)

lemma writer_sends:
  assumes "(s', t') \<in> set (ow_step (mops b) AtoB s t)" "thread_ok t" "connB s = Inr (x, k)" "stream_at (connB s)"
    and "offered_ok (sent_on (connB s)) t"
  shows "offered_ok (sent_on (connB s')) t'"
proof (cases "pc t")
  case Acquire
  with assms(1) obtain n where n: "(n, s') \<in> set (acquireIOBuf s)" "put t' = put t" "got t' = got t"
    "outcome t' = outcome t" by (auto simp: ow_step_def)
  from acquire_keeps_conns [OF n(1)] n Acquire assms(2,5) show ?thesis by (simp add: offered_ok_def thread_ok_def)
next
  case (WriteDst bs er)
  with assms(2,5) have o: "sent_on (Inr (x, k)) = put t" "got t = put t @ bs"
    by (simp_all add: offered_ok_def thread_ok_def in_flight_def assms(3))
  from assms(1) WriteDst obtain nw ew c' where c: "((nw, ew), c') \<in> set (c_write (mops b) (clock s) bs (Inr (x, k)))"
    "s' = set_dst AtoB c' s" "put t' = put t @ take nw bs" "got t' = got t" "pc t' = after_write bs er nw ew"
    by (auto simp: ow_step_def write_step_def dst_def assms(3))
  then obtain x' where x': "c' = Inr (x', k)" "((nw, ew), x') \<in> set (stream_write (clock s) bs k x)"
    by (cases b) (auto simp: mops_def sum_ops_def stream_ops_def cmux_ops_def smux_ops_def set_map_result set_keep_ref)
  have "k < length (objs x)" using assms(3,4) by (simp add: stream_at_def)
  from stream_write_sent [OF x'(2) this] obtain p where
    "prefix p bs" "sent_on (Inr (x', k)) = put t @ p" "ew = None \<longrightarrow> p = take nw bs" using o(1) by auto
  then show ?thesis by (cases ew) (auto simp: offered_ok_def c o x' set_dst_def after_write_def)
qed (use assms in \<open>auto simp: ow_step_def read_step_def releaseIOBuf_def src_def dst_def set_src_def set_dst_def
  mops_sent offered_ok_def thread_ok_def in_flight_def\<close>)

end
