(* ===== verification/MuxNet.thy ===== *)
theory MuxNet
  imports MuxTunnel
begin

text \<open>
  All the tunnels of one multiplexed connection, as one system: a client and a server session joined by a
  connection, any number of tunnels at each end, each with a stream of its session (\<^verbatim>\<open>ForwardConn\<close> on the
  client, the handlers of \<^verbatim>\<open>handleClientMuxConn\<close> on the server).
\<close>

section \<open>The system\<close>

text \<open>
  The two sessions with the bytes between them, the client's tunnels and the server's. A tunnel's second
  connection is its stream, a session and an index; the session is the one of its side at all times.
\<close>

record mux_net =
  link :: mux_link
  fwd :: "sconn tunnel list"
  hdl :: "sconn tunnel list"

definition new_net :: "Config \<Rightarrow> mux_net" where
  "new_net c = \<lparr>link = new_mlink c, fwd = [], hdl = []\<rparr>"

definition holder :: "sconn tunnel \<Rightarrow> nat" where
  "holder T = (case connB (fst T) of Inl a \<Rightarrow> 0 | Inr (s, k) \<Rightarrow> k)"

definition with_session :: "session \<Rightarrow> sconn tunnel \<Rightarrow> sconn tunnel" where
  "with_session s T = ((fst T)\<lparr>connB := Inr (s, holder T)\<rparr>, snd T)"

definition client_now :: "session \<Rightarrow> mux_net \<Rightarrow> mux_net" where
  "client_now s N = N\<lparr>link := (link N)\<lparr>cl := s, up := up (link N) @ new_bytes (cl (link N)) s\<rparr>,
     fwd := map (with_session s) (fwd N)\<rparr>"

definition server_now :: "session \<Rightarrow> mux_net \<Rightarrow> mux_net" where
  "server_now s N = N\<lparr>link := (link N)\<lparr>sv := s, down := down (link N) @ new_bytes (sv (link N)) s\<rparr>,
     hdl := map (with_session s) (hdl N)\<rparr>"

text \<open>A stream that was opened or accepted and not used yet.\<close>

definition idle :: "session \<Rightarrow> nat \<Rightarrow> bool" where
  "idle s k \<longleftrightarrow> k < length (objs s) \<and> read_log (objs s ! k) = [] \<and> write_log (objs s ! k) = []
     \<and> psh (stid (objs s ! k)) (outbox s) = []"

text \<open>
  What may happen: a tunnel's goroutine moves, or its socket, its clock or its pool; a session does something on
  its own; a tunnel is opened on a new stream; bytes arrive at a side whose input has not ended.
\<close>

inductive net_step :: "mux_net \<Rightarrow> mux_net \<Rightarrow> bool" where
  client_tunnel: "i < length (fwd N) \<Longrightarrow>
    tunnel_step (mops True) (sum_env tcp_env (\<lambda>_ _. False)) l (fwd N ! i) T \<Longrightarrow> connB (fst T) = Inr (s, k) \<Longrightarrow>
    net_step N (client_now s (N\<lparr>fwd := (fwd N)[i := T]\<rparr>))"
| server_tunnel: "i < length (hdl N) \<Longrightarrow>
    tunnel_step (mops False) (sum_env tcp_env (\<lambda>_ _. False)) l (hdl N ! i) T \<Longrightarrow> connB (fst T) = Inr (s, k) \<Longrightarrow>
    net_step N (server_now s (N\<lparr>hdl := (hdl N)[i := T]\<rparr>))"
| client_session: "leaves {} (cl (link N)) s \<Longrightarrow> net_step N (client_now s N)"
| server_session: "leaves {} (sv (link N)) s \<Longrightarrow> net_step N (server_now s N)"
| forwards: "idle (cl (link N)) k \<Longrightarrow> k \<notin> holder ` set (fwd N) \<Longrightarrow> untouched app \<Longrightarrow>
    net_step N (N\<lparr>fwd := fwd N @ [openTunnel (Inl app) (Inr (cl (link N), k)) timeout now []]\<rparr>)"
| handles: "idle (sv (link N)) k \<Longrightarrow> k \<notin> holder ` set (hdl N) \<Longrightarrow> untouched dest \<Longrightarrow>
    net_step N (N\<lparr>hdl := hdl N @ [openTunnel (Inl dest) (Inr (sv (link N), k)) timeout now []]\<rparr>)"
| bytes_up: "conn_end (sv (link N)) = None \<Longrightarrow> net_step N
    (N\<lparr>link := (link N)\<lparr>sv := delivered (take m (up (link N))) (sv (link N)), up := drop m (up (link N))\<rparr>,
      hdl := map (with_session (delivered (take m (up (link N))) (sv (link N)))) (hdl N)\<rparr>)"
| bytes_down: "conn_end (cl (link N)) = None \<Longrightarrow> net_step N
    (N\<lparr>link := (link N)\<lparr>cl := delivered (take m (down (link N))) (cl (link N)), down := drop m (down (link N))\<rparr>,
      fwd := map (with_session (delivered (take m (down (link N))) (cl (link N)))) (fwd N)\<rparr>)"

inductive net_run :: "mux_net \<Rightarrow> mux_net \<Rightarrow> bool" where
  net_start: "net_run N N"
| net_more: "net_run N N' \<Longrightarrow> net_step N' N'' \<Longrightarrow> net_run N N''"

section \<open>One tunnel among others\<close>

abbreviation mux_tunnel_env :: "sconn \<Rightarrow> sconn \<Rightarrow> bool" where
  "mux_tunnel_env \<equiv> sum_env tcp_env mux_env"

abbreviation mclosed :: "sconn \<Rightarrow> bool" where
  "mclosed \<equiv> case_sum tclosed mux_closed"

abbreviation mvalid :: "sconn \<Rightarrow> bool" where
  "mvalid \<equiv> case_sum (\<lambda>_. True) mux_valid"

abbreviation mtaken :: "sconn \<Rightarrow> byte list" where
  "mtaken \<equiv> case_sum tcp_recvd mux_taken"

abbreviation mwrote :: "sconn \<Rightarrow> byte list" where
  "mwrote \<equiv> case_sum tcp_sent mux_wrote"

text \<open>What a tunnel's goroutines have read and written is all that went through its connections.\<close>

definition carried :: "sconn tunnel \<Rightarrow> bool" where
  "carried T \<longleftrightarrow> (\<forall>d. mtaken (src d (fst T)) = got (snd T d) \<and> mwrote (dst d (fst T)) = put (snd T d))"

definition nothing :: "sconn tunnel" where
  "nothing = openTunnel (Inl ex_b) (Inl ex_b) 0 0 []"

lemma carried_traffic: "client_mux.either.traffic_ok nothing T \<longleftrightarrow> carried T"
proof -
  have "mtaken (src d (fst nothing)) = []" "mwrote (dst d (fst nothing)) = []" for d
    by (cases d; simp add: nothing_def openTunnel_def src_def dst_def ex_b_def)+
  then show ?thesis by (simp add: client_mux.either.traffic_ok_def carried_def)
qed

lemma mux_tunnel_step:
  assumes "tunnel_step (mops b) mux_tunnel_env l T T'" "tunnel_ok mclosed mvalid T" "carried T"
  shows "tunnel_ok mclosed mvalid T' \<and> carried T'"
proof (cases b)
  case True
  with assms client_mux.either.tunnel_ok_step client_mux.either.traffic_ok_step [of l T T' nothing] show ?thesis
    by (simp add: mops_def stream_ops_def carried_traffic)
next
  case False
  with assms server_mux.either.tunnel_ok_step server_mux.either.traffic_ok_step [of l T T' nothing] show ?thesis
    by (simp add: mops_def stream_ops_def carried_traffic)
qed

definition tun_ok :: "session \<Rightarrow> sconn tunnel \<Rightarrow> bool" where
  "tun_ok s T \<longleftrightarrow> (\<exists>a. connA (fst T) = Inl a) \<and> connB (fst T) = Inr (s, holder T) \<and> tunnel_ok mclosed mvalid T
     \<and> carried T \<and> offered_ok (sent_on (connB (fst T))) (snd T AtoB)"

lemma tun_ok_stream: "tun_ok s T \<Longrightarrow> session_inv s \<and> holder T < length (objs s)"
  by (auto simp: tun_ok_def tunnel_ok_def mux_valid_def)

lemma with_session_simps [simp]:
  "holder (with_session s T) = holder T" "with_session s (with_session t T) = with_session s T"
  "connA (fst (with_session s T)) = connA (fst T)" "connB (fst (with_session s T)) = Inr (s, holder T)"
  "snd (with_session s T) = snd T"
  by (simp_all add: with_session_def holder_def)

lemma with_session_id: "tun_ok s T \<Longrightarrow> with_session s T = T"
  by (cases T) (simp add: tun_ok_def with_session_def)

text \<open>What other tunnels do, and the session itself, is the environment of a tunnel.\<close>

lemma tun_ok_env:
  assumes "tun_ok s T" "mux_env (s, holder T) (s', holder T)" "sent_on (Inr (s', holder T)) = sent_on (Inr (s, holder T))"
  shows "tun_ok s' (with_session s' T)"
proof -
  have c: "connB (fst T) = Inr (s, holder T)" using assms(1) by (simp add: tun_ok_def)
  have "mux_tunnel_env (connB (fst T)) (Inr (s', holder T))" unfolding c by (intro sum_env.right assms(2))
  then have "tunnel_step (mops True) mux_tunnel_env None T (with_session s' T)"
    using tunnel_step.peerB [of mux_tunnel_env "fst T" "Inr (s', holder T)" "mops True" "snd T"] by (simp add: with_session_def)
  from mux_tunnel_step [OF this] assms(1) have "tunnel_ok mclosed mvalid (with_session s' T)" "carried (with_session s' T)"
    by (simp_all add: tun_ok_def)
  with assms(1,3) c show ?thesis by (simp add: tun_ok_def)
qed

lemma tun_ok_leaves:
  assumes "tun_ok s T" "leaves X s s'" "holder T \<notin> X"
  shows "tun_ok s' (with_session s' T)"
proof -
  from tun_ok_stream [OF assms(1)] have s: "session_inv s" "holder T < length (objs s)" by simp_all
  from leaves_sent [OF assms(2,3) s(2,1)] leaves_env [OF assms(2,3) s(2)] assms(1) show ?thesis
    by (intro tun_ok_env) (simp_all add: sent_on_def)
qed

lemma tun_ok_used_by:
  assumes "used_by X s s'" "tun_ok s T" "holder T \<notin> X"
  shows "tun_ok s' (with_session s' T)"
  using assms(1) unfolding used_by_def
proof (induction rule: rtranclp_induct)
  case base
  with assms(2) show ?case by (simp add: with_session_id)
next
  case (step t u)
  from tun_ok_leaves [OF step(3,2)] assms(3) show ?case by simp
qed

text \<open>The tunnel that moves.\<close>

lemma tun_ok_goroutine:
  assumes "(s', t') \<in> set (ow_step (mops b) d p (th d))" "tun_ok s (p, th)" "frame_size_ok s" "distinct (used s)"
  shows "\<exists>x. tun_ok x (s', th(d := t')) \<and> holder (s', th(d := t')) = holder (p, th) \<and> used_by {holder (p, th)} s x"
proof -
  from tun_ok_stream [OF assms(2)] have inv: "session_inv s" "holder (p, th) < length (objs s)" by simp_all
  from assms(2) obtain a where c: "connA p = Inl a" "connB p = Inr (s, holder (p, th))" by (auto simp: tun_ok_def)
  have at: "stream_at (connA p)" "stream_at (connB p)" unfolding c using inv assms(3,4) by (simp_all add: stream_at_def)
  from ow_step_joined [OF assms(1) at] c obtain a' x where x: "connA s' = Inl a'" "connB s' = Inr (x, holder (p, th))"
    "used_by {holder (p, th)} s x" by (auto simp: joined_def)
  have h: "holder (s', th(d := t')) = holder (p, th)" by (simp add: holder_def x(2))
  have ok: "thread_ok (th AtoB)" "offered_ok (sent_on (connB p)) (th AtoB)"
    using assms(2) by (auto simp: tun_ok_def tunnel_ok_def)
  have "tunnel_step (mops b) mux_tunnel_env (Some d) (p, th) (s', th(d := t'))"
    using assms(1) by (rule tunnel_step.goroutine)
  from mux_tunnel_step [OF this] assms(2) have "tunnel_ok mclosed mvalid (s', th(d := t'))" "carried (s', th(d := t'))"
    by (simp_all add: tun_ok_def)
  moreover have "offered_ok (sent_on (connB s')) ((th(d := t')) AtoB)"
  proof (cases d)
    case BtoA
    with reader_sends [OF _ c(1) at(2)] assms(1) ok(2) show ?thesis by simp
  next
    case AtoB
    with writer_sends [OF _ _ c(2) at(2)] assms(1) ok show ?thesis by simp
  qed
  ultimately show ?thesis using x h by (auto simp: tun_ok_def)
qed

lemma tun_ok_step:
  assumes "tunnel_step (mops b) (sum_env tcp_env (\<lambda>_ _. False)) l T T'" "tun_ok s T" "frame_size_ok s" "distinct (used s)"
  shows "\<exists>x. tun_ok x T' \<and> holder T' = holder T \<and> used_by {holder T} s x"
  using assms(1)
proof cases
  case (goroutine s' t' d p th)
  with tun_ok_goroutine assms(2-4) show ?thesis by blast
next
  case (peerA p c' th)
  then obtain a' where a': "c' = Inl a'" "tcp_env (projl (connA p)) a'"
    using assms(2) by (auto simp: tun_ok_def elim: sum_env.cases)
  then have "mux_tunnel_env (connA p) c'" using peerA assms(2) by (auto simp: tun_ok_def intro: sum_env.left)
  from tunnel_step.peerA [of mux_tunnel_env p c' "mops b" th, OF this] mux_tunnel_step peerA assms(2)
  have "tunnel_ok mclosed mvalid T' \<and> carried T'" by (auto simp: tun_ok_def)
  with peerA a' assms(2) show ?thesis by (intro exI [of _ s]) (simp add: tun_ok_def holder_def)
next
  case (peerB p c' th)
  then have False using assms(2) by (auto simp: tun_ok_def elim: sum_env.cases)
  then show ?thesis ..
next
  case (tick p now th)
  from tunnel_step.tick [of p now "mops b" mux_tunnel_env th, OF tick(4)] mux_tunnel_step tick assms(2)
  have "tunnel_ok mclosed mvalid T' \<and> carried T'" by (auto simp: tun_ok_def)
  with tick assms(2) show ?thesis by (intro exI [of _ s]) (simp add: tun_ok_def holder_def)
next
  case (pool bufs p th)
  from tunnel_step.pool [of bufs "mops b" mux_tunnel_env p th, OF pool(4)] mux_tunnel_step pool assms(2)
  have "tunnel_ok mclosed mvalid T' \<and> carried T'" by (auto simp: tun_ok_def)
  with pool assms(2) show ?thesis by (intro exI [of _ s]) (simp add: tun_ok_def holder_def)
qed

section \<open>The invariant of the system\<close>

definition all_ok :: "session \<Rightarrow> sconn tunnel list \<Rightarrow> bool" where
  "all_ok s Ts \<longleftrightarrow> distinct (map holder Ts) \<and> (\<forall>T \<in> set Ts. tun_ok s T)"

lemma all_ok_leaves: "all_ok s Ts \<Longrightarrow> leaves {} s s' \<Longrightarrow> all_ok s' (map (with_session s') Ts)"
  by (auto simp: all_ok_def comp_def intro: tun_ok_leaves)

lemma all_ok_moves:
  assumes "all_ok s Ts" "i < length Ts" "used_by {holder (Ts ! i)} s s'" "tun_ok s' T" "holder T = holder (Ts ! i)"
  shows "all_ok s' (map (with_session s') (Ts[i := T]))"
proof -
  have d: "map holder (Ts[i := T]) = map holder Ts" using assms(2,5) by (simp add: map_update list_update_same_conv)
  have "tun_ok s' (with_session s' (Ts[i := T] ! j))" if "j < length Ts" for j
  proof (cases "j = i")
    case True
    with that assms(4) show ?thesis by (simp add: with_session_id)
  next
    case False
    then have "holder (Ts ! j) \<notin> {holder (Ts ! i)}"
      using assms(1,2) that by (auto simp: all_ok_def distinct_conv_nth)
    with tun_ok_used_by [OF assms(3)] assms(1) that False show ?thesis by (simp add: all_ok_def)
  qed
  then have "\<forall>U \<in> set (Ts[i := T]). tun_ok s' (with_session s' U)" by (metis in_set_conv_nth length_list_update)
  with assms(1) d show ?thesis by (simp add: all_ok_def comp_def)
qed

lemma all_ok_opens:
  assumes "all_ok s Ts" "idle s k" "k \<notin> holder ` set Ts" "untouched a" "session_inv s"
  shows "all_ok s (Ts @ [openTunnel (Inl a) (Inr (s, k)) timeout now []])"
proof -
  let ?T = "openTunnel (Inl a :: sconn) (Inr (s, k)) timeout now []"
  have h: "holder ?T = k" by (simp add: holder_def openTunnel_def)
  have "tunnel_ok mclosed mvalid ?T"
    using assms(2,5) by (intro client_mux.either.tunnel_ok_init) (simp_all add: mux_valid_def idle_def)
  moreover have "carried ?T"
    using assms(2,4) by (simp add: carried_def openTunnel_def src_def dst_def thread_new_def untouched_def idle_def
        mux_taken_def mux_wrote_def split: dir.split)
  moreover have "offered_ok (sent_on (Inr (s, k))) thread_new"
    using assms(2) by (simp add: offered_ok_def sent_on_def idle_def thread_new_def)
  ultimately have "tun_ok s ?T" by (simp add: tun_ok_def h) (simp add: openTunnel_def)
  with assms(1,3) h show ?thesis by (auto simp: all_ok_def)
qed

lemma used_by_link:
  assumes "used_by X s s'" "side c b s" "VerifyConfig c = None"
  shows "side c b s' \<and> (\<exists>fs. outbox s' = outbox s @ fs)"
  using assms(1) unfolding used_by_def
proof (induction rule: rtranclp_induct)
  case base
  with assms(2) show ?case by simp
next
  case (step t u)
  from step(2) have "own_step t u" by (simp add: leaves_def)
  with side_step own_step_sends step(3) assms(3) show ?case by (metis append_assoc sent_def)
qed

lemma new_bytes_more: "outbox t = outbox s @ fs \<Longrightarrow> outbox u = outbox t @ gs \<Longrightarrow> new_bytes s t @ new_bytes t u = new_bytes s u"
  by (simp add: new_bytes_def)

lemma client_link:
  assumes "used_by X (cl L) s" "mlink_inv c L" "VerifyConfig c = None"
  shows "mlink_inv c (L\<lparr>cl := s, up := up L @ new_bytes (cl L) s\<rparr>)"
  using assms(1) unfolding used_by_def
proof (induction rule: rtranclp_induct)
  case base
  with assms(2) show ?case by (simp add: new_bytes_def)
next
  case (step t u)
  from step(2) have o: "own_step t u" by (simp add: leaves_def)
  have "side c True (cl L)" using assms(2) by (simp add: mlink_inv_def)
  from used_by_link [OF _ this assms(3)] step(1) obtain fs where fs: "side c True t" "outbox t = outbox (cl L) @ fs"
    by (auto simp: used_by_def)
  from own_step_sends [OF o fs(1) assms(3)] obtain gs where "outbox u = outbox t @ gs" by (auto simp: sent_def)
  from new_bytes_more [OF fs(2) this] mlink_step_inv [OF mlink_step.client_does step(3) assms(3), of u] o show ?case
    by simp
qed

lemma server_link:
  assumes "used_by X (sv L) s" "mlink_inv c L" "VerifyConfig c = None"
  shows "mlink_inv c (L\<lparr>sv := s, down := down L @ new_bytes (sv L) s\<rparr>)"
  using assms(1) unfolding used_by_def
proof (induction rule: rtranclp_induct)
  case base
  with assms(2) show ?case by (simp add: new_bytes_def)
next
  case (step t u)
  from step(2) have o: "own_step t u" by (simp add: leaves_def)
  have "side c False (sv L)" using assms(2) by (simp add: mlink_inv_def)
  from used_by_link [OF _ this assms(3)] step(1) obtain fs where fs: "side c False t" "outbox t = outbox (sv L) @ fs"
    by (auto simp: used_by_def)
  from own_step_sends [OF o fs(1) assms(3)] obtain gs where "outbox u = outbox t @ gs" by (auto simp: sent_def)
  from new_bytes_more [OF fs(2) this] mlink_step_inv [OF mlink_step.server_does step(3) assms(3), of u] o show ?case
    by simp
qed

definition net_ok :: "Config \<Rightarrow> mux_net \<Rightarrow> bool" where
  "net_ok c N \<longleftrightarrow> mlink_inv c (link N) \<and> all_ok (cl (link N)) (fwd N) \<and> all_ok (sv (link N)) (hdl N)"

lemma side_fits: "side c b s \<Longrightarrow> VerifyConfig c = None \<Longrightarrow> session_inv s \<and> frame_size_ok s"
  by (auto simp: side_def frame_size_ok_def VerifyConfig_def split: if_splits)

lemma mlink_sides:
  assumes "mlink_inv c L" "VerifyConfig c = None"
  shows "session_inv (cl L) \<and> frame_size_ok (cl L) \<and> distinct (used (cl L))"
    "session_inv (sv L) \<and> frame_size_ok (sv L) \<and> distinct (used (sv L))"
  using assms side_fits by (auto simp: mlink_inv_def flow_def)

text \<open>Bytes that arrive are a step of the session that gets them.\<close>

lemma all_ok_delivered:
  assumes "all_ok s Ts" "conn_end s = None"
  shows "all_ok (delivered bs s) (map (with_session (delivered bs s)) Ts)"
proof -
  have "session_step s (delivered bs s)"
    unfolding delivered_def by (intro session_step.connection conn_step.arrive assms(2))
  then have "mux_env (s, k) (delivered bs s, k)" for k
    by (intro mux_env.others) (simp_all add: delivered_def mux_taken_def mux_wrote_def)
  moreover have "sent_on (Inr (delivered bs s, k)) = sent_on (Inr (s, k))" for k by (simp add: sent_on_def delivered_def)
  ultimately have "tun_ok s T \<Longrightarrow> tun_ok (delivered bs s) (with_session (delivered bs s) T)" for T by (intro tun_ok_env)
  with assms(1) show ?thesis by (auto simp: all_ok_def comp_def)
qed

lemma net_ok_step:
  assumes "net_step N N'" "net_ok c N" "VerifyConfig c = None"
  shows "net_ok c N'"
proof -
  have L: "mlink_inv c (link N)" "all_ok (cl (link N)) (fwd N)" "all_ok (sv (link N)) (hdl N)"
    using assms(2) by (simp_all add: net_ok_def)
  note S = mlink_sides [OF L(1) assms(3)]
  show ?thesis
    using assms(1)
  proof cases
    case (client_tunnel i l T s k)
    with L(2) have "tun_ok (cl (link N)) (fwd N ! i)" by (simp add: all_ok_def)
    from tun_ok_step [OF client_tunnel(3) this] S(1) obtain x where x: "tun_ok x T" "holder T = holder (fwd N ! i)"
      "used_by {holder (fwd N ! i)} (cl (link N)) x" by blast
    with client_tunnel(4) have "x = s" by (simp add: tun_ok_def)
    with x all_ok_moves [OF L(2) client_tunnel(2)] client_link [OF _ L(1) assms(3)] L(3) client_tunnel(1) show ?thesis
      by (simp add: net_ok_def client_now_def)
  next
    case (server_tunnel i l T s k)
    with L(3) have "tun_ok (sv (link N)) (hdl N ! i)" by (simp add: all_ok_def)
    from tun_ok_step [OF server_tunnel(3) this] S(2) obtain x where x: "tun_ok x T" "holder T = holder (hdl N ! i)"
      "used_by {holder (hdl N ! i)} (sv (link N)) x" by blast
    with server_tunnel(4) have "x = s" by (simp add: tun_ok_def)
    with x all_ok_moves [OF L(3) server_tunnel(2)] server_link [OF _ L(1) assms(3)] L(2) server_tunnel(1) show ?thesis
      by (simp add: net_ok_def server_now_def)
  next
    case (client_session s)
    with all_ok_leaves [OF L(2)] client_link [OF used_by_one L(1) assms(3)] L(3) show ?thesis
      by (simp add: net_ok_def client_now_def)
  next
    case (server_session s)
    with all_ok_leaves [OF L(3)] server_link [OF used_by_one L(1) assms(3)] L(2) show ?thesis
      by (simp add: net_ok_def server_now_def)
  next
    case (forwards k app timeout now)
    with all_ok_opens [OF L(2)] S(1) L(1,3) show ?thesis by (simp add: net_ok_def)
  next
    case (handles k dest timeout now)
    with all_ok_opens [OF L(3)] S(2) L(1,2) show ?thesis by (simp add: net_ok_def)
  next
    case (bytes_up m)
    with all_ok_delivered [OF L(3)] mlink_step_inv [OF mlink_step.to_server L(1) assms(3)] L(2) show ?thesis
      by (simp add: net_ok_def)
  next
    case (bytes_down m)
    with all_ok_delivered [OF L(2)] mlink_step_inv [OF mlink_step.to_client L(1) assms(3)] L(3) show ?thesis
      by (simp add: net_ok_def)
  qed
qed

lemma net_ok_run: "net_run N N' \<Longrightarrow> net_ok c N \<Longrightarrow> VerifyConfig c = None \<Longrightarrow> net_ok c N'"
  by (induction rule: net_run.induct) (auto intro: net_ok_step)

lemma net_ok_new: "VerifyConfig c = None \<Longrightarrow> net_ok c (new_net c)"
  by (simp add: net_ok_def new_net_def new_mlink_inv all_ok_def)

section \<open>From end to end\<close>

definition stream_id :: "session \<Rightarrow> sconn tunnel \<Rightarrow> u32" where
  "stream_id s T = stid (objs s ! holder T)"

lemma tun_ok_traffic:
  assumes "tun_ok s T" "connA (fst T) = Inl a"
  shows "prefix (psh (stream_id s T) (outbox s)) (tcp_recvd a)"
    "prefix (tcp_sent a) (read_log (objs s ! holder T))"
proof -
  have c: "connB (fst T) = Inr (s, holder T)" "carried T" "offered_ok (sent_on (connB (fst T))) (snd T AtoB)"
    "thread_ok (snd T BtoA)"
    using assms(1) by (auto simp: tun_ok_def tunnel_ok_def)
  then have "tcp_recvd a = got (snd T AtoB)" "tcp_sent a = put (snd T BtoA)" "read_log (objs s ! holder T) = got (snd T BtoA)"
    using assms(2) by (auto simp: carried_def src_def dst_def mux_taken_def split: dir.splits)
  with c thread_ok_prefix [OF c(4)] show "prefix (psh (stream_id s T) (outbox s)) (tcp_recvd a)"
    "prefix (tcp_sent a) (read_log (objs s ! holder T))"
    by (auto simp: offered_ok_def sent_on_def stream_id_def)
qed


section \<open>Running the tunnels of a system\<close>

text \<open>The client's (\<open>b\<close>) or the server's only tunnel has come to \<open>T\<close>, and its session to \<open>s\<close>.\<close>

definition moved :: "bool \<Rightarrow> session \<Rightarrow> sconn tunnel \<Rightarrow> mux_net \<Rightarrow> mux_net" where
  "moved b s T N = (if b then client_now s (N\<lparr>fwd := [T]\<rparr>) else server_now s (N\<lparr>hdl := [T]\<rparr>))"

definition session_of :: "bool \<Rightarrow> mux_net \<Rightarrow> session" where
  "session_of b N = (if b then cl (link N) else sv (link N))"

definition tunnels_of :: "bool \<Rightarrow> mux_net \<Rightarrow> sconn tunnel list" where
  "tunnels_of b N = (if b then fwd N else hdl N)"

lemma moved_nowhere: "tun_ok (session_of b N) T \<Longrightarrow> tunnels_of b N = [T] \<Longrightarrow> moved b (session_of b N) T N = N"
  using with_session_id
  by (cases b) (simp_all add: moved_def session_of_def tunnels_of_def client_now_def server_now_def new_bytes_def)

lemma moved_twice:
  assumes "outbox x = outbox (session_of b N) @ fs" "outbox s = outbox x @ gs"
  shows "moved b s T' (moved b x T N) = moved b s T' N"
  using new_bytes_more [OF assms]
  by (cases b) (simp_all add: moved_def session_of_def client_now_def server_now_def)

lemma moved_step:
  assumes "tunnel_step (mops b) (sum_env tcp_env (\<lambda>_ _. False)) l T0 T" "tunnels_of b N = [T0]" "tun_ok x T"
  shows "net_step N (moved b x T N)" "tunnels_of b (moved b x T N) = [T]" "session_of b (moved b x T N) = x"
proof -
  have c: "connB (fst T) = Inr (x, holder T)" using assms(3) by (simp add: tun_ok_def)
  show "net_step N (moved b x T N)"
  proof (cases b)
    case True
    then have f: "fwd N = [T0]" using assms(2) by (simp add: tunnels_of_def)
    have st: "tunnel_step (mops True) (sum_env tcp_env (\<lambda>_ _. False)) l (fwd N ! 0) T" using assms(1) True by (simp add: f)
    have "0 < length (fwd N)" by (simp add: f)
    from net_step.client_tunnel [OF this st c] show ?thesis by (simp only: moved_def True if_True f list_update.simps nat.case)
  next
    case False
    then have h: "hdl N = [T0]" using assms(2) by (simp add: tunnels_of_def)
    have st: "tunnel_step (mops False) (sum_env tcp_env (\<lambda>_ _. False)) l (hdl N ! 0) T" using assms(1) False by (simp add: h)
    have "0 < length (hdl N)" by (simp add: h)
    from net_step.server_tunnel [OF this st c] show ?thesis by (simp only: moved_def False if_False h list_update.simps nat.case)
  qed
  have "with_session x T = T" using with_session_id [OF assms(3)] .
  then show "tunnels_of b (moved b x T N) = [T]"
    by (simp add: moved_def tunnels_of_def client_now_def server_now_def)
  show "session_of b (moved b x T N) = x"
    by (simp add: moved_def session_of_def client_now_def server_now_def)
qed

lemma net_ok_side:
  assumes "net_ok c N" "VerifyConfig c = None"
  shows "side c b (session_of b N)" "all_ok (session_of b N) (tunnels_of b N)"
    "frame_size_ok (session_of b N)" "distinct (used (session_of b N))"
proof -
  have "mlink_inv c (link N)" using assms(1) by (simp add: net_ok_def)
  with mlink_sides [OF this assms(2)] assms(1)
  show "side c b (session_of b N)" "all_ok (session_of b N) (tunnels_of b N)"
    "frame_size_ok (session_of b N)" "distinct (used (session_of b N))"
    by (simp_all add: net_ok_def session_of_def tunnels_of_def mlink_inv_def)
qed

lemma net_run_trans: "net_run N' N'' \<Longrightarrow> net_run N N' \<Longrightarrow> net_run N N''"
  by (induction rule: net_run.induct) (auto intro: net_run.intros)

lemma run_cons_net: "net_run N' N'' \<Longrightarrow> net_step N N' \<Longrightarrow> net_run N N''"
  by (induction rule: net_run.induct) (auto intro: net_run.intros)

lemma exec_moves:
  "exec ops cs T = Some T' \<Longrightarrow> ops = mops b \<Longrightarrow> net_ok c N \<Longrightarrow> VerifyConfig c = None \<Longrightarrow> tunnels_of b N = [T] \<Longrightarrow>
     \<exists>s fs. connB (fst T') = Inr (s, holder T') \<and> net_run N (moved b s T' N) \<and> outbox s = outbox (session_of b N) @ fs"
proof (induction ops cs T arbitrary: N rule: exec.induct)
  case (1 ops T)
  from net_ok_side(2) [OF 1(3,4)] have T: "tun_ok (session_of b N) T" using 1(5) by (simp add: all_ok_def)
  from moved_nowhere [OF T 1(5)] net_run.intros(1) [of N] T 1(1) show ?case
    by (intro exI [of _ "session_of b N"] exI [of _ "[]"]) (simp add: tun_ok_def)
next
  case (2 ops d i cs p th)
  let ?r = "ow_step ops d p (th d) ! i" and ?s = "session_of b N"
  let ?T = "(fst ?r, th(d := snd ?r))"
  from 2(2) have i: "i < length (ow_step ops d p (th d))" and ex: "exec ops cs ?T = Some T'"
    by (auto simp: Let_def split: if_splits)
  note side = net_ok_side [OF 2(4,5), of b]
  have T: "tun_ok ?s (p, th)" using side(2) 2(6) by (simp add: all_ok_def)
  have "tunnel_step (mops b) (sum_env tcp_env (\<lambda>_ _. False)) (Some d) (p, th) ?T"
    using i 2(3) by (intro tunnel_step.goroutine) (metis nth_mem prod.collapse)
  note st = this
  from tun_ok_step [OF st T side(3,4)] obtain x where x: "tun_ok x ?T" "used_by {holder (p, th)} ?s x" by blast
  note one = moved_step [OF st 2(6) x(1)]
  from used_by_link [OF x(2) side(1) 2(5)] obtain fs where fs: "outbox x = outbox ?s @ fs" by blast
  from 2(1) [OF refl _ ex 2(3) net_ok_step [OF one(1) 2(4,5)] 2(5) one(2)] i obtain s gs
    where s: "connB (fst T') = Inr (s, holder T')" "net_run (moved b x ?T N) (moved b s T' (moved b x ?T N))"
      "outbox s = outbox x @ gs" using one(3) by auto
  from run_cons_net [OF s(2) one(1)] s(1,3) fs moved_twice [OF fs s(3)] show ?case by auto
qed

lemma exec_run_net:
  assumes "exec (mops b) cs T = Some T'" "net_run (new_net c) N" "VerifyConfig c = None" "tunnels_of b N = [T]"
    and "connB (fst T') = Inr (s, k)"
  shows "net_run (new_net c) (moved b s T' N)"
proof -
  have "net_ok c N" by (rule net_ok_run [OF assms(2) net_ok_new [OF assms(3)] assms(3)])
  from exec_moves [OF assms(1) refl this assms(3,4)] assms(5) show ?thesis by (auto intro: net_run_trans [OF _ assms(2)])
qed

section \<open>A concrete system\<close>

text \<open>
  One tunnel at each end. The application has sent two bytes, which the client's tunnel writes to its stream; the
  server's session receives them, and its tunnel writes them to the destination.
\<close>

definition x_app :: tcp_conn where
  "x_app = ex_b\<lparr>inq := [7, 8]\<rparr>"

definition x_client :: "sconn tunnel" where
  "x_client = openTunnel (Inl x_app) (Inr (c_open, 0)) 1000 10 []"

definition x_written :: session where
  "x_written = snd (hd (stream_write 10 [7, 8] 0 (SetWriteDeadline 1010 0 c_open)))"

definition x_moves :: "(dir \<times> nat) list" where
  "x_moves = [(AtoB, 0), (AtoB, 0), (AtoB, 0), (AtoB, 0), (AtoB, 0), (AtoB, 0), (AtoB, 0)]"

definition x_client' :: "sconn tunnel" where
  "x_client' = the (exec (mops True) x_moves x_client)"

lemma x_write: "stream_write 10 [7, 8] 0 (SetWriteDeadline 1010 0 c_open) = [((2, None), x_written)]"
  by code_simp

lemma mops_eval:
  "c_read (mops b) now n (Inl a) = map_result Inl (tcp_read now n a)"
  "c_write (mops b) now bs (Inl a) = map_result Inl (tcp_write now bs a)"
  "c_set_read_deadline (mops b) dl (Inl a) = Inl (a\<lparr>rdl := Some dl\<rparr>)"
  "c_set_write_deadline (mops b) dl (Inl a) = Inl (a\<lparr>wdl := Some dl\<rparr>)"
  "c_read (mops b) now n (Inr (x, k)) = map_result Inr (keep_ref k (stream_read now n k x))"
  "c_write (mops b) now bs (Inr (x, k)) = map_result Inr (keep_ref k (stream_write now bs k x))"
  "c_set_read_deadline (mops b) dl (Inr (x, k)) = Inr (SetReadDeadline dl k x, k)"
  "c_set_write_deadline (mops b) dl (Inr (x, k)) = Inr (SetWriteDeadline dl k x, k)"
  by (simp_all add: mops_def sum_ops_def tcp_ops_def stream_ops_def cmux_ops_def smux_ops_def)

lemmas mux_eval = openTunnel_def thread_new_def Let_def ow_step_def acquireIOBuf_def src_def
  dst_def set_src_def set_dst_def read_step_def write_step_def map_result_def keep_ref_def tcp_read_def
  tcp_write_def tcp_accept_def expired_def after_read_def after_write_def
  defaultCopyIOBufferSize_def mops_eval

lemma x_client_runs:
  "\<exists>p th. exec (mops True) x_moves x_client = Some (p, th) \<and> x_client' = (p, th)
     \<and> connB p = Inr (x_written, 0) \<and> (\<exists>a. connA p = Inl a \<and> tcp_recvd a = [7, 8])"
  unfolding x_client'_def
  by (simp add: x_client_def x_app_def ex_b_def mux_eval x_write x_moves_def)

definition x_bytes :: "byte list" where
  "x_bytes = new_bytes (newSession small_config True) c_open @ new_bytes c_open x_written"

definition x_recv :: "nat \<Rightarrow> session" where
  "x_recv n = ((\<lambda>s. hd (recv_step s)) ^^ n) (delivered x_bytes (newSession small_config False))"

lemma x_recv_leaves: "leaves {} (x_recv 0) (x_recv 1)" "leaves {} (x_recv 1) (x_recv 2)"
proof -
  have 0: "recv_step (x_recv 0) \<noteq> []" "\<not> client (x_recv 0)" "x_recv 1 = hd (recv_step (x_recv 0))"
    "length (inbuf (x_recv 1)) \<le> length (inbuf (x_recv 0))" "objs (x_recv 0) = []" by code_simp+
  then show "leaves {} (x_recv 0) (x_recv 1)"
    unfolding leaves_def own_step_def using receive [of "x_recv 0" "x_recv 1"] by simp
  have 1: "recv_step (x_recv 1) \<noteq> []" "\<not> client (x_recv 1)" "x_recv 2 = hd (recv_step (x_recv 1))"
    "length (inbuf (x_recv 2)) \<le> length (inbuf (x_recv 1))" "length (objs (x_recv 1)) = 1" "same_stream (x_recv 1) (x_recv 2) 0"
    by code_simp+
  then show "leaves {} (x_recv 1) (x_recv 2)"
    unfolding leaves_def own_step_def using receive [of "x_recv 1" "x_recv 2"] by simp
qed

definition x_server :: "sconn tunnel" where
  "x_server = openTunnel (Inl ex_b) (Inr (x_recv 2, 0)) 1000 10 []"

definition x_read :: session where
  "x_read = snd (read_block 16384 0 (SetReadDeadline 1010 0 (x_recv 2)))"

definition x_server_moves :: "(dir \<times> nat) list" where
  "x_server_moves = [(BtoA, 0), (BtoA, 0), (BtoA, 0), (BtoA, 0), (BtoA, 0), (BtoA, 0), (BtoA, 0)]"

definition x_server' :: "sconn tunnel" where
  "x_server' = the (exec (mops False) x_server_moves x_server)"

lemma stream_read_first:
  assumes "\<not> parked (objs s ! k)" "buffers (objs s ! k) = b # bs" "length b \<le> n" "0 < n"
  shows "stream_read now n k s = [((b, None), snd (read_block n k s))]"
  using assms by (simp add: stream_read_def try_read_def read_block_def take_block_def Let_def)

lemma x_read_result: "stream_read 10 16384 0 (SetReadDeadline 1010 0 (x_recv 2)) = [(([7, 8], None), x_read)]"
proof -
  have "\<not> parked (objs (SetReadDeadline 1010 0 (x_recv 2)) ! 0)"
    "buffers (objs (SetReadDeadline 1010 0 (x_recv 2)) ! 0) = [[7, 8]]" by code_simp+
  from stream_read_first [OF this] show ?thesis by (simp add: x_read_def)
qed

lemma x_server_runs:
  "\<exists>p th. exec (mops False) x_server_moves x_server = Some (p, th) \<and> x_server' = (p, th)
     \<and> connB p = Inr (x_read, 0) \<and> (\<exists>d. connA p = Inl d \<and> tcp_sent d = [7, 8])"
  unfolding x_server'_def
  by (simp add: x_server_def ex_b_def mux_eval x_read_result x_server_moves_def)

text \<open>The state with the sessions and tunnels given, and these bytes under way to the server.\<close>

definition x_net :: "session \<Rightarrow> session \<Rightarrow> byte list \<Rightarrow> sconn tunnel list \<Rightarrow> sconn tunnel list \<Rightarrow> mux_net" where
  "x_net s s' bs Ts Us = \<lparr>link = \<lparr>cl = s, sv = s', up = bs, down = []\<rparr>, fwd = Ts, hdl = Us\<rparr>"

lemma x_config: "VerifyConfig small_config = None"
  by (simp add: VerifyConfig_def small_config_def sample_config_def)

lemma x_client_part: "net_run (new_net small_config) (x_net x_written (newSession small_config False) x_bytes [x_client'] [])"
proof -
  let ?c = "newSession small_config True" and ?s = "newSession small_config False"
  let ?b = "new_bytes ?c c_open"
  have "new_net small_config = x_net ?c ?s [] [] []" by (simp add: new_net_def new_mlink_def x_net_def)
  moreover have "leaves {} ?c c_open" using own_steps(1) by (simp add: leaves_def newSession_def)
  ultimately have "net_run (new_net small_config) (client_now c_open (x_net ?c ?s [] [] []))"
    using net_more [OF net_start net_step.client_session, of "new_net small_config"] by (simp add: x_net_def)
  then have 1: "net_run (new_net small_config) (x_net c_open ?s ?b [] [])" by (simp add: client_now_def x_net_def)
  have "idle c_open 0" by code_simp
  then have "net_step (x_net c_open ?s ?b [] []) (x_net c_open ?s ?b [x_client] [])"
    using net_step.forwards [of "x_net c_open ?s ?b [] []" 0 x_app 1000 10]
    by (simp add: x_net_def x_client_def x_app_def ex_b_def untouched_def)
  with 1 have 2: "net_run (new_net small_config) (x_net c_open ?s ?b [x_client] [])" by (rule net_more)
  obtain p th where C: "exec (mops True) x_moves x_client = Some x_client'" "x_client' = (p, th)" "connB p = Inr (x_written, 0)"
    using x_client_runs by auto
  have "tunnels_of True (x_net c_open ?s ?b [x_client] []) = [x_client]" by (simp add: tunnels_of_def x_net_def)
  moreover have "connB (fst x_client') = Inr (x_written, 0)" by (simp add: C(2,3))
  moreover have "with_session x_written x_client' = x_client'" by (simp add: with_session_def holder_def C(2,3))
  ultimately show ?thesis using exec_run_net [OF C(1) 2 x_config] by (simp add: moved_def client_now_def x_net_def x_bytes_def)
qed

definition x_end :: mux_net where
  "x_end = moved False x_read x_server' (x_net x_written (x_recv 2) [] [x_client'] [x_server])"

lemma x_end_run: "net_run (new_net small_config) x_end"
proof -
  let ?s = "newSession small_config False" and ?net = "\<lambda>s bs. x_net x_written s bs [x_client'] []"
  have more: "net_run (new_net small_config) N \<Longrightarrow> net_step N N' \<Longrightarrow> net_run (new_net small_config) N'" for N N'
    by (rule net_more)
  have 0: "x_recv 0 = delivered x_bytes ?s" by (simp add: x_recv_def)
  have "net_step (?net ?s x_bytes) (?net (x_recv 0) [])"
    using net_step.bytes_up [of "?net ?s x_bytes" "length x_bytes"] by (simp add: x_net_def newSession_def 0)
  with x_client_part have "net_run (new_net small_config) (?net (x_recv 0) [])" by (rule more)
  moreover have "new_bytes (x_recv 0) (x_recv 1) = []" "new_bytes (x_recv 1) (x_recv 2) = []" by code_simp+
  then have "net_step (?net (x_recv 0) []) (?net (x_recv 1) [])" "net_step (?net (x_recv 1) []) (?net (x_recv 2) [])"
    using net_step.server_session [of "?net (x_recv 0) []" "x_recv 1"] net_step.server_session [of "?net (x_recv 1) []" "x_recv 2"]
      x_recv_leaves by (simp_all add: x_net_def server_now_def)
  ultimately have "net_run (new_net small_config) (?net (x_recv 2) [])" using more by blast
  moreover have "idle (x_recv 2) 0" by code_simp
  then have "net_step (?net (x_recv 2) []) (x_net x_written (x_recv 2) [] [x_client'] [x_server])"
    using net_step.handles [of "?net (x_recv 2) []" 0 ex_b 1000 10] by (simp add: x_net_def x_server_def ex_b_def untouched_def)
  ultimately have r: "net_run (new_net small_config) (x_net x_written (x_recv 2) [] [x_client'] [x_server])" by (rule more)
  have S: "exec (mops False) x_server_moves x_server = Some x_server'" "connB (fst x_server') = Inr (x_read, 0)"
    using x_server_runs by (metis fst_conv)+
  have "tunnels_of False (x_net x_written (x_recv 2) [] [x_client'] [x_server]) = [x_server]"
    by (simp add: tunnels_of_def x_net_def)
  from exec_run_net [OF S(1) r x_config this S(2)] show ?thesis by (simp add: x_end_def)
qed


end
