(* ===== verification/ShaperHeap.thy ===== *)
theory ShaperHeap
  imports SmuxFrame "HOL-Library.Multiset"
begin

text \<open>
  The queue of the write shaper of a multiplexing session: \<^verbatim>\<open>shaperHeap\<close> of
  \<^verbatim>\<open>src/vendor/github.com/xtaci/smux/shaper.go\<close>, kept in order by \<^verbatim>\<open>heap.Push\<close> and \<^verbatim>\<open>heap.Pop\<close> of the standard
  package \<^verbatim>\<open>container/heap\<close>. The interface \<open>prio_queue\<close> says what the shaper relies on.
\<close>

section \<open>Requests\<close>

text \<open>
  A \<^verbatim>\<open>writeRequest\<close>. The data of its frame is a slice: a buffer, where the slice starts in it, and how long it is.
  \<open>result\<close> stands for the channel made for the answer.
\<close>

record slice =
  buf :: nat
  off :: nat
  len :: nat

record writeRequest =
  prio :: "64 word"
  rver :: byte
  rcmd :: byte
  rsid :: u32
  rdata :: slice
  result :: nat

section \<open>shaperHeap\<close>

type_synonym shaperHeap = "writeRequest list"

definition Less :: "shaperHeap \<Rightarrow> nat \<Rightarrow> nat \<Rightarrow> bool" where
  "Less h i j = (prio (h ! i) < prio (h ! j))"

definition Swap :: "nat \<Rightarrow> nat \<Rightarrow> shaperHeap \<Rightarrow> shaperHeap" where
  "Swap i j h = h[i := h ! j, j := h ! i]"

definition shaperHeap_Push :: "writeRequest \<Rightarrow> shaperHeap \<Rightarrow> shaperHeap" where
  "shaperHeap_Push x h = h @ [x]"

definition shaperHeap_Pop :: "shaperHeap \<Rightarrow> writeRequest \<times> shaperHeap" where
  "shaperHeap_Pop h = (h ! (length h - 1), take (length h - 1) h)"

section \<open>container/heap\<close>

definition parent :: "nat \<Rightarrow> nat" where
  "parent i = (i - 1) div 2"

lemma parent_less: "0 < i \<Longrightarrow> parent i < i"
  by (simp add: parent_def)

lemma parent_le: "parent i \<le> i"
  by (simp add: parent_def)

lemma parent_eq: "parent i = i \<longleftrightarrow> i = 0"
  using parent_less [of i] by (cases "i = 0") (auto simp: parent_def)

lemma parent_iff: "0 < i \<Longrightarrow> parent i = j \<longleftrightarrow> i = 2 * j + 1 \<or> i = 2 * j + 2"
  by (auto simp: parent_def)

function up :: "nat \<Rightarrow> shaperHeap \<Rightarrow> shaperHeap" where
  "up j h =
     (let i = parent j in
      if i = j \<or> \<not> Less h j i then h else up i (Swap i j h))"
  by pat_completeness auto
termination
  by (relation "measure fst") (use parent_less parent_eq in \<open>auto simp: Let_def\<close>)

function down :: "nat \<Rightarrow> nat \<Rightarrow> shaperHeap \<Rightarrow> shaperHeap" where
  "down n i h =
     (let j1 = 2 * i + 1; j2 = j1 + 1; j = (if j2 < n \<and> Less h j2 j1 then j2 else j1) in
      if n \<le> j1 \<or> \<not> Less h j i then h else down n j (Swap i j h))"
  by pat_completeness auto
termination
  by (relation "measure (\<lambda>(n, i, h). n - i)") (auto simp: Let_def split: if_splits)

declare up.simps [simp del] down.simps [simp del]

definition heap_Push :: "writeRequest \<Rightarrow> shaperHeap \<Rightarrow> shaperHeap" where
  "heap_Push x h = (let h1 = shaperHeap_Push x h in up (length h1 - 1) h1)"

definition heap_Pop :: "shaperHeap \<Rightarrow> writeRequest \<times> shaperHeap" where
  "heap_Pop h = (let n = length h - 1 in shaperHeap_Pop (down n 0 (Swap 0 n h)))"

section \<open>The elements are kept\<close>

lemma Swap_length [simp]: "length (Swap i j h) = length h"
  by (simp add: Swap_def)

lemma Swap_mset: "i < length h \<Longrightarrow> j < length h \<Longrightarrow> mset (Swap i j h) = mset h"
  unfolding Swap_def by (rule mset_swap)

lemma Swap_nth:
  "i < length h \<Longrightarrow> j < length h \<Longrightarrow> Swap i j h ! k = (if k = j then h ! i else if k = i then h ! j else h ! k)"
  by (auto simp: Swap_def nth_list_update)

lemma up_mset: "j < length h \<Longrightarrow> mset (up j h) = mset h"
proof (induction j h rule: up.induct)
  case (1 j h)
  have "parent j < length h" using 1(2) parent_le [of j] by simp
  with 1 show ?case by (subst up.simps) (auto simp: Let_def Swap_mset)
qed

lemma down_0 [simp]: "down 0 i h = h"
  by (subst down.simps) simp

lemma down_mset: "i < n \<Longrightarrow> n \<le> length h \<Longrightarrow> mset (down n i h) = mset h"
proof (induction n i h rule: down.induct)
  case (1 n i h)
  show ?case
    by (subst down.simps) (use 1 in \<open>auto simp: Let_def Swap_mset\<close>)
qed

lemma up_length [simp]: "j < length h \<Longrightarrow> length (up j h) = length h"
  using up_mset mset_eq_length by blast

lemma down_length [simp]: "i < n \<Longrightarrow> n \<le> length h \<Longrightarrow> length (down n i h) = length h"
  using down_mset mset_eq_length by blast

text \<open>What lies beyond \<open>n\<close> is not touched.\<close>

lemma down_beyond: "i < n \<Longrightarrow> n \<le> length h \<Longrightarrow> n \<le> k \<Longrightarrow> down n i h ! k = h ! k"
proof (induction n i h rule: down.induct)
  case (1 n i h)
  show ?case
    by (subst down.simps) (use 1 in \<open>auto simp: Let_def Swap_nth\<close>)
qed

section \<open>The order is kept\<close>

text \<open>
  \<open>edge h i\<close>: the parent of \<open>i\<close> is not after it. In a heap of the first \<open>n\<close> elements all edges are good; while an
  element moves up or down, all but those at the element are, and its parent is not after its children.
\<close>

definition edge :: "shaperHeap \<Rightarrow> nat \<Rightarrow> bool" where
  "edge h i = (prio (h ! parent i) \<le> prio (h ! i))"

definition heap_upto :: "nat \<Rightarrow> shaperHeap \<Rightarrow> bool" where
  "heap_upto n h = (\<forall>i < n. edge h i)"

definition is_heap :: "shaperHeap \<Rightarrow> bool" where
  "is_heap h = heap_upto (length h) h"

definition rising :: "nat \<Rightarrow> shaperHeap \<Rightarrow> bool" where
  "rising j h \<longleftrightarrow> (\<forall>i < length h. (i \<noteq> j \<longrightarrow> edge h i) \<and> (parent i = j \<longrightarrow> prio (h ! parent j) \<le> prio (h ! i)))"

definition sinking :: "nat \<Rightarrow> nat \<Rightarrow> shaperHeap \<Rightarrow> bool" where
  "sinking n j h \<longleftrightarrow> (\<forall>i < n. (parent i \<noteq> j \<longrightarrow> edge h i)
     \<and> (0 < j \<and> parent i = j \<longrightarrow> prio (h ! parent j) \<le> prio (h ! i)))"

lemma rising_swap:
  assumes "rising j h" "j < length h" "0 < j" "Less h j (parent j)"
  shows "rising (parent j) (Swap (parent j) j h)"
proof -
  let ?p = "parent j" and ?h = "Swap (parent j) j h"
  have p: "?p < j" "?p < length h" using assms(2,3) parent_less [of j] by auto
  have up: "prio (h ! parent ?p) \<le> prio (h ! ?p)" using assms(1) p unfolding rising_def edge_def by auto
  have nth: "?h ! k = (if k = j then h ! ?p else if k = ?p then h ! j else h ! k)" for k
    using p assms(2) by (simp add: Swap_nth)
  show ?thesis
    unfolding rising_def
  proof (intro allI impI conjI)
    fix i assume i: "i < length ?h" "i \<noteq> ?p"
    show "edge ?h i"
      using assms(1) i assms(4) p by (auto simp: rising_def edge_def nth Less_def)
  next
    fix i assume i: "i < length ?h" "parent i = ?p"
    have less: "prio (h ! j) \<le> prio (h ! ?p)" using assms(4) by (simp add: Less_def)
    have pp: "parent ?p \<noteq> j" "parent i \<noteq> j" using p parent_le [of ?p] i(2) by auto
    have kept: "prio (h ! ?p) \<le> prio (h ! i)" if "i \<noteq> j" using assms(1) i that by (auto simp: rising_def edge_def)
    show "prio (?h ! parent ?p) \<le> prio (?h ! i)"
    proof (cases "?p = 0")
      case True
      then have same: "parent ?p = ?p" by (simp add: parent_eq)
      have at_p: "?h ! ?p = h ! j" using p(1) by (simp only: nth) simp
      consider "i = ?p" | "i = j" | "i \<noteq> j" "i \<noteq> ?p" by blast
      then show ?thesis
        unfolding same
      proof cases
        case 2
        then have "?h ! i = h ! ?p" using nth [of j] by simp
        with less show "prio (?h ! ?p) \<le> prio (?h ! i)" unfolding at_p by simp
      next
        case 3
        then have "?h ! i = h ! i" using nth [of i] by simp
        with order_trans [OF less kept [OF 3(1)]] show "prio (?h ! ?p) \<le> prio (?h ! i)" unfolding at_p by simp
      qed simp
    next
      case False
      then have "parent ?p \<noteq> ?p" by (simp only: parent_eq not_False_eq_True)
      with i(2) have "i \<noteq> ?p" by (rule_tac notI) simp
      have same: "?h ! parent ?p = h ! parent ?p" using \<open>parent ?p \<noteq> ?p\<close> pp(1) nth [of "parent ?p"] by simp
      show ?thesis
      proof (cases "i = j")
        case True
        then have "?h ! i = h ! ?p" using nth [of j] by simp
        with up show ?thesis unfolding same by simp
      next
        case False
        then have "?h ! i = h ! i" using nth [of i] \<open>i \<noteq> ?p\<close> by simp
        with order_trans [OF up kept [OF False]] show ?thesis unfolding same by simp
      qed
    qed
  qed
qed

lemma up_heap: "rising j h \<Longrightarrow> j < length h \<Longrightarrow> is_heap (up j h)"
proof (induction j h rule: up.induct)
  case (1 j h)
  show ?case
  proof (cases "j = 0 \<or> \<not> Less h j (parent j)")
    case True
    with 1(2,3) have "\<forall>i < length h. edge h i"
      unfolding rising_def by (metis edge_def Less_def not_less order_refl parent_eq)
    with True show ?thesis by (subst up.simps) (auto simp: is_heap_def heap_upto_def parent_eq Let_def)
  next
    case False
    with 1(3) have "parent j < length h" using parent_le [of j] by simp
    with False 1 rising_swap [OF 1(2,3)] show ?thesis by (subst up.simps) (auto simp: parent_eq Let_def)
  qed
qed

lemma sinking_stop:
  assumes "sinking n i h" "n \<le> 2 * i + 1 \<or> \<not> Less h j i"
    and "j = (if 2 * i + 2 < n \<and> Less h (2 * i + 2) (2 * i + 1) then 2 * i + 2 else 2 * i + 1)"
  shows "heap_upto n h"
  unfolding heap_upto_def
proof (intro allI impI)
  fix k assume k: "k < n"
  show "edge h k"
  proof (cases "parent k = i \<and> 0 < k")
    case True
    then show ?thesis
      using assms(2,3) k parent_iff [of k i] by (auto simp: edge_def Less_def split: if_splits)
  next
    case False
    then show ?thesis
      using assms(1) k by (cases "k = 0") (auto simp: sinking_def edge_def parent_def)
  qed
qed

lemma sinking_swap:
  assumes "sinking n i h" "2 * i + 1 < n" "n \<le> length h" "Less h j i"
    and j: "j = (if 2 * i + 2 < n \<and> Less h (2 * i + 2) (2 * i + 1) then 2 * i + 2 else 2 * i + 1)"
  shows "sinking n j (Swap i j h)"
proof -
  let ?h = "Swap i j h"
  have jn: "j < n" "i < j" "parent j = i" using assms(2) j parent_iff [of j i] by (auto split: if_splits)
  have nth: "?h ! k = (if k = j then h ! i else if k = i then h ! j else h ! k)" for k
    using jn assms(3) by (simp add: Swap_nth)
  have least: "prio (h ! j) \<le> prio (h ! k)" if "parent k = i" "0 < k" "k < n" for k
    using that j parent_iff [of k i] by (auto simp: Less_def split: if_splits)
  have above: "0 < i \<Longrightarrow> prio (h ! parent i) \<le> prio (h ! j)" using assms(1) jn by (auto simp: sinking_def)
  show ?thesis
    unfolding sinking_def
  proof (intro allI impI conjI)
    fix k assume k: "k < n" "parent k \<noteq> j"
    consider "k = 0" | "k = j" | "0 < k" "parent k = i" "k \<noteq> j" | "k = i" "0 < k" | "0 < k" "parent k \<noteq> i" "k \<noteq> j" "k \<noteq> i"
      using jn by blast
    then show "edge ?h k"
    proof cases
      case 1 then show ?thesis by (simp add: edge_def parent_def)
    next
      case 2 then show ?thesis using jn assms(4) by (auto simp: edge_def nth Less_def)
    next
      case 3 then show ?thesis using least [of k] k parent_less [of k] by (auto simp: edge_def nth)
    next
      case 4 then show ?thesis using above jn parent_less [of k] by (auto simp: edge_def nth)
    next
      case 5 then show ?thesis using assms(1) k by (auto simp: sinking_def edge_def nth)
    qed
  next
    fix k assume "k < n" "0 < j \<and> parent k = j"
    then have k: "k < n" "parent k = j" by auto
    have "k \<noteq> 0" using k(2) jn by (auto simp: parent_def)
    then have "j < k" using k(2) parent_less [of k] by simp
    then show "prio (?h ! parent j) \<le> prio (?h ! k)"
      using assms(1) k jn by (auto simp: nth sinking_def edge_def)
  qed
qed

lemma down_heap: "sinking n i h \<Longrightarrow> i < n \<Longrightarrow> n \<le> length h \<Longrightarrow> heap_upto n (down n i h)"
proof (induction n i h rule: down.induct)
  case (1 n i h)
  define j where j: "j = (if 2 * i + 2 < n \<and> Less h (2 * i + 2) (2 * i + 1) then 2 * i + 2 else 2 * i + 1)"
  have d: "down n i h = (if n \<le> 2 * i + 1 \<or> \<not> Less h j i then h else down n j (Swap i j h))"
    by (subst down.simps) (simp add: Let_def j)
  show ?case
  proof (cases "n \<le> 2 * i + 1 \<or> \<not> Less h j i")
    case True
    with sinking_stop [OF 1(2) True j] show ?thesis by (simp add: d)
  next
    case False
    then have "sinking n j (Swap i j h)" using sinking_swap [OF 1(2) _ 1(4) _ j] by simp
    moreover have "j < n" using False j by (auto split: if_splits)
    ultimately show ?thesis using False 1 by (simp add: d j)
  qed
qed

text \<open>The root of a heap is the least element.\<close>

lemma heap_root: "heap_upto n h \<Longrightarrow> i < n \<Longrightarrow> prio (h ! 0) \<le> prio (h ! i)"
proof (induction i rule: less_induct)
  case (less i)
  show ?case
  proof (cases "i = 0")
    case False
    then have "prio (h ! 0) \<le> prio (h ! parent i)" using less parent_less [of i] by simp
    also have "\<dots> \<le> prio (h ! i)" using less(2,3) by (simp add: heap_upto_def edge_def)
    finally show ?thesis .
  qed simp
qed

section \<open>The interface of a priority queue\<close>

text \<open>
  What the shaper relies on. It keeps one request \<open>x\<close> apart as the next to go; when another arrives, both enter the
  queue and the least comes out again.
\<close>

locale prio_queue =
  fixes empty :: 'q
    and push :: "'a \<Rightarrow> 'q \<Rightarrow> 'q"
    and pop :: "'q \<Rightarrow> 'a \<times> 'q"
    and items :: "'q \<Rightarrow> 'a multiset"
    and key :: "'a \<Rightarrow> 'k::linorder"
    and ok :: "'q \<Rightarrow> bool"
  assumes ok_empty: "ok empty"
    and items_empty: "items empty = {#}"
    and ok_push: "ok q \<Longrightarrow> ok (push x q)"
    and items_push: "items (push x q) = add_mset x (items q)"
    and ok_pop: "ok q \<Longrightarrow> items q \<noteq> {#} \<Longrightarrow> ok (snd (pop q))"
    and items_pop: "items q \<noteq> {#} \<Longrightarrow> items q = add_mset (fst (pop q)) (items (snd (pop q)))"
    and key_pop: "ok q \<Longrightarrow> y \<in># items q \<Longrightarrow> key (fst (pop q)) \<le> key y"
begin

lemma pop_least_rest:
  assumes "ok q" "y \<in># items (snd (pop q))" "items q \<noteq> {#}"
  shows "key (fst (pop q)) \<le> key y"
  using assms key_pop [of q y] items_pop [of q] by simp

lemma pops_rise:
  assumes "ok q" "items q \<noteq> {#}" "items (snd (pop q)) \<noteq> {#}"
  shows "key (fst (pop q)) \<le> key (fst (pop (snd (pop q))))"
  using assms items_pop [of "snd (pop q)"] pop_least_rest [OF assms(1) _ assms(2)] by simp

lemma reshape:
  assumes "ok q"
  shows "ok (snd (pop (push r (push x q))))"
    and "add_mset (fst (pop (push r (push x q)))) (items (snd (pop (push r (push x q))))) = {#r, x#} + items q"
    and "y \<in># {#r, x#} + items q \<Longrightarrow> key (fst (pop (push r (push x q)))) \<le> key y"
proof -
  have o: "ok (push r (push x q))" and i: "items (push r (push x q)) = {#r, x#} + items q"
    using assms by (simp_all add: ok_push items_push)
  show "ok (snd (pop (push r (push x q))))" by (rule ok_pop [OF o]) (simp add: i)
  show "add_mset (fst (pop (push r (push x q)))) (items (snd (pop (push r (push x q))))) = {#r, x#} + items q"
    using items_pop [of "push r (push x q)"] unfolding i by simp
  show "key (fst (pop (push r (push x q)))) \<le> key y" if "y \<in># {#r, x#} + items q"
    using that by (intro key_pop [OF o]) (simp add: i)
qed

end

lemma edge_append: "i < length h \<Longrightarrow> edge (h @ [x]) i = edge h i"
  using parent_le [of i] by (simp add: edge_def nth_append)

lemma heap_Push_heap:
  assumes "is_heap h"
  shows "is_heap (heap_Push x h)"
proof -
  have "i = 0 \<and> h = []" if "i < length (h @ [x])" "parent i = length h" for i
    using that parent_less [of i] by (cases "i = 0") (auto simp: parent_def)
  moreover have "edge (h @ [x]) i" if "i < length (h @ [x])" "i \<noteq> length h" for i
    using that assms edge_append [of i h x] by (simp add: is_heap_def heap_upto_def)
  moreover have "parent 0 = 0" by (simp add: parent_def)
  ultimately have "rising (length h) (h @ [x])"
    unfolding rising_def by (metis length_0_conv order_refl)
  then show ?thesis
    unfolding heap_Push_def shaperHeap_Push_def Let_def by (intro up_heap) simp_all
qed

lemma heap_Push_mset: "mset (heap_Push x h) = add_mset x (mset h)"
  by (simp add: heap_Push_def shaperHeap_Push_def Let_def up_mset)

lemma heap_Pop_parts:
  assumes "h \<noteq> []"
  defines "n \<equiv> length h - 1"
  shows "fst (heap_Pop h) = h ! 0" "snd (heap_Pop h) = take n (down n 0 (Swap 0 n h))"
proof -
  have n: "n < length h" "0 < length h" using assms by auto
  have "length (down n 0 (Swap 0 n h)) = length h \<and> down n 0 (Swap 0 n h) ! n = h ! 0"
  proof (cases "n = 0")
    case True
    then show ?thesis by (simp add: Swap_def)
  next
    case False
    with n show ?thesis by (simp add: down_beyond Swap_nth)
  qed
  then show "fst (heap_Pop h) = h ! 0" "snd (heap_Pop h) = take n (down n 0 (Swap 0 n h))"
    by (simp_all add: heap_Pop_def shaperHeap_Pop_def n_def Let_def)
qed

lemma heap_Pop_mset:
  assumes "h \<noteq> []"
  shows "mset h = add_mset (fst (heap_Pop h)) (mset (snd (heap_Pop h)))"
proof -
  define n where "n = length h - 1"
  define g where "g = down n 0 (Swap 0 n h)"
  have n: "n < length h" "0 < length h" using assms by (auto simp: n_def)
  have m: "mset g = mset h"
    using n by (cases "n = 0") (simp_all add: g_def Swap_mset down_mset)
  have l: "length g = Suc n" using mset_eq_length [OF m] n by (simp add: n_def)
  have "heap_Pop h = shaperHeap_Pop g" by (simp add: heap_Pop_def g_def n_def Let_def)
  then have "fst (heap_Pop h) = g ! n" using l by (simp add: shaperHeap_Pop_def)
  with l have "g = snd (heap_Pop h) @ [fst (heap_Pop h)]"
    using heap_Pop_parts(2) [OF assms] take_Suc_conv_app_nth [of n g] by (simp add: n_def g_def)
  then have "mset h = mset (snd (heap_Pop h) @ [fst (heap_Pop h)])" using m by simp
  then show ?thesis by simp
qed

lemma heap_Pop_heap:
  assumes "is_heap h" "h \<noteq> []"
  shows "is_heap (snd (heap_Pop h))"
proof -
  define n where "n = length h - 1"
  define g where "g = down n 0 (Swap 0 n h)"
  have n: "n < length h" "0 < length h" using assms by (auto simp: n_def)
  have "heap_upto n g"
  proof (cases "n = 0")
    case False
    have "edge (Swap 0 n h) i" if "i < n" "parent i \<noteq> 0" for i
    proof -
      have "i \<noteq> 0" "parent i < n" "edge h i"
        using that assms(1) parent_le [of i] by (auto simp: is_heap_def heap_upto_def n_def parent_def)
      with that n show ?thesis by (simp add: edge_def Swap_nth)
    qed
    with False n show ?thesis by (auto simp: g_def intro!: down_heap simp: sinking_def)
  qed (simp add: heap_upto_def)
  moreover have "parent i < n" if "i < n" for i using that parent_le [of i] by simp
  moreover have "n \<le> length g" using n by (cases "n = 0") (simp_all add: g_def)
  ultimately show ?thesis
    unfolding heap_Pop_parts(2) [OF assms(2), folded n_def, folded g_def] is_heap_def heap_upto_def
    by (auto simp: edge_def)
qed

lemma heap_Pop_least: "is_heap h \<Longrightarrow> y \<in> set h \<Longrightarrow> prio (fst (heap_Pop h)) \<le> prio y"
  by (cases "h = []") (auto simp: heap_Pop_parts is_heap_def in_set_conv_nth intro: heap_root)

interpretation heap: prio_queue "[]" heap_Push heap_Pop mset prio is_heap
proof
  show "is_heap ([] :: shaperHeap)" by (simp add: is_heap_def heap_upto_def)
qed (simp_all add: heap_Push_heap heap_Push_mset heap_Pop_heap heap_Pop_mset heap_Pop_least)

section \<open>Requests that wait leave in the order of their priorities\<close>

fun drain :: "nat \<Rightarrow> shaperHeap \<Rightarrow> writeRequest list" where
  "drain 0 h = []"
| "drain (Suc n) h = (let (x, h1) = heap_Pop h in x # drain n h1)"

lemma drain_sorted:
  assumes "is_heap h"
  shows "mset (drain (length h) h) = mset h \<and> sorted (map prio (drain (length h) h))"
  using assms
proof (induction "length h" arbitrary: h)
  case (Suc n)
  then have h: "h \<noteq> []" by auto
  have len: "length (snd (heap_Pop h)) = n"
    using arg_cong [OF heap_Pop_mset [OF h], of size] Suc(2) by simp
  note rest = Suc.hyps(1) [OF len [symmetric] heap_Pop_heap [OF Suc.prems h], unfolded len]
  have "set (drain n (snd (heap_Pop h))) = set (snd (heap_Pop h))"
    using rest mset_eq_setD by blast
  then have "\<forall>y \<in> set (drain n (snd (heap_Pop h))). prio (fst (heap_Pop h)) \<le> prio y"
    using heap.pop_least_rest [OF Suc.prems] h by simp
  with rest show ?case
    by (simp add: Suc(2) [symmetric] case_prod_beta heap_Pop_mset [OF h])
qed simp

lemma pushed_is_heap: "is_heap h \<Longrightarrow> is_heap (fold heap_Push rs h) \<and> mset (fold heap_Push rs h) = mset rs + mset h"
  by (induction rs arbitrary: h) (simp_all add: heap_Push_heap heap_Push_mset)

text \<open>C27: The requests that wait leave in the order of their priorities, each of them once.\<close>

theorem waiting_requests_sorted:
  "mset (drain (length rs) (fold heap_Push rs [])) = mset rs
   \<and> sorted (map prio (drain (length rs) (fold heap_Push rs [])))"
proof -
  have p: "is_heap (fold heap_Push rs [])" "mset (fold heap_Push rs []) = mset rs"
    using pushed_is_heap [OF heap.ok_empty, of rs] by simp_all
  from mset_eq_length [OF p(2)] drain_sorted [OF p(1)] p(2) show ?thesis by simp
qed

end
