(* ===== verification/SmuxShaper.thy ===== *)
theory SmuxShaper
  imports ShaperHeap
begin

text \<open>
  How the goroutines of a session write frames: \<^verbatim>\<open>writeFrameInternal\<close>, \<^verbatim>\<open>shaperLoop\<close> and \<^verbatim>\<open>sendLoop\<close> of
  \<^verbatim>\<open>src/vendor/github.com/xtaci/smux/session.go\<close>, one channel operation at a time. The data of a frame is a slice of
  the caller's buffer until \<^verbatim>\<open>sendLoop\<close> copies it. A caller leaves its buffer alone during a call, and may do
  with it what it likes before and after.
\<close>

section \<open>State\<close>

text \<open>
  A call of \<^verbatim>\<open>writeFrameInternal\<close> is at its first \<^verbatim>\<open>select\<close>, at its second, or has returned. \<open>channel\<close> is what
  \<^verbatim>\<open>req.result\<close> holds, \<open>timed\<close> whether it was given a deadline. \<open>owner\<close> is the calling goroutine. History: \<open>wanted\<close>, the
  data of the frame when the call began, and \<open>born\<close>, how many frames had been written then.
\<close>

type_synonym answer = "nat \<times> gerror option"

datatype phase = Offering | Waiting | Returned answer

record call =
  owner :: nat
  req :: writeRequest
  timed :: bool
  phase :: phase
  channel :: "answer option"
  wanted :: "byte list"
  born :: nat

datatype sender =
    Receiving
  | Received writeRequest
  | Writing writeRequest Frame
  | Answering writeRequest answer
  | Stopped

text \<open>
  \<open>mem\<close> holds the buffers, \<open>reqs\<close> and \<open>next_req\<close> are the variables of \<^verbatim>\<open>shaperLoop\<close> (\<open>None\<close> when \<^verbatim>\<open>chWrite\<close> is nil), \<open>sender\<close>
  is where \<^verbatim>\<open>sendLoop\<close> is. \<open>wire\<close>: the frames the connection took, each with the number of its call.
\<close>

record shaper =
  mem :: "byte list list"
  calls :: "call list"
  reqs :: shaperHeap
  next_req :: "writeRequest option"
  sender :: sender
  loop_done :: bool
  died :: bool
  socket_error :: "gerror option"
  wire :: "(nat \<times> Frame) list"

definition new_shaper :: "byte list list \<Rightarrow> shaper" where
  "new_shaper m =
     \<lparr>mem = m, calls = [], reqs = [], next_req = None, sender = Receiving, loop_done = False, died = False,
      socket_error = None, wire = []\<rparr>"

definition load :: "byte list list \<Rightarrow> slice \<Rightarrow> byte list" where
  "load m sl = take (len sl) (drop (off sl) (m ! buf sl))"

text \<open>A slice lies in a buffer; the slice of a frame without data is empty.\<close>

definition slice_ok :: "byte list list \<Rightarrow> slice \<Rightarrow> bool" where
  "slice_ok m sl \<longleftrightarrow> len sl = 0 \<or> buf sl < length m \<and> off sl + len sl \<le> length (m ! buf sl)"

definition frame_of :: "writeRequest \<Rightarrow> byte list \<Rightarrow> Frame" where
  "frame_of r d = (newFrame (rver r) (rcmd r) (rsid r))\<lparr>data := d\<rparr>"

definition call_frame :: "call \<Rightarrow> Frame" where
  "call_frame c = frame_of (req c) (wanted c)"

primrec returned :: "phase \<Rightarrow> bool" where
  "returned Offering = False"
| "returned Waiting = False"
| "returned (Returned a) = True"

definition active :: "call \<Rightarrow> bool" where
  "active c \<longleftrightarrow> \<not> returned (phase c)"

definition failed :: "call \<Rightarrow> bool" where
  "failed c \<longleftrightarrow> (case phase c of Returned (n, e) \<Rightarrow> e \<noteq> None | _ \<Rightarrow> False)"

definition upd_call :: "nat \<Rightarrow> (call \<Rightarrow> call) \<Rightarrow> shaper \<Rightarrow> shaper" where
  "upd_call i f s = s\<lparr>calls := (calls s)[i := f (calls s ! i)]\<rparr>"

section \<open>The statements\<close>

text \<open>\<^verbatim>\<open>writeFrameInternal\<close> makes its request and reaches the first \<^verbatim>\<open>select\<close>.\<close>

definition start_write :: "nat \<Rightarrow> bool \<Rightarrow> writeRequest \<Rightarrow> shaper \<Rightarrow> shaper" where
  "start_write g d r s =
     s\<lparr>calls := calls s @
         [\<lparr>owner = g, req = r\<lparr>result := length (calls s)\<rparr>, timed = d, phase = Offering, channel = None,
           wanted = load (mem s) (rdata r), born = length (wire s)\<rparr>]\<rparr>"

text \<open>It returns, in either \<^verbatim>\<open>select\<close>.\<close>

definition end_write :: "nat \<Rightarrow> answer \<Rightarrow> shaper \<Rightarrow> shaper" where
  "end_write i a = upd_call i (\<lambda>c. c\<lparr>phase := Returned a\<rparr>)"

text \<open>The head of the loop of \<^verbatim>\<open>shaperLoop\<close>, and its \<^verbatim>\<open>case r := <-s.shaper\<close>.\<close>

definition loop_head :: "shaper \<Rightarrow> shaper" where
  "loop_head s =
     (if reqs s \<noteq> [] then s\<lparr>next_req := Some (fst (heap_Pop (reqs s))), reqs := snd (heap_Pop (reqs s))\<rparr>
      else s\<lparr>next_req := None\<rparr>)"

definition take_request :: "nat \<Rightarrow> shaper \<Rightarrow> shaper" where
  "take_request i s =
     (let q = (case next_req s of None \<Rightarrow> reqs s | Some x \<Rightarrow> heap_Push x (reqs s)) in
      upd_call i (\<lambda>c. c\<lparr>phase := Waiting\<rparr>) (loop_head (s\<lparr>reqs := heap_Push (req (calls s ! i)) q\<rparr>)))"

text \<open>Its \<^verbatim>\<open>case chWrite <- next\<close>, which meets \<^verbatim>\<open>request := <-s.writes\<close> of \<^verbatim>\<open>sendLoop\<close>.\<close>

definition hand_over :: "writeRequest \<Rightarrow> shaper \<Rightarrow> shaper" where
  "hand_over x s = loop_head (s\<lparr>sender := Received x\<rparr>)"

text \<open>\<^verbatim>\<open>sendLoop\<close> puts header and data into its own buffer, writes it, and answers.\<close>

definition copy_frame :: "writeRequest \<Rightarrow> shaper \<Rightarrow> shaper" where
  "copy_frame r s = s\<lparr>sender := Writing r (frame_of r (load (mem s) (rdata r)))\<rparr>"

definition write_conn :: "writeRequest \<Rightarrow> Frame \<Rightarrow> shaper \<Rightarrow> shaper" where
  "write_conn r f s =
     s\<lparr>wire := wire s @ [(result r, f)], sender := Answering r (length (frame_bytes f) - headerSize, None)\<rparr>"

definition write_fails :: "writeRequest \<Rightarrow> nat \<Rightarrow> gerror \<Rightarrow> shaper \<Rightarrow> shaper" where
  "write_fails r n e s = s\<lparr>sender := Answering r (n - headerSize, Some e)\<rparr>"

definition send_answer :: "writeRequest \<Rightarrow> answer \<Rightarrow> shaper \<Rightarrow> shaper" where
  "send_answer r a s =
     upd_call (result r) (\<lambda>c. c\<lparr>channel := Some a\<rparr>)
       (case snd a of
          None \<Rightarrow> s\<lparr>sender := Receiving\<rparr>
        | Some e \<Rightarrow> s\<lparr>sender := Stopped, socket_error := (if socket_error s = None then Some e else socket_error s)\<rparr>)"

section \<open>Steps\<close>

text \<open>
  The conditions are those of the channels. A goroutine is in one call at a time (\<open>begins\<close>); \<open>reuses\<close> is any goroutine
  that fills a buffer which no call in progress was given.
\<close>

definition idle :: "nat \<Rightarrow> shaper \<Rightarrow> bool" where
  "idle g s \<longleftrightarrow> (\<forall>c \<in> set (calls s). owner c = g \<longrightarrow> \<not> active c)"

definition unused :: "nat \<Rightarrow> shaper \<Rightarrow> bool" where
  "unused b s \<longleftrightarrow> (\<forall>c \<in> set (calls s). active c \<and> len (rdata (req c)) \<noteq> 0 \<longrightarrow> buf (rdata (req c)) \<noteq> b)"

inductive shaper_step :: "shaper \<Rightarrow> shaper \<Rightarrow> bool" where
  begins: "idle g s \<Longrightarrow> slice_ok (mem s) (rdata r) \<Longrightarrow> shaper_step s (start_write g d r s)"
| reuses: "unused b s \<Longrightarrow> length bs = length (mem s ! b) \<Longrightarrow> shaper_step s (s\<lparr>mem := (mem s)[b := bs]\<rparr>)"
| takes: "\<not> loop_done s \<Longrightarrow> i < length (calls s) \<Longrightarrow> phase (calls s ! i) = Offering \<Longrightarrow> shaper_step s (take_request i s)"
| hands: "\<not> loop_done s \<Longrightarrow> next_req s = Some x \<Longrightarrow> sender s = Receiving \<Longrightarrow> shaper_step s (hand_over x s)"
| copies: "sender s = Received r \<Longrightarrow> shaper_step s (copy_frame r s)"
| writes: "sender s = Writing r f \<Longrightarrow> shaper_step s (write_conn r f s)"
| fails: "sender s = Writing r f \<Longrightarrow> shaper_step s (write_fails r n e s)"
| answers: "sender s = Answering r a \<Longrightarrow> shaper_step s (send_answer r a s)"
| gets_result: "i < length (calls s) \<Longrightarrow> phase (calls s ! i) = Waiting \<Longrightarrow> channel (calls s ! i) = Some a
    \<Longrightarrow> shaper_step s (end_write i a s)"
| gets_die: "i < length (calls s) \<Longrightarrow> active (calls s ! i) \<Longrightarrow> died s
    \<Longrightarrow> shaper_step s (end_write i (0, Some ErrClosedPipe) s)"
| gets_error: "i < length (calls s) \<Longrightarrow> active (calls s ! i) \<Longrightarrow> socket_error s = Some e
    \<Longrightarrow> shaper_step s (end_write i (0, Some e) s)"
| times_out: "i < length (calls s) \<Longrightarrow> active (calls s ! i) \<Longrightarrow> timed (calls s ! i)
    \<Longrightarrow> shaper_step s (end_write i (0, Some ErrTimeout) s)"
| closes: "shaper_step s (s\<lparr>died := True\<rparr>)"
| loop_ends: "died s \<Longrightarrow> shaper_step s (s\<lparr>loop_done := True\<rparr>)"
| sender_ends: "died s \<Longrightarrow> sender s = Receiving \<Longrightarrow> shaper_step s (s\<lparr>sender := Stopped\<rparr>)"

inductive shaper_run :: "shaper \<Rightarrow> shaper \<Rightarrow> bool" where
  start: "shaper_run s s"
| step: "shaper_run s t \<Longrightarrow> shaper_step t u \<Longrightarrow> shaper_run s u"

section \<open>The queue\<close>

text \<open>The queue is a heap, and the request that is next is not after any other.\<close>

definition queue_inv :: "shaper \<Rightarrow> bool" where
  "queue_inv s \<longleftrightarrow> is_heap (reqs s)
     \<and> (next_req s = None \<longrightarrow> reqs s = [])
     \<and> (\<forall>x y. next_req s = Some x \<longrightarrow> y \<in> set (reqs s) \<longrightarrow> prio x \<le> prio y)"

lemma loop_head_queue: "is_heap (reqs s) \<Longrightarrow> queue_inv (loop_head s)"
  using heap.pop_least_rest [of "reqs s"] heap_Pop_heap [of "reqs s"]
  by (auto simp: queue_inv_def loop_head_def)

lemma upd_call_simps [simp]:
  "reqs (upd_call i f s) = reqs s" "next_req (upd_call i f s) = next_req s" "sender (upd_call i f s) = sender s"
  "wire (upd_call i f s) = wire s" "mem (upd_call i f s) = mem s" "length (calls (upd_call i f s)) = length (calls s)"
  by (simp_all add: upd_call_def)

lemma loop_head_simps [simp]:
  "calls (loop_head s) = calls s" "sender (loop_head s) = sender s" "wire (loop_head s) = wire s" "mem (loop_head s) = mem s"
  by (simp_all add: loop_head_def)

lemma upd_nth: "xs[i := x] ! j = (if i = j \<and> i < length xs then x else xs ! j)"
  by (cases "i < length xs") (auto simp: nth_list_update list_update_beyond)

lemma in_set_upd: "y \<in> set (xs[i := x]) \<Longrightarrow> y \<in> set xs \<or> y = x \<and> i < length xs"
  by (cases "i < length xs") (auto simp: list_update_beyond dest: set_update_subset_insert [THEN subsetD])

lemma upd_call_nth:
  "i < length (calls s) \<Longrightarrow> calls (upd_call i f s) ! k = (if k = i then f (calls s ! i) else calls s ! k)"
  by (simp add: upd_call_def nth_list_update)

lemma queue_inv_upd [simp]: "queue_inv (upd_call i f s) = queue_inv s"
  by (simp add: queue_inv_def)

lemma queue_step: "shaper_step s t \<Longrightarrow> queue_inv s \<Longrightarrow> queue_inv t"
proof (induction rule: shaper_step.induct)
  case (takes s i)
  then have "is_heap (case next_req s of None \<Rightarrow> reqs s | Some x \<Rightarrow> heap_Push x (reqs s))"
    by (auto simp: queue_inv_def heap_Push_heap split: option.splits)
  then show ?case by (simp add: take_request_def Let_def loop_head_queue heap_Push_heap)
next
  case (hands s x)
  then show ?case unfolding hand_over_def by (intro loop_head_queue) (simp add: queue_inv_def)
next
  case (answers s r a)
  then show ?case by (cases a; cases "snd a") (simp_all add: send_answer_def queue_inv_def)
qed (simp_all add: start_write_def end_write_def copy_frame_def write_conn_def write_fails_def queue_inv_def)

section \<open>Requests are neither lost nor doubled\<close>

definition held :: "writeRequest option \<Rightarrow> writeRequest multiset" where
  "held x = (case x of None \<Rightarrow> {#} | Some r \<Rightarrow> {#r#})"

definition sending :: "sender \<Rightarrow> writeRequest multiset" where
  "sending x = (case x of Received r \<Rightarrow> {#r#} | Writing r f \<Rightarrow> {#r#} | _ \<Rightarrow> {#})"

definition pending :: "shaper \<Rightarrow> writeRequest multiset" where
  "pending s = mset (reqs s) + held (next_req s) + sending (sender s)"

definition ids :: "shaper \<Rightarrow> nat multiset" where
  "ids s = image_mset result (pending s) + mset (map fst (wire s))"

lemma pending_loop_head: "pending (loop_head s) = mset (reqs s) + sending (sender s)"
  using heap_Pop_mset [of "reqs s"] by (simp add: pending_def loop_head_def held_def)

lemma pending_upd [simp]: "pending (upd_call i f s) = pending s"
  by (simp add: pending_def)

lemma pending_take: "pending (take_request i s) = add_mset (req (calls s ! i)) (pending s)"
  by (simp add: take_request_def Let_def pending_loop_head pending_def [of s] heap_Push_mset held_def split: option.splits)

lemma pending_hand: "next_req s = Some x \<Longrightarrow> sender s = Receiving \<Longrightarrow> pending (hand_over x s) = pending s"
  by (simp add: hand_over_def pending_loop_head pending_def [of s] held_def sending_def)

lemma take_request_calls: "calls (take_request i s) = (calls s)[i := (calls s ! i)\<lparr>phase := Waiting\<rparr>]"
  by (simp add: take_request_def upd_call_def Let_def)

lemma take_request_simps [simp]:
  "sender (take_request i s) = sender s" "wire (take_request i s) = wire s" "mem (take_request i s) = mem s"
  by (simp_all add: take_request_def Let_def)

lemma hand_over_simps [simp]:
  "calls (hand_over x s) = calls s" "sender (hand_over x s) = Received x" "wire (hand_over x s) = wire s"
  "mem (hand_over x s) = mem s"
  by (simp_all add: hand_over_def)

lemma send_answer_simps [simp]:
  "wire (send_answer r a s) = wire s" "mem (send_answer r a s) = mem s"
  "calls (send_answer r a s) = (calls s)[result r := (calls s ! result r)\<lparr>channel := Some a\<rparr>]"
  "sender (send_answer r a s) = (if snd a = None then Receiving else Stopped)"
  by (auto simp: send_answer_def upd_call_def split: option.splits)

lemma pending_answer: "sender s = Answering r a \<Longrightarrow> pending (send_answer r a s) = pending s"
  by (cases "snd a") (simp_all add: pending_def send_answer_def sending_def)

definition ids_inv :: "shaper \<Rightarrow> bool" where
  "ids_inv s \<longleftrightarrow> (\<forall>i. count (ids s) i \<le> 1)
     \<and> (\<forall>r. r \<in># pending s \<or> (\<exists>a. sender s = Answering r a) \<longrightarrow>
          result r < length (calls s) \<and> req (calls s ! result r) = r \<and> phase (calls s ! result r) \<noteq> Offering)
     \<and> (\<forall>i \<in> fst ` set (wire s). i < length (calls s) \<and> phase (calls s ! i) \<noteq> Offering)
     \<and> (\<forall>i < length (calls s). result (req (calls s ! i)) = i)"

lemma ids_step: "shaper_step s t \<Longrightarrow> ids_inv s \<Longrightarrow> ids_inv t"
proof (induction rule: shaper_step.induct)
  case (begins g s r d)
  then show ?case by (auto simp: ids_inv_def ids_def pending_def start_write_def nth_append)
next
  case (takes s i)
  let ?r = "req (calls s ! i)"
  have r: "result ?r = i" using takes by (simp add: ids_inv_def)
  have "i \<notin># ids s" using takes by (force simp: ids_inv_def ids_def)
  then have "count (ids s) i = 0" by (simp add: not_in_iff)
  then have "\<forall>k. count (ids (take_request i s)) k \<le> 1"
    using takes r by (auto simp: ids_inv_def ids_def pending_take)
  with takes r show ?case
    by (auto simp: ids_inv_def pending_take take_request_calls nth_list_update)
next
  case (hands s x)
  then show ?case by (auto simp: ids_inv_def ids_def pending_hand)
next
  case (copies s r)
  then show ?case by (auto simp: ids_inv_def ids_def copy_frame_def pending_def sending_def)
next
  case (writes s r f)
  then show ?case by (auto simp: ids_inv_def ids_def write_conn_def pending_def sending_def)
next
  case (fails s r f n e)
  let ?t = "write_fails r n e s"
  have p: "pending s = add_mset r (pending ?t)" using fails by (simp add: pending_def write_fails_def sending_def)
  have le: "count (ids ?t) k \<le> count (ids s) k" for k by (simp add: ids_def p) (simp add: write_fails_def)
  have "\<forall>k. count (ids s) k \<le> 1" using fails(2) by (simp add: ids_inv_def)
  then have "\<forall>k. count (ids ?t) k \<le> 1" using le le_trans by meson
  moreover have "r' \<in># pending s" if "r' \<in># pending ?t \<or> (\<exists>a. sender ?t = Answering r' a)" for r'
    using that by (auto simp: p write_fails_def)
  moreover have "calls ?t = calls s" "wire ?t = wire s" by (simp_all add: write_fails_def)
  ultimately show ?case using fails(2) by (simp add: ids_inv_def)
next
  case (answers s r a)
  then show ?case
    by (auto simp: ids_inv_def ids_def pending_answer nth_list_update split: if_splits)
next
  case (sender_ends s)
  then show ?case by (auto simp: ids_inv_def ids_def pending_def sending_def)
qed (auto simp: ids_inv_def ids_def end_write_def upd_call_nth pending_def)

section \<open>Answers tell what was written\<close>

text \<open>An answer without an error is the number of data bytes of the frame that was written for the call.\<close>

definition confirms :: "shaper \<Rightarrow> nat \<Rightarrow> answer \<Rightarrow> bool" where
  "confirms s i a \<longleftrightarrow> (snd a = None \<longrightarrow> (\<exists>f. (i, f) \<in> set (wire s) \<and> fst a = length (data f)))"

definition answer_inv :: "shaper \<Rightarrow> bool" where
  "answer_inv s \<longleftrightarrow> (\<forall>r a. sender s = Answering r a \<longrightarrow> confirms s (result r) a)
     \<and> (\<forall>i < length (calls s). \<forall>a. channel (calls s ! i) = Some a \<or> phase (calls s ! i) = Returned a \<longrightarrow> confirms s i a)"

lemma confirms_mono: "set (wire s) \<subseteq> set (wire t) \<Longrightarrow> confirms s i a \<Longrightarrow> confirms t i a"
  by (auto simp: confirms_def)

lemma confirms_cong: "wire s = wire t \<Longrightarrow> confirms s i a = confirms t i a"
  by (simp add: confirms_def)

lemma confirms_error [simp]: "confirms s i (n, Some e)"
  by (simp add: confirms_def)

lemma end_write_simps [simp]:
  "wire (end_write i a s) = wire s" "mem (end_write i a s) = mem s" "sender (end_write i a s) = sender s"
  "calls (end_write i a s) = (calls s)[i := (calls s ! i)\<lparr>phase := Returned a\<rparr>]"
  by (simp_all add: end_write_def upd_call_def)

lemma end_write_answers:
  assumes "answer_inv s" "i < length (calls s)" "confirms s i a"
  shows "answer_inv (end_write i a s)"
  using assms by (auto simp: answer_inv_def upd_nth confirms_cong [of "end_write i a s" s])

lemma answer_step: "shaper_step s t \<Longrightarrow> answer_inv s \<Longrightarrow> answer_inv t"
proof (induction rule: shaper_step.induct)
  case (begins g s r d)
  then show ?case by (auto simp: answer_inv_def start_write_def nth_append confirms_def)
next
  case (takes s i)
  then show ?case by (auto simp: answer_inv_def take_request_calls upd_nth confirms_def)
next
  case (writes s r f)
  have "confirms (write_conn r f s) (result r) (length (frame_bytes f) - headerSize, None)"
    by (auto simp: confirms_def write_conn_def length_frame_bytes)
  moreover have "set (wire s) \<subseteq> set (wire (write_conn r f s))" by (auto simp: write_conn_def)
  ultimately show ?case
    using writes(2) confirms_mono [of s "write_conn r f s"] by (auto simp: answer_inv_def write_conn_def)
next
  case (answers s r a)
  then show ?case by (auto simp: answer_inv_def upd_nth confirms_def split: if_splits)
next
  case (gets_result i s a)
  then have "confirms s i a" unfolding answer_inv_def by blast
  with gets_result show ?case by (simp add: end_write_answers)
next
  case (gets_die i s)
  then show ?case by (simp add: end_write_answers)
next
  case (gets_error i s e)
  then show ?case by (simp add: end_write_answers)
next
  case (times_out i s)
  then show ?case by (simp add: end_write_answers)
qed (auto simp: answer_inv_def confirms_def hand_over_def copy_frame_def write_fails_def)

section \<open>One call at a time\<close>

definition owner_inv :: "shaper \<Rightarrow> bool" where
  "owner_inv s \<longleftrightarrow> (\<forall>j < length (calls s). \<forall>i < j. owner (calls s ! i) = owner (calls s ! j) \<longrightarrow> \<not> active (calls s ! i))"

lemma owner_invD:
  "owner_inv s \<Longrightarrow> i < j \<Longrightarrow> j < length (calls s) \<Longrightarrow> owner (calls s ! i) = owner (calls s ! j) \<Longrightarrow> \<not> active (calls s ! i)"
  unfolding owner_inv_def by blast

lemma active_upd [simp]:
  "active (c\<lparr>channel := x\<rparr>) = active c" "active (c\<lparr>phase := Returned a\<rparr>) = False" "active (c\<lparr>phase := Waiting\<rparr>) = True"
  by (simp_all add: active_def)

lemma active_Offering: "phase c = Offering \<Longrightarrow> active c" "phase c = Waiting \<Longrightarrow> active c"
  by (simp_all add: active_def)

lemma owner_step: "shaper_step s t \<Longrightarrow> owner_inv s \<Longrightarrow> owner_inv t"
proof (induction rule: shaper_step.induct)
  case (begins g s r d)
  then show ?case by (auto simp: owner_inv_def start_write_def nth_append idle_def less_Suc_eq)
next
  case (takes s i)
  then show ?case using active_Offering by (auto simp: owner_inv_def take_request_calls upd_nth)
qed (auto simp: owner_inv_def upd_nth hand_over_def copy_frame_def write_conn_def write_fails_def split: if_splits)

section \<open>The data of a frame\<close>

definition data_inv :: "shaper \<Rightarrow> bool" where
  "data_inv s \<longleftrightarrow>
     (\<forall>c \<in> set (calls s). slice_ok (mem s) (rdata (req c)) \<and> (active c \<longrightarrow> load (mem s) (rdata (req c)) = wanted c))
     \<and> (\<forall>r f. sender s = Writing r f \<longrightarrow> \<not> failed (calls s ! result r) \<longrightarrow> f = call_frame (calls s ! result r))
     \<and> (\<forall>(i, f) \<in> set (wire s). \<not> failed (calls s ! i) \<longrightarrow> f = call_frame (calls s ! i))"

lemma failed_simps [simp]:
  "failed (c\<lparr>channel := x\<rparr>) = failed c" "failed (c\<lparr>phase := Returned a\<rparr>) = (snd a \<noteq> None)" "\<not> failed (c\<lparr>phase := Waiting\<rparr>)"
  by (simp_all add: failed_def split: prod.splits)

lemma call_frame_simps [simp]:
  "call_frame (c\<lparr>channel := x\<rparr>) = call_frame c" "call_frame (c\<lparr>phase := p\<rparr>) = call_frame c"
  by (simp_all add: call_frame_def)

lemma not_failed_cases: "\<not> failed c \<Longrightarrow> phase c \<noteq> Offering \<Longrightarrow> phase c = Waiting \<or> (\<exists>n. phase c = Returned (n, None))"
  by (cases "phase c") (auto simp: failed_def)

lemma active_not_failed: "active c \<Longrightarrow> \<not> failed c"
  by (cases "phase c") (auto simp: failed_def active_def)

lemma pending_not_written:
  assumes "ids_inv s" "r \<in># pending s"
  shows "result r \<notin> set (map fst (wire s))"
proof
  let ?i = "result r"
  assume "?i \<in> set (map fst (wire s))"
  then have "1 \<le> count (mset (map fst (wire s))) ?i" by (simp only: count_greater_eq_one_iff set_mset_mset)
  moreover have "1 \<le> count (image_mset result (pending s)) ?i"
    using assms(2) by (simp only: count_greater_eq_one_iff set_image_mset image_eqI [OF refl])
  moreover have "count (ids s) ?i \<le> 1" using assms(1) by (simp add: ids_inv_def)
  ultimately show False unfolding ids_def count_union by linarith
qed

text \<open>A request that has not been written belongs to a call that is waiting, unless the call has failed.\<close>

lemma pending_active:
  assumes "ids_inv s" "answer_inv s" "r \<in># pending s" "\<not> failed (calls s ! result r)"
  shows "active (calls s ! result r)"
proof (rule ccontr)
  let ?i = "result r"
  assume "\<not> active (calls s ! ?i)"
  with not_failed_cases [OF assms(4)] assms(1,3) obtain n where "phase (calls s ! ?i) = Returned (n, None)" "?i < length (calls s)"
    by (auto simp: ids_inv_def active_Offering)
  with assms(2) have "confirms s ?i (n, None)" unfolding answer_inv_def by blast
  with pending_not_written [OF assms(1,3)] show False by (force simp: confirms_def)
qed

lemma load_other: "len sl = 0 \<or> buf sl \<noteq> b \<Longrightarrow> load (m[b := bs]) sl = load m sl"
  by (auto simp: load_def)

lemma slice_ok_upd: "length bs = length (m ! b) \<Longrightarrow> slice_ok (m[b := bs]) sl = slice_ok m sl"
  by (auto simp: slice_ok_def upd_nth)

text \<open>A step that only moves a call on.\<close>

lemma data_upd:
  assumes "data_inv s" "mem t = mem s" "wire t = wire s" "\<forall>r f. sender t = Writing r f \<longrightarrow> sender s = Writing r f"
    and "calls t = (calls s)[i := c]" "req c = req (calls s ! i)" "wanted c = wanted (calls s ! i)"
    and "active c \<longrightarrow> active (calls s ! i)" "\<not> failed c \<longrightarrow> \<not> failed (calls s ! i)"
  shows "data_inv t"
proof -
  have f: "call_frame c = call_frame (calls s ! i)" using assms(6,7) by (simp add: call_frame_def)
  have old: "slice_ok (mem s) (rdata (req d)) \<and> (active d \<longrightarrow> load (mem s) (rdata (req d)) = wanted d)" if "d \<in> set (calls t)" for d
    using that assms(1,6-8) unfolding assms(5) by (auto simp: data_inv_def dest!: in_set_upd)
  moreover have frame: "call_frame (calls t ! j) = call_frame (calls s ! j)" "\<not> failed (calls t ! j) \<Longrightarrow> \<not> failed (calls s ! j)" for j
    unfolding assms(5) upd_nth using f assms(9) by (auto split: if_splits)
  ultimately show ?thesis using assms(1-4) unfolding data_inv_def by auto
qed

lemma data_step:
  assumes "shaper_step s t" "data_inv s" "ids_inv s" "answer_inv s"
  shows "data_inv t"
  using assms
proof (induction rule: shaper_step.induct)
  case (begins g s r d)
  have "i < length (calls s)" if "(i, f) \<in> set (wire s)" for i f
    using begins(4) that by (force simp: ids_inv_def)
  moreover have "result r < length (calls s)" if "sender s = Writing r f" for r f
    using begins(4) that by (simp add: ids_inv_def pending_def sending_def)
  ultimately show ?case
    using begins(2,3) by (auto simp: data_inv_def start_write_def nth_append)
next
  case (reuses b s bs)
  have "load ((mem s)[b := bs]) (rdata (req c)) = load (mem s) (rdata (req c))" if "c \<in> set (calls s)" "active c" for c
    using reuses(1) that by (intro load_other) (auto simp: unused_def)
  with reuses(2,3) show ?case by (auto simp: data_inv_def slice_ok_upd)
next
  case (takes s i)
  then show ?case
    by - (rule data_upd [of s _ i "(calls s ! i)\<lparr>phase := Waiting\<rparr>"], auto simp: take_request_calls active_def failed_def)
next
  case (copies s r)
  have r: "r \<in># pending s" using copies(1) by (simp add: pending_def sending_def)
  have "calls s ! result r \<in> set (calls s)" "req (calls s ! result r) = r" using copies(3) r by (simp_all add: ids_inv_def)
  with copies pending_active [OF copies(3,4) r] show ?case
    by (auto simp: data_inv_def copy_frame_def call_frame_def)
next
  case (writes s r f)
  then show ?case by (auto simp: data_inv_def write_conn_def)
next
  case (answers s r a)
  then show ?case by - (rule data_upd [of s _ "result r" "(calls s ! result r)\<lparr>channel := Some a\<rparr>"], auto)
next
  case (gets_result i s a)
  then show ?case by - (rule data_upd [of s _ i "(calls s ! i)\<lparr>phase := Returned a\<rparr>"], auto simp: failed_def)
next
  case (gets_die i s)
  then show ?case by - (rule data_upd [of s _ i "(calls s ! i)\<lparr>phase := Returned (0, Some ErrClosedPipe)\<rparr>"], auto)
next
  case (gets_error i s e)
  then show ?case by - (rule data_upd [of s _ i "(calls s ! i)\<lparr>phase := Returned (0, Some e)\<rparr>"], auto)
next
  case (times_out i s)
  then show ?case by - (rule data_upd [of s _ i "(calls s ! i)\<lparr>phase := Returned (0, Some ErrTimeout)\<rparr>"], auto)
qed (auto simp: data_inv_def write_fails_def)

section \<open>The order of a caller's frames\<close>

lemma only_one: "distinct xs \<Longrightarrow> x \<in> set xs \<Longrightarrow> \<forall>i \<in> set xs. i = x \<Longrightarrow> xs = [x]"
  by (cases xs; cases "tl xs") auto

lemma at_most_one: "length xs \<le> 1 \<Longrightarrow> x \<in> set xs \<Longrightarrow> xs = [x]"
  by (cases xs) auto

lemma length_filter_fst: "length (filter (\<lambda>w. fst w = i) xs) = count (mset (map fst xs)) i"
  by (induction xs) auto

definition own_ids :: "nat \<Rightarrow> shaper \<Rightarrow> nat list" where
  "own_ids g s = filter (\<lambda>i. owner (calls s ! i) = g) [0..<length (calls s)]"

definition wire_ids :: "nat \<Rightarrow> shaper \<Rightarrow> nat list" where
  "wire_ids g s = filter (\<lambda>i. owner (calls s ! i) = g) (map fst (wire s))"

definition unfailed :: "nat \<Rightarrow> shaper \<Rightarrow> bool" where
  "unfailed g s \<longleftrightarrow> (\<forall>c \<in> set (calls s). owner c = g \<longrightarrow> \<not> failed c)"

text \<open>What a goroutine has written is the first of its calls; the others are in progress, of which there is one at most.\<close>

definition order_inv :: "nat \<Rightarrow> shaper \<Rightarrow> bool" where
  "order_inv g s \<longleftrightarrow> (unfailed g s \<longrightarrow>
     (\<exists>rest. own_ids g s = wire_ids g s @ rest \<and> (\<forall>i \<in> set rest. active (calls s ! i))))"

lemma distinct_own [simp]: "distinct (own_ids g s)"
  by (simp add: own_ids_def)

lemma own_ids_iff: "i \<in> set (own_ids g s) \<longleftrightarrow> i < length (calls s) \<and> owner (calls s ! i) = g"
  by (auto simp: own_ids_def)

lemma order_inv_keep:
  assumes "order_inv g s" "map owner (calls t) = map owner (calls s)" "wire t = wire s" "ids_inv s"
    and "unfailed g t \<Longrightarrow> unfailed g s"
    and "\<And>i. unfailed g t \<Longrightarrow> i < length (calls s) \<Longrightarrow> owner (calls s ! i) = g \<Longrightarrow> active (calls s ! i) \<Longrightarrow>
        i \<notin> set (wire_ids g s) \<Longrightarrow> active (calls t ! i)"
  shows "order_inv g t"
proof -
  have len: "length (calls t) = length (calls s)" using assms(2) map_eq_imp_length_eq by metis
  then have own: "owner (calls t ! i) = owner (calls s ! i)" if "i < length (calls s)" for i
    using assms(2) that by (metis nth_map)
  have ids: "own_ids g t = own_ids g s"
    unfolding own_ids_def len by (rule filter_cong) (auto simp: own)
  have wire: "wire_ids g t = wire_ids g s"
    unfolding wire_ids_def assms(3) using assms(4) own by (intro filter_cong) (force simp: ids_inv_def)+
  show ?thesis
    unfolding order_inv_def ids wire
  proof
    assume u: "unfailed g t"
    with assms(1,5) obtain rest where r: "own_ids g s = wire_ids g s @ rest" "\<forall>i \<in> set rest. active (calls s ! i)"
      by (auto simp: order_inv_def)
    have "active (calls t ! i)" if "i \<in> set rest" for i
    proof (rule assms(6) [OF u])
      have "i \<in> set (own_ids g s)" using r(1) that by simp
      then show "i < length (calls s)" "owner (calls s ! i) = g" by (simp_all add: own_ids_iff)
      show "active (calls s ! i)" using r(2) that by simp
      show "i \<notin> set (wire_ids g s)" using r(1) that distinct_own [of g s] by auto
    qed
    with r(1) show "\<exists>rest. own_ids g s = wire_ids g s @ rest \<and> (\<forall>i \<in> set rest. active (calls t ! i))" by blast
  qed
qed

lemma order_begin:
  assumes "order_inv g s" "ids_inv s" "idle h s"
  shows "order_inv g (start_write h d r s)"
  unfolding order_inv_def
proof
  let ?t = "start_write h d r s" and ?n = "length (calls s)"
  assume "unfailed g ?t"
  then have "unfailed g s" by (auto simp: unfailed_def start_write_def)
  with assms(1) obtain rest where r: "own_ids g s = wire_ids g s @ rest" "\<forall>i \<in> set rest. active (calls s ! i)"
    by (auto simp: order_inv_def)
  have own: "own_ids g ?t = own_ids g s @ (if h = g then [?n] else [])"
    unfolding own_ids_def by (auto simp: start_write_def nth_append intro!: filter_cong)
  have wire: "wire_ids g ?t = wire_ids g s"
    unfolding wire_ids_def using assms(2)
    by (auto simp: start_write_def nth_append ids_inv_def intro!: filter_cong)
  have "rest = []" if "h = g"
  proof (rule ccontr)
    assume "rest \<noteq> []"
    then obtain i where "i \<in> set rest" by (cases rest) auto
    moreover from this have "i \<in> set (own_ids g s)" using r(1) by simp
    ultimately show False using r(2) assms(3) that by (auto simp: own_ids_iff idle_def)
  qed
  moreover have "active (calls ?t ! ?n)" by (simp add: start_write_def active_def)
  moreover have "calls ?t ! i = calls s ! i" if "i \<in> set rest" for i
  proof -
    have "i \<in> set (own_ids g s)" using r(1) that by simp
    then show ?thesis by (simp add: own_ids_iff start_write_def nth_append)
  qed
  ultimately show "\<exists>rest. own_ids g ?t = wire_ids g ?t @ rest \<and> (\<forall>i \<in> set rest. active (calls ?t ! i))"
    using r by (intro exI [of _ "rest @ (if h = g then [?n] else [])"]) (auto simp: own wire)
qed

lemma order_write:
  assumes "order_inv g s" "ids_inv s" "answer_inv s" "owner_inv s" "sender s = Writing r f"
  shows "order_inv g (write_conn r f s)"
  unfolding order_inv_def
proof
  let ?t = "write_conn r f s" and ?j = "result r"
  assume u: "unfailed g ?t"
  then have us: "unfailed g s" by (simp add: unfailed_def write_conn_def)
  with assms(1) obtain rest where r: "own_ids g s = wire_ids g s @ rest" "\<forall>i \<in> set rest. active (calls s ! i)"
    by (auto simp: order_inv_def)
  have pend: "r \<in># pending s" using assms(5) by (simp add: pending_def sending_def)
  have j: "?j < length (calls s)" using assms(2) pend by (simp add: ids_inv_def)
  have own: "own_ids g ?t = own_ids g s" "calls ?t = calls s" by (simp_all add: own_ids_def write_conn_def)
  have wire: "wire_ids g ?t = wire_ids g s @ (if owner (calls s ! ?j) = g then [?j] else [])"
    by (simp add: wire_ids_def write_conn_def)
  show "\<exists>rest. own_ids g ?t = wire_ids g ?t @ rest \<and> (\<forall>i \<in> set rest. active (calls ?t ! i))"
  proof (cases "owner (calls s ! ?j) = g")
    case True
    with us j have "\<not> failed (calls s ! ?j)" by (simp add: unfailed_def)
    with pending_active [OF assms(2,3) pend] have act: "active (calls s ! ?j)" by simp
    have "?j \<notin> set (map fst (wire s))" by (rule pending_not_written [OF assms(2) pend])
    then have mem: "?j \<in> set rest" using r(1) True j own_ids_iff [of ?j g s] by (auto simp: wire_ids_def)
    have all: "i = ?j" if "i \<in> set rest" for i
    proof -
      have "i \<in> set (own_ids g s)" using r(1) that by simp
      then have i: "i < length (calls s)" "owner (calls s ! i) = g" by (simp_all add: own_ids_iff)
      have "active (calls s ! i)" using r(2) that by simp
      have "\<not> i < ?j" using owner_invD [OF assms(4) _ j, of i] i(2) True \<open>active (calls s ! i)\<close> by auto
      moreover have "\<not> ?j < i" using owner_invD [OF assms(4) _ i(1), of ?j] i(2) True act by auto
      ultimately show ?thesis by simp
    qed
    have "distinct rest" using distinct_own [of g s] r(1) by simp
    then have "rest = [?j]" using mem all by (blast intro: only_one)
    with r True show ?thesis by (intro exI [of _ "[]"]) (simp add: own wire)
  next
    case False
    with r show ?thesis by (intro exI [of _ rest]) (simp add: own wire)
  qed
qed

lemma unfailed_upd:
  assumes "unfailed g t" "calls t = (calls s)[i := c]" "owner c = owner (calls s ! i)" "\<not> failed c \<longrightarrow> \<not> failed (calls s ! i)"
  shows "unfailed g s"
  unfolding unfailed_def
proof (intro ballI impI)
  fix d assume "d \<in> set (calls s)" "owner d = g"
  then obtain k where k: "k < length (calls s)" "d = calls s ! k" by (auto simp: in_set_conv_nth)
  then have "calls t ! k \<in> set (calls t)" unfolding assms(2) by simp
  with assms(1) \<open>owner d = g\<close> k assms(2-4) show "\<not> failed d"
    by (auto simp: unfailed_def upd_nth split: if_splits)
qed

lemma owner_upd: "owner c = owner (xs ! i) \<Longrightarrow> map owner (xs[i := c]) = map owner xs"
  by (simp add: map_update) (metis list_update_beyond list_update_id length_map linorder_not_le nth_map)

lemma order_upd:
  assumes "order_inv g s" "ids_inv s" "wire t = wire s" "calls t = (calls s)[i := c]" "i < length (calls s)"
    and "owner c = owner (calls s ! i)" "\<not> failed c \<longrightarrow> \<not> failed (calls s ! i)"
    and "active c \<or> failed c \<or> \<not> active (calls s ! i) \<or> i \<in> set (map fst (wire s))"
  shows "order_inv g t"
proof (rule order_inv_keep [OF assms(1) _ assms(3) assms(2)])
  show "map owner (calls t) = map owner (calls s)" unfolding assms(4) by (rule owner_upd [OF assms(6)])
  show "unfailed g s" if "unfailed g t" by (rule unfailed_upd [OF that assms(4,6,7)])
  show "active (calls t ! k)" if "unfailed g t" "k < length (calls s)" "owner (calls s ! k) = g" "active (calls s ! k)"
    "k \<notin> set (wire_ids g s)" for k
  proof (cases "k = i")
    case True
    have "c \<in> set (calls t)" unfolding assms(4) using assms(5) by (simp add: set_update_memI)
    with that(1,3) True assms(6) have "\<not> failed c" by (auto simp: unfailed_def)
    with that True assms(5,8) show ?thesis unfolding assms(4) by (auto simp: wire_ids_def)
  qed (use that assms(4) in simp)
qed

lemma order_step:
  assumes "shaper_step s t" "order_inv g s" "ids_inv s" "answer_inv s" "owner_inv s"
  shows "order_inv g t"
  using assms
proof (induction rule: shaper_step.induct)
  case (begins h s r d)
  then show ?case by (intro order_begin)
next
  case (takes s i)
  then show ?case by - (rule order_upd [of g s _ i "(calls s ! i)\<lparr>phase := Waiting\<rparr>"], auto simp: take_request_calls failed_def)
next
  case (writes s r f)
  then show ?case by (intro order_write)
next
  case (answers s r a)
  then have "result r < length (calls s)" by (auto simp: ids_inv_def)
  with answers show ?case
    by - (rule order_upd [of g s _ "result r" "(calls s ! result r)\<lparr>channel := Some a\<rparr>"], auto)
next
  case (gets_result i s a)
  then have "confirms s i a" unfolding answer_inv_def by blast
  then have "snd a \<noteq> None \<or> i \<in> set (map fst (wire s))" by (force simp: confirms_def)
  with gets_result show ?case
    by - (rule order_upd [of g s _ i "(calls s ! i)\<lparr>phase := Returned a\<rparr>"], auto simp: failed_def)
next
  case (gets_die i s)
  then show ?case by - (rule order_upd [of g s _ i "(calls s ! i)\<lparr>phase := Returned (0, Some ErrClosedPipe)\<rparr>"], auto)
next
  case (gets_error i s e)
  then show ?case by - (rule order_upd [of g s _ i "(calls s ! i)\<lparr>phase := Returned (0, Some e)\<rparr>"], auto)
next
  case (times_out i s)
  then show ?case by - (rule order_upd [of g s _ i "(calls s ! i)\<lparr>phase := Returned (0, Some ErrTimeout)\<rparr>"], auto)
qed (erule order_inv_keep; auto simp: write_fails_def copy_frame_def unfailed_def)+

section \<open>All runs\<close>

definition shaper_inv :: "shaper \<Rightarrow> bool" where
  "shaper_inv s \<longleftrightarrow> queue_inv s \<and> ids_inv s \<and> answer_inv s \<and> owner_inv s \<and> data_inv s \<and> (\<forall>g. order_inv g s)"

lemma shaper_inv_run:
  assumes "shaper_run s t" "s = new_shaper m"
  shows "shaper_inv t"
  using assms
proof (induction rule: shaper_run.induct)
  case (start s)
  then show ?case
    by (simp add: shaper_inv_def queue_inv_def ids_inv_def answer_inv_def owner_inv_def data_inv_def order_inv_def new_shaper_def
        ids_def pending_def held_def sending_def own_ids_def wire_ids_def heap.ok_empty)
next
  case (step s t u)
  then have "shaper_inv t" by simp
  with step(2) show ?case
    unfolding shaper_inv_def by (blast intro: queue_step ids_step answer_step owner_step data_step order_step)
qed

text \<open>A frame that was written for a call that has not failed.\<close>

lemma written_frame:
  assumes "shaper_inv s" "(i, f) \<in> set (wire s)" "\<not> failed (calls s ! i)"
  shows "f = call_frame (calls s ! i)"
  using assms unfolding shaper_inv_def data_inv_def by blast

definition calls_of :: "nat \<Rightarrow> shaper \<Rightarrow> call list" where
  "calls_of g s = filter (\<lambda>c. owner c = g) (calls s)"

definition written_by :: "nat \<Rightarrow> shaper \<Rightarrow> Frame list" where
  "written_by g s = map snd (filter (\<lambda>w. owner (calls s ! fst w) = g) (wire s))"

lemma calls_of_ids: "calls_of g s = map ((!) (calls s)) (own_ids g s)"
  using filter_map [of "\<lambda>c. owner c = g" "(!) (calls s)" "[0..<length (calls s)]"]
  by (simp add: calls_of_def own_ids_def map_nth comp_def)

lemma written_by_ids:
  assumes "shaper_inv s" "unfailed g s"
  shows "written_by g s = map (\<lambda>i. call_frame (calls s ! i)) (wire_ids g s)"
proof -
  have "snd x = call_frame (calls s ! fst x)" if "x \<in> set (wire s)" "owner (calls s ! fst x) = g" for x
  proof (rule written_frame [OF assms(1)])
    show "(fst x, snd x) \<in> set (wire s)" using that by simp
    have "fst x < length (calls s)" using assms(1) that(1) by (auto simp: shaper_inv_def ids_inv_def)
    with assms(2) that(2) show "\<not> failed (calls s ! fst x)" by (simp add: unfailed_def)
  qed
  then show ?thesis
    by (simp add: written_by_def wire_ids_def filter_map comp_def)
qed

text \<open>
  C11: Frames leave in the order of their calls. As long as no call of a goroutine has failed, the frames written for it are those of
  its calls, in order, each once, each with the data its call was given, and all but the last call are among them.
\<close>

theorem writer_frames_in_order:
  assumes "shaper_run (new_shaper m) s" "unfailed g s"
  shows "\<exists>k. written_by g s = map call_frame (take k (calls_of g s)) \<and> length (calls_of g s) \<le> k + 1"
proof -
  have inv: "shaper_inv s" by (rule shaper_inv_run [OF assms(1) refl])
  then obtain rest where r: "own_ids g s = wire_ids g s @ rest" "\<forall>i \<in> set rest. active (calls s ! i)"
    using assms(2) unfolding shaper_inv_def order_inv_def by blast
  have one: "\<not> i < j" if "i \<in> set rest" "j \<in> set rest" for i j
  proof
    assume "i < j"
    have "i \<in> set (own_ids g s)" "j \<in> set (own_ids g s)" using r(1) that by simp_all
    then show False
      using owner_invD [of s i j] \<open>i < j\<close> inv r(2) that by (simp add: own_ids_iff shaper_inv_def)
  qed
  have "length rest \<le> 1"
  proof (rule ccontr)
    assume "\<not> length rest \<le> 1"
    then obtain a b xs where "rest = a # b # xs" by (cases rest; cases "tl rest") auto
    with one [of a b] one [of b a] distinct_own [of g s] r(1) show False by simp
  qed
  then have "length (calls_of g s) \<le> length (wire_ids g s) + 1" by (simp add: calls_of_ids r(1))
  moreover have "written_by g s = map call_frame (take (length (wire_ids g s)) (calls_of g s))"
    using written_by_ids [OF inv assms(2)] by (simp add: calls_of_ids r(1))
  ultimately show ?thesis by blast
qed

text \<open>
  C12: What a write returned as written is on the wire. When a call has returned without an error, its frame has been written exactly
  once and whole, after the call began, whatever other calls timed out, failed or were closed; the count is that of its data.
\<close>

theorem acknowledged_frame_written:
  assumes "shaper_run (new_shaper m) s" "i < length (calls s)" "phase (calls s ! i) = Returned (n, None)"
  shows "n = length (wanted (calls s ! i)) \<and> filter (\<lambda>w. fst w = i) (wire s) = [(i, call_frame (calls s ! i))]"
proof -
  have inv: "shaper_inv s" by (rule shaper_inv_run [OF assms(1) refl])
  then have "confirms s i (n, None)" using assms(2,3) unfolding shaper_inv_def answer_inv_def by blast
  then obtain f where f: "(i, f) \<in> set (wire s)" "n = length (data f)" by (auto simp: confirms_def)
  have call: "g = call_frame (calls s ! i)" if "(i, g) \<in> set (wire s)" for g
    using written_frame [OF inv that] assms(3) by (simp add: failed_def)
  have "count (mset (map fst (wire s))) i \<le> count (ids s) i" by (simp only: ids_def count_union)
  also have "\<dots> \<le> 1" using inv by (simp add: shaper_inv_def ids_inv_def)
  finally have "length (filter (\<lambda>w. fst w = i) (wire s)) \<le> 1" by (simp only: length_filter_fst)
  moreover have "(i, f) \<in> set (filter (\<lambda>w. fst w = i) (wire s))" using f(1) by simp
  ultimately have "filter (\<lambda>w. fst w = i) (wire s) = [(i, f)]" by (rule at_most_one)
  with call [OF f(1)] f(2) show ?thesis by (simp add: call_frame_def frame_of_def newFrame_def)
qed

section \<open>A write that times out\<close>

text \<open>
  What becomes of a request whose caller has returned: it stays in the queue, and its slice still points into the caller's buffer.
  In the run, a server's session has two tunnels. The connection is stuck in the frame of stream 5 (call 0), the data \<open>[a, b]\<close> of
  stream 3 waits behind it (call 1), and its tunnel is closing, so that the FIN of stream 3 waits too (call 2). Call 1 times out, its
  tunnel gives the buffer back, and another tunnel reads \<open>[x, y]\<close> into it. Then the connection moves on.
\<close>

definition psh_request :: "u32 \<Rightarrow> 64 word \<Rightarrow> nat \<Rightarrow> writeRequest" where
  "psh_request i p b =
     \<lparr>prio = p, rver = 1, rcmd = cmdPSH, rsid = i, rdata = \<lparr>buf = b, off = 0, len = 2\<rparr>, result = 0\<rparr>"

definition fin_request :: "u32 \<Rightarrow> writeRequest" where
  "fin_request i = \<lparr>prio = 0, rver = 1, rcmd = cmdFIN, rsid = i, rdata = \<lparr>buf = 0, off = 0, len = 0\<rparr>, result = 0\<rparr>"

definition stuck :: "byte \<Rightarrow> byte \<Rightarrow> shaper" where
  "stuck a b =
     (let s1 = hand_over ((psh_request 5 4 1)\<lparr>result := 0\<rparr>)
                 (take_request 0 (start_write 0 True (psh_request 5 4 1) (new_shaper [[a, b], [8, 9]])));
          s2 = copy_frame ((psh_request 5 4 1)\<lparr>result := 0\<rparr>) s1 in
      take_request 2 (start_write 2 False (fin_request 3) (take_request 1 (start_write 1 True (psh_request 3 7 0) s2))))"

definition reused :: "byte \<Rightarrow> byte \<Rightarrow> byte \<Rightarrow> byte \<Rightarrow> shaper" where
  "reused a b x y = (let s = end_write 1 (0, Some ErrTimeout) (stuck a b) in s\<lparr>mem := (mem s)[0 := [x, y]]\<rparr>)"

lemmas shaper_eval = new_shaper_def start_write_def take_request_def hand_over_def copy_frame_def end_write_def write_conn_def send_answer_def
  loop_head_def upd_call_def load_def frame_of_def psh_request_def fin_request_def newFrame_def

lemma small_heaps:
  "heap_Push x [] = [x]" "heap_Push y [x] = (if prio y < prio x then [y, x] else [x, y])"
  "heap_Pop [x] = (x, [])" "heap_Pop [x, y] = (x, [y])"
  by (simp_all add: heap_Push_def heap_Pop_def shaperHeap_Push_def shaperHeap_Pop_def up.simps down.simps [of "Suc 0"] Swap_def Less_def
      parent_def Let_def)

text \<open>The frame of stream 5 has been taken; the FIN follows, and then what call 1 left behind.\<close>

definition drained :: "shaper \<Rightarrow> shaper" where
  "drained s =
     (case sender s of
        Writing r f \<Rightarrow>
          (let s1 = send_answer r (length (data f), None) (write_conn r f s) in
           case next_req s1 of Some x \<Rightarrow> copy_frame x (hand_over x s1) | None \<Rightarrow> s1)
      | _ \<Rightarrow> s)"

lemma drained_run:
  assumes "shaper_run t s" "\<not> loop_done s"
  shows "shaper_run t (drained s)"
proof (cases "sender s")
  case (Writing r f)
  let ?s1 = "send_answer r (length (data f), None) (write_conn r f s)"
  have "sender (write_conn r f s) = Answering r (length (data f), None)"
    by (simp add: write_conn_def length_frame_bytes)
  then have run: "shaper_run t ?s1"
    using shaper_run.step [OF shaper_run.step [OF assms(1) shaper_step.writes [OF Writing]] shaper_step.answers] by simp
  show ?thesis
  proof (cases "next_req ?s1")
    case (Some x)
    have "\<not> loop_done ?s1" using assms(2) by (simp add: send_answer_def write_conn_def upd_call_def)
    then have "shaper_run t (hand_over x ?s1)" using shaper_run.step [OF run shaper_step.hands] Some by simp
    from shaper_run.step [OF this shaper_step.copies [of _ x]] show ?thesis by (simp add: drained_def Writing Some Let_def)
  qed (use run in \<open>simp add: drained_def Writing Let_def\<close>)
qed (use assms in \<open>simp_all add: drained_def\<close>)

lemma stuck_value:
  "stuck a b =
     \<lparr>mem = [[a, b], [8, 9]],
      calls =
        [\<lparr>owner = 0, req = psh_request 5 4 1, timed = True, phase = Waiting, channel = None, wanted = [8, 9], born = 0\<rparr>,
         \<lparr>owner = 1, req = (psh_request 3 7 0)\<lparr>result := 1\<rparr>, timed = True, phase = Waiting, channel = None,
          wanted = [a, b], born = 0\<rparr>,
         \<lparr>owner = 2, req = (fin_request 3)\<lparr>result := 2\<rparr>, timed = False, phase = Waiting, channel = None, wanted = [], born = 0\<rparr>],
      reqs = [(psh_request 3 7 0)\<lparr>result := 1\<rparr>], next_req = Some ((fin_request 3)\<lparr>result := 2\<rparr>),
      sender = Writing (psh_request 5 4 1) ((newFrame 1 cmdPSH 5)\<lparr>data := [8, 9]\<rparr>),
      loop_done = False, died = False, socket_error = None, wire = []\<rparr>"
  by (simp add: stuck_def shaper_eval small_heaps Let_def)

lemma stuck_run: "shaper_run (new_shaper [[a, b], [8, 9]]) (stuck a b)"
proof -
  let ?p = "(psh_request 5 4 1)\<lparr>result := 0\<rparr>" and ?m = "new_shaper [[a, b], [8, 9]]"
  let ?s1 = "start_write 0 True (psh_request 5 4 1) ?m"
  let ?s2 = "copy_frame ?p (hand_over ?p (take_request 0 ?s1))"
  let ?s3 = "take_request 1 (start_write 1 True (psh_request 3 7 0) ?s2)"
  note ev = shaper_eval small_heaps Let_def
  have "shaper_run ?m ?s1"
    by (rule shaper_run.step [OF shaper_run.start begins]) (simp_all add: ev idle_def slice_ok_def)
  then have "shaper_run ?m (take_request 0 ?s1)"
    by (rule shaper_run.step [OF _ takes]) (simp_all add: ev)
  then have "shaper_run ?m (hand_over ?p (take_request 0 ?s1))"
    by (rule shaper_run.step [OF _ hands]) (simp_all add: ev)
  then have "shaper_run ?m ?s2"
    by (rule shaper_run.step [OF _ copies]) (simp add: ev)
  then have "shaper_run ?m (start_write 1 True (psh_request 3 7 0) ?s2)"
    by (rule shaper_run.step [OF _ begins]) (simp_all add: ev idle_def slice_ok_def)
  then have "shaper_run ?m ?s3"
    by (rule shaper_run.step [OF _ takes]) (simp_all add: ev)
  then have "shaper_run ?m (start_write 2 False (fin_request 3) ?s3)"
    by (rule shaper_run.step [OF _ begins]) (simp_all add: ev idle_def slice_ok_def)
  then have "shaper_run ?m (take_request 2 (start_write 2 False (fin_request 3) ?s3))"
    by (rule shaper_run.step [OF _ takes]) (simp_all add: ev)
  then show ?thesis by (simp add: stuck_def Let_def)
qed

lemma reused_run: "shaper_run (new_shaper [[a, b], [8, 9]]) (reused a b x y)"
proof -
  let ?s = "end_write 1 (0, Some ErrTimeout) (stuck a b)"
  note ev = stuck_value shaper_eval small_heaps Let_def
  have "shaper_run (new_shaper [[a, b], [8, 9]]) ?s"
    by (rule shaper_run.step [OF stuck_run times_out]) (simp_all add: ev active_def)
  then have "shaper_run (new_shaper [[a, b], [8, 9]]) (?s\<lparr>mem := (mem ?s)[0 := [x, y]]\<rparr>)"
    by (rule shaper_run.step [OF _ reuses]) (simp_all add: ev unused_def active_def)
  then show ?thesis by (simp add: reused_def Let_def)
qed

text \<open>
  C13: A timed-out write sends somebody else's data. There is a run in which the caller of a write got the error of a timeout, its buffer
  was then used by another tunnel, and the connection was given, after the FIN of the stream, a data frame of
  that stream with the other tunnel's bytes.
\<close>

theorem late_frame_leaks:
  "\<exists>s. shaper_run (new_shaper [[a, b], [8, 9]]) s
     \<and> phase (calls s ! 1) = Returned (0, Some ErrTimeout) \<and> wanted (calls s ! 1) = [a, b]
     \<and> map snd (wire s) = [(newFrame 1 cmdPSH 5)\<lparr>data := [8, 9]\<rparr>, newFrame 1 cmdFIN 3, (newFrame 1 cmdPSH 3)\<lparr>data := [x, y]\<rparr>]"
proof (intro exI conjI)
  let ?s = "drained (drained (drained (reused a b x y)))"
  note ev = drained_def reused_def stuck_value shaper_eval small_heaps Let_def
  show "shaper_run (new_shaper [[a, b], [8, 9]]) ?s"
    by (intro drained_run reused_run) (simp_all add: ev)
  show "phase (calls ?s ! 1) = Returned (0, Some ErrTimeout)" by (simp add: ev)
  show "wanted (calls ?s ! 1) = [a, b]" by (simp add: ev)
  show "map snd (wire ?s) = [(newFrame 1 cmdPSH 5)\<lparr>data := [8, 9]\<rparr>, newFrame 1 cmdFIN 3, (newFrame 1 cmdPSH 3)\<lparr>data := [x, y]\<rparr>]"
    by (simp add: ev)
qed

section \<open>Examples\<close>

lemma writer_frames_in_order_witness:
  "unfailed 2 (drained (drained (stuck 1 2))) \<and> written_by 2 (drained (drained (stuck 1 2))) \<noteq> []
   \<and> (\<exists>k. written_by 2 (drained (drained (stuck 1 2))) = map call_frame (take k (calls_of 2 (drained (drained (stuck 1 2)))))
      \<and> length (calls_of 2 (drained (drained (stuck 1 2)))) \<le> k + 1)"
proof -
  let ?s = "drained (drained (stuck 1 2))"
  note ev = drained_def stuck_value shaper_eval small_heaps Let_def
  have r: "shaper_run (new_shaper [[1, 2], [8, 9]]) ?s"
    by (intro drained_run stuck_run) (simp_all add: ev)
  have u: "unfailed 2 ?s" by (simp add: ev unfailed_def failed_def)
  moreover have "written_by 2 ?s \<noteq> []" by (simp add: ev written_by_def)
  ultimately show ?thesis using writer_frames_in_order [OF r u] by blast
qed

lemma acknowledged_frame_written_witness:
  "\<exists>s. shaper_run (new_shaper [[1, 2], [8, 9]]) s \<and> phase (calls s ! 0) = Returned (2, None)
     \<and> filter (\<lambda>w. fst w = 0) (wire s) = [(0, call_frame (calls s ! 0))]"
proof -
  let ?t = "drained (stuck 1 2)" and ?m = "new_shaper [[1, 2], [8, 9]]"
  let ?s = "end_write 0 (2, None) ?t"
  note ev = drained_def stuck_value shaper_eval small_heaps Let_def
  have t: "shaper_run ?m ?t" by (intro drained_run stuck_run) (simp_all add: ev)
  have r: "shaper_run ?m ?s" by (rule shaper_run.step [OF t gets_result]) (simp_all add: ev)
  have p: "0 < length (calls ?s)" "phase (calls ?s ! 0) = Returned (2, None)" by (simp_all add: ev)
  from acknowledged_frame_written [OF r p] r p(2) show ?thesis by blast
qed

end
