(* ===== verification/WsClose.thy ===== *)
theory WsClose
  imports WebSocket
begin

text \<open>
  Goroutines that call the wrapper of a server's WebSocket connection at the same time. The other
  theories take a call of \<^verbatim>\<open>Write\<close> or \<^verbatim>\<open>Close\<close> as one step; here each is cut into the steps between which
  the scheduler can switch: \<^verbatim>\<open>flushFrame\<close> tests and sets the flag \<^verbatim>\<open>isWriting\<close> without a lock, and
  \<^verbatim>\<open>Conn.write\<close> holds \<^verbatim>\<open>c.mu\<close> while the socket blocks. A server sends each message as one frame.
\<close>

section \<open>State\<close>

datatype ws_pc =
    Ready
  | TestFlag nat "byte list"
  | SetFlag nat "byte list"
  | AcquireMu nat "byte list" "int option"
  | PrepareWrite nat "byte list" "int option"
  | SocketWrite nat "byte list"
  | ClearFlag nat "gerror option"
  | CloseSocket
  | CallReturned "gerror option"
  | ConcurrentWrite

text \<open>
  \<open>isWriting\<close> is gorilla's flag, \<open>mu\<close> tells whether the token of \<^verbatim>\<open>c.mu\<close> is there to take, \<open>onceDone\<close> that the
  function of \<^verbatim>\<open>closeOnce\<close> has ended. The messages' operation codes are in the program counters.
\<close>

record callers =
  conn :: ws
  isWriting :: bool
  mu :: bool
  onceDone :: bool
  ws_clock :: int
  pcs :: "ws_pc list"

definition resting :: "ws_pc \<Rightarrow> bool" where
  "resting p = (case p of Ready \<Rightarrow> True | CallReturned _ \<Rightarrow> True | _ \<Rightarrow> False)"

definition at :: "nat \<Rightarrow> ws_pc \<Rightarrow> callers \<Rightarrow> callers" where
  "at i p s = s\<lparr>pcs := (pcs s)[i := p]\<rparr>"

definition panic :: "nat \<Rightarrow> nat \<Rightarrow> callers \<Rightarrow> callers" where
  "panic i op s = at i ConcurrentWrite (if op = CloseMessage then s\<lparr>onceDone := True\<rparr> else s)"

section \<open>Calls\<close>

text \<open>\<^verbatim>\<open>WriteMessage\<close> on a server: \<^verbatim>\<open>beginMessage\<close>, then one frame. \<open>failed\<close> is where an error leads.\<close>

definition begin_message :: "nat \<Rightarrow> nat \<Rightarrow> byte list \<Rightarrow> (gerror \<Rightarrow> callers) \<Rightarrow> callers \<Rightarrow> callers" where
  "begin_message i op bs failed s =
     (case writeErr (conn s) of
        Some e \<Rightarrow> failed e
      | None \<Rightarrow> at i (TestFlag op (ws_frame True True op [] bs)) s)"

definition begin_write :: "nat \<Rightarrow> byte list \<Rightarrow> callers \<Rightarrow> callers" where
  "begin_write i bs s = begin_message i BinaryMessage bs (\<lambda>e. at i (CallReturned (Some e)) s) s"

text \<open>\<^verbatim>\<open>CloseWithDeadLine\<close>: none of the results while another goroutine is inside \<^verbatim>\<open>closeOnce\<close>.\<close>

definition begin_close :: "nat \<Rightarrow> callers \<Rightarrow> callers list" where
  "begin_close i s =
     (if closeOnce (conn s) then (if onceDone s then [at i CloseSocket s] else [])
      else let s' = s\<lparr>conn := (conn s)\<lparr>closeOnce := True, writeDeadline := Some (ws_clock s + closeWait)\<rparr>\<rparr> in
        [begin_message i CloseMessage (FormatCloseMessage CloseNormalClosure [])
           (\<lambda>_. at i CloseSocket (s'\<lparr>onceDone := True\<rparr>)) s'])"

text \<open>The next step of a goroutine in a call: its possible results, none while it is blocked.\<close>

definition advance :: "nat \<Rightarrow> callers \<Rightarrow> callers list" where
  "advance i s =
     (case pcs s ! i of
        TestFlag op f \<Rightarrow> [if isWriting s then panic i op s else at i (SetFlag op f) s]
      | SetFlag op f \<Rightarrow> [at i (AcquireMu op f (writeDeadline (conn s))) (s\<lparr>isWriting := True\<rparr>)]
      | AcquireMu op f dl \<Rightarrow> if mu s then [at i (PrepareWrite op f dl) (s\<lparr>mu := False\<rparr>)] else []
      | PrepareWrite op f dl \<Rightarrow>
          (case writeErr (conn s) of
             Some e \<Rightarrow> [at i (ClearFlag op (Some e)) (s\<lparr>mu := True\<rparr>)]
           | None \<Rightarrow> [at i (SocketWrite op f) (s\<lparr>conn := (conn s)\<lparr>tcp := (tcp (conn s))\<lparr>wdl := dl\<rparr>\<rparr>\<rparr>)])
      | SocketWrite op f \<Rightarrow>
          map (\<lambda>((n, e), t). at i (ClearFlag op e) (s\<lparr>mu := True,
              conn := (conn s)\<lparr>tcp := t, writeErr :=
                (if e = None \<and> op = CloseMessage then Some ErrCloseSent else e)\<rparr>\<rparr>))
            (tcp_write (ws_clock s) f (tcp (conn s)))
      | ClearFlag op e \<Rightarrow>
          [if \<not> isWriting s then panic i op s
           else if op = CloseMessage then at i CloseSocket (s\<lparr>isWriting := False, onceDone := True\<rparr>)
           else at i (CallReturned e) (s\<lparr>isWriting := False\<rparr>)]
      | CloseSocket \<Rightarrow>
          map (\<lambda>(e, t). at i (CallReturned e) (s\<lparr>conn := (conn s)\<lparr>tcp := t\<rparr>\<rparr>)) (tcp_close (tcp (conn s)))
      | _ \<Rightarrow> [])"

text \<open>
  What happens beside the calls: time passes, the network acts, a goroutine sets a deadline (on the
  socket, as \<^verbatim>\<open>SetDeadline\<close> does, or for later writes), and the goroutine in \<^verbatim>\<open>Read\<close> answers a ping or a
  close, which takes \<^verbatim>\<open>c.mu\<close> but not \<^verbatim>\<open>isWriting\<close>.
\<close>

inductive around :: "callers \<Rightarrow> callers \<Rightarrow> bool" where
  time: "0 \<le> d \<Longrightarrow> around s (s\<lparr>ws_clock := ws_clock s + d\<rparr>)"
| network: "ws_env (conn s) c \<Longrightarrow> around s (s\<lparr>conn := c\<rparr>)"
| deadline: "around s (s\<lparr>conn := c_set_deadline ws_ops dl (conn s)\<rparr>)"
| write_deadline: "around s (s\<lparr>conn := c_set_write_deadline ws_ops dl (conn s)\<rparr>)"
| control: "mu s \<Longrightarrow> (e, c) \<in> set (WriteControl (ws_clock s) op payload (conn s)) \<Longrightarrow>
    around s (s\<lparr>conn := c\<rparr>)"

text \<open>
  The states goroutines can reach from \<open>s\<close>. With \<open>serial\<close>, a call begins only when no other call is in
  progress.
\<close>

definition may_begin :: "bool \<Rightarrow> nat \<Rightarrow> callers \<Rightarrow> bool" where
  "may_begin serial i s \<longleftrightarrow> i < length (pcs s) \<and> resting (pcs s ! i)
     \<and> (if serial then list_all resting (pcs s) else True)"

inductive reaches :: "bool \<Rightarrow> callers \<Rightarrow> callers \<Rightarrow> bool" for serial s where
  here: "reaches serial s s"
| call_write: "reaches serial s t \<Longrightarrow> may_begin serial i t \<Longrightarrow> reaches serial s (begin_write i bs t)"
| call_close: "reaches serial s t \<Longrightarrow> may_begin serial i t \<Longrightarrow> u \<in> set (begin_close i t) \<Longrightarrow>
    reaches serial s u"
| move: "reaches serial s t \<Longrightarrow> i < length (pcs t) \<Longrightarrow> u \<in> set (advance i t) \<Longrightarrow> reaches serial s u"
| other: "reaches serial s t \<Longrightarrow> around t u \<Longrightarrow> reaches serial s u"

definition goroutines :: "nat \<Rightarrow> int \<Rightarrow> ws \<Rightarrow> callers" where
  "goroutines n now w = \<lparr>conn = w, isWriting = False, mu = True, onceDone = False, ws_clock = now,
     pcs = replicate n Ready\<rparr>"

section \<open>Calls one after the other\<close>

text \<open>The flag and the lock as the goroutine in a call has them.\<close>

fun flag_and_mu :: "ws_pc \<Rightarrow> bool \<times> bool" where
  "flag_and_mu (AcquireMu _ _ _) = (True, True)"
| "flag_and_mu (PrepareWrite _ _ _) = (True, False)"
| "flag_and_mu (SocketWrite _ _) = (True, False)"
| "flag_and_mu (ClearFlag _ _) = (True, True)"
| "flag_and_mu _ = (False, True)"

definition one_caller :: "callers \<Rightarrow> bool" where
  "one_caller s \<longleftrightarrow> (\<exists>i. (\<forall>j < length (pcs s). j \<noteq> i \<longrightarrow> resting (pcs s ! j))
     \<and> i < length (pcs s) \<and> pcs s ! i \<noteq> ConcurrentWrite \<and> (isWriting s, mu s) = flag_and_mu (pcs s ! i))"

lemma at_simps [simp]:
  "conn (at i p s) = conn s" "isWriting (at i p s) = isWriting s" "mu (at i p s) = mu s"
  "onceDone (at i p s) = onceDone s" "ws_clock (at i p s) = ws_clock s" "pcs (at i p s) = (pcs s)[i := p]"
  by (simp_all add: at_def)

lemma resting_flags: "resting p \<Longrightarrow> flag_and_mu p = (False, True) \<and> p \<noteq> ConcurrentWrite"
  by (cases p) (simp_all add: resting_def)

lemma one_caller_at:
  assumes "\<forall>j < length (pcs s). j \<noteq> i \<longrightarrow> resting (pcs s ! j)" "i < length (pcs s)"
    and "pcs t = (pcs s)[i := pcs t ! i]" "pcs t ! i \<noteq> ConcurrentWrite"
    and "(isWriting t, mu t) = flag_and_mu (pcs t ! i)"
  shows "one_caller t"
proof -
  have "length (pcs t) = length (pcs s)" "\<forall>j. j \<noteq> i \<longrightarrow> pcs t ! j = pcs s ! j"
    using assms(3) by (metis length_list_update, metis nth_list_update_neq)
  then show ?thesis
    using assms(1,2,4,5) unfolding one_caller_def by (intro exI [of _ i]) auto
qed

lemma begin_serial:
  assumes "one_caller s" "may_begin True i s"
  shows "\<forall>j < length (pcs s). j \<noteq> i \<longrightarrow> resting (pcs s ! j)" "i < length (pcs s)"
    "\<not> isWriting s" "mu s"
  using assms resting_flags by (auto simp: may_begin_def one_caller_def list_all_length)

lemma one_caller_begin:
  assumes "one_caller s" "may_begin True i s"
  shows "one_caller (begin_write i bs s)" "u \<in> set (begin_close i s) \<Longrightarrow> one_caller u"
  using begin_serial [OF assms]
  by (auto simp: begin_write_def begin_close_def begin_message_def Let_def
      intro!: one_caller_at [of s i] split: option.splits if_splits)

lemma advance_moves: "u \<in> set (advance i s) \<Longrightarrow> \<not> resting (pcs s ! i)"
  by (auto simp: advance_def resting_def split: ws_pc.splits)

lemma one_caller_advance:
  assumes "one_caller s" "i < length (pcs s)" "u \<in> set (advance i s)"
  shows "one_caller u"
proof -
  from assms(1) obtain k where k: "\<forall>j < length (pcs s). j \<noteq> k \<longrightarrow> resting (pcs s ! j)"
    "pcs s ! k \<noteq> ConcurrentWrite" "(isWriting s, mu s) = flag_and_mu (pcs s ! k)"
    by (auto simp: one_caller_def)
  with advance_moves [OF assms(3)] assms(2) have "k = i" by blast
  with k assms(2,3) show ?thesis
    by (cases "pcs s ! i")
      (auto simp: advance_def tcp_close_def intro!: one_caller_at [of s i] split: option.splits if_splits)
qed

lemma one_caller_around: "around s u \<Longrightarrow> one_caller s \<Longrightarrow> one_caller u"
  by (induction rule: around.induct) (simp_all add: one_caller_def)

lemma serial_one_caller: "reaches True s t \<Longrightarrow> one_caller s \<Longrightarrow> one_caller t"
  by (induction rule: reaches.induct)
    (auto dest: one_caller_begin one_caller_advance one_caller_around)

lemma goroutines_one_caller: "0 < n \<Longrightarrow> one_caller (goroutines n now w)"
  unfolding one_caller_def by (intro exI [of _ 0]) (simp add: goroutines_def resting_def)

lemma one_caller_safe:
  assumes "one_caller s"
  shows "ConcurrentWrite \<notin> set (pcs s)" "list_all resting (pcs s) \<Longrightarrow> \<not> isWriting s \<and> mu s"
  using assms resting_flags by (auto simp: one_caller_def in_set_conv_nth list_all_length)


section \<open>A call of Close during a call of Write\<close>

text \<open>The calls that lead there: one goroutine is stuck in a write, the other closes.\<close>

lemma reaches_advance: "reaches serial s t \<Longrightarrow> i < length (pcs t) \<Longrightarrow> advance i t = [u] \<Longrightarrow> reaches serial s u"
  by (rule reaches.move [of serial s t i]) simp_all

definition stuck_writer :: "nat \<Rightarrow> byte list \<Rightarrow> callers \<Rightarrow> callers" where
  "stuck_writer i bs s = at i (SocketWrite BinaryMessage (ws_frame True True BinaryMessage [] bs))
     (s\<lparr>isWriting := True, mu := False,
        conn := (conn s)\<lparr>tcp := (tcp (conn s))\<lparr>wdl := writeDeadline (conn s)\<rparr>\<rparr>\<rparr>)"

lemma reaches_stuck_writer:
  assumes "reaches False s t" "may_begin False i t" "writeErr (conn t) = None" "\<not> isWriting t" "mu t"
  shows "reaches False s (stuck_writer i bs t)"
proof -
  let ?f = "ws_frame True True BinaryMessage [] bs"
  let ?dl = "writeDeadline (conn t)"
  have i: "i < length (pcs t)" using assms(2) by (simp add: may_begin_def)
  have 0: "reaches False s (at i (TestFlag BinaryMessage ?f) t)"
    using reaches.call_write [OF assms(1,2), of bs] assms(3) by (simp add: begin_write_def begin_message_def)
  have 1: "reaches False s (at i (SetFlag BinaryMessage ?f) t)"
    by (rule reaches_advance [OF 0, of i]) (use assms(4) i in \<open>simp_all add: advance_def at_def\<close>)
  have 2: "reaches False s (at i (AcquireMu BinaryMessage ?f ?dl) (t\<lparr>isWriting := True\<rparr>))"
    by (rule reaches_advance [OF 1, of i]) (use i in \<open>simp_all add: advance_def at_def\<close>)
  have 3: "reaches False s (at i (PrepareWrite BinaryMessage ?f ?dl) (t\<lparr>isWriting := True, mu := False\<rparr>))"
    by (rule reaches_advance [OF 2, of i]) (use assms(5) i in \<open>simp_all add: advance_def at_def\<close>)
  show ?thesis unfolding stuck_writer_def
    by (rule reaches_advance [OF 3, of i]) (use assms(3) i in \<open>simp_all add: advance_def at_def\<close>)
qed

lemma close_while_writing_panics:
  assumes "reaches False s t" "may_begin False i t" "writeErr (conn t) = None" "isWriting t"
    and "\<not> closeOnce (conn t)"
  shows "reaches False s (panic i CloseMessage (t\<lparr>conn := (conn t)\<lparr>closeOnce := True,
    writeDeadline := Some (ws_clock t + closeWait)\<rparr>\<rparr>))"
proof -
  let ?t = "t\<lparr>conn := (conn t)\<lparr>closeOnce := True, writeDeadline := Some (ws_clock t + closeWait)\<rparr>\<rparr>"
  let ?f = "ws_frame True True CloseMessage [] (FormatCloseMessage CloseNormalClosure [])"
  have i: "i < length (pcs t)" using assms(2) by (simp add: may_begin_def)
  have 0: "reaches False s (at i (TestFlag CloseMessage ?f) ?t)"
    by (rule reaches.call_close [OF assms(1,2)]) (use assms(3,5) in \<open>simp add: begin_close_def begin_message_def\<close>)
  show ?thesis
    by (rule reaches_advance [OF 0, of i])
      (use assms(4) i in \<open>simp_all add: advance_def panic_def at_def\<close>)
qed


section \<open>Examples\<close>

text \<open>A schedule: which goroutine moves next.\<close>

fun run_of :: "nat list \<Rightarrow> callers \<Rightarrow> callers option" where
  "run_of [] s = Some s"
| "run_of (i # is) s =
     (case advance i s of [] \<Rightarrow> None | u # _ \<Rightarrow> if i < length (pcs s) then run_of is u else None)"

lemma run_of_reaches: "run_of is t = Some u \<Longrightarrow> reaches serial s t \<Longrightarrow> reaches serial s u"
proof (induction "is" t rule: run_of.induct)
  case (2 i "is" t)
  then show ?case
    using reaches.move [of serial s t i "hd (advance i t)"]
    by (auto split: list.splits if_splits)
qed simp

definition sample_start :: callers where
  "sample_start = goroutines 2 0 (wrapWebSocketConn True (\<lambda>_. []) (sample_peer_socket 100))"

definition sample_write_over :: callers where
  "sample_write_over = the (run_of [0, 0, 0, 0, 0, 0] (begin_write 0 [7, 8] sample_start))"



end
