(* ===== verification/WsStream.thy ===== *)
theory WsStream
  imports WebSocket Tunnel
begin

text \<open>
  A WebSocket connection carries a byte stream: what one side's wrapper writes is what the other side's
  wrapper reads, whatever the message and frame boundaries, the masking, the sizes of the reads and
  the pieces in which the bytes arrive.
\<close>

section \<open>Frames in transit\<close>

record data_frame =
  d_final :: bool
  d_op :: nat
  d_key :: "byte list"
  d_payload :: "byte list"

definition is_control :: "nat \<Rightarrow> bool" where
  "is_control op \<longleftrightarrow> op \<in> {CloseMessage, PingMessage, PongMessage}"

text \<open>The bytes of frames for a reader in the given role, and what they carry of the stream.\<close>

definition wire :: "bool \<Rightarrow> data_frame \<Rightarrow> byte list" where
  "wire server f = ws_frame (\<not> server) (d_final f) (d_op f) (d_key f) (d_payload f)"

definition wires :: "bool \<Rightarrow> data_frame list \<Rightarrow> byte list" where
  "wires server fs = concat (map (wire server) fs)"

definition stream_part :: "data_frame \<Rightarrow> byte list" where
  "stream_part f = (if is_control (d_op f) then [] else d_payload f)"

definition payloads :: "data_frame list \<Rightarrow> byte list" where
  "payloads fs = concat (map stream_part fs)"

text \<open>
  A sequence of frames a reader accepts: \<open>final\<close> tells whether the last message is complete, \<open>len\<close> is
  its length so far. Control frames may stand anywhere, if \<open>ctl\<close> allows them at all.
\<close>

fun frames_ok :: "bool \<Rightarrow> bool \<Rightarrow> nat \<Rightarrow> data_frame list \<Rightarrow> bool" where
  "frames_ok ctl final len [] = True"
| "frames_ok ctl final len (f # fs) =
     (length (d_key f) = 4
      \<and> (if is_control (d_op f)
         then ctl \<and> d_final f \<and> length (d_payload f) \<le> maxControlFramePayloadSize \<and> frames_ok ctl final len fs
         else d_op f = (if final then BinaryMessage else continuationFrame)
           \<and> (if final then 0 else len) + length (d_payload f) < 2 ^ 63
           \<and> frames_ok ctl (d_final f) ((if final then 0 else len) + length (d_payload f)) fs))"

text \<open>Whether the last message is complete after these frames.\<close>

fun final_after :: "bool \<Rightarrow> data_frame list \<Rightarrow> bool" where
  "final_after final [] = final"
| "final_after final (f # fs) = final_after (if is_control (d_op f) then final else d_final f) fs"

abbreviation complete :: "data_frame list \<Rightarrow> bool" where
  "complete fs \<equiv> final_after True fs"

lemma final_after_append [simp]: "final_after final (fs @ gs) = final_after (final_after final fs) gs"
  by (induction final fs rule: final_after.induct) simp_all

text \<open>
  The bytes a reader will still return: the rest of the current frame and what the frames that follow
  carry. \<open>fut\<close> are the bytes that have not arrived.
\<close>

definition carries :: "bool \<Rightarrow> ws \<Rightarrow> byte list \<Rightarrow> byte list \<Rightarrow> bool" where
  "carries ctl w fut bs \<longleftrightarrow>
     readErr w = None \<and> (hasReader w \<or> (readFinal w \<and> readRemaining w = 0))
     \<and> (\<exists>cur fs. length cur = readRemaining w \<and> frames_ok ctl (readFinal w) (readLength w) fs
          \<and> final_after (readFinal w) fs \<and> inq (tcp w) @ fut =
              (if isServer w then maskBytes (readMaskKey w) (readMaskPos w) cur else cur)
              @ wires (isServer w) fs
          \<and> bs = cur @ payloads fs)"

lemma wires_simps [simp]:
  "wires server [] = []" "wires server (f # fs) = wire server f @ wires server fs"
  by (simp_all add: wires_def)

lemma payloads_simps [simp]: "payloads [] = []" "payloads (f # fs) = stream_part f @ payloads fs"
  by (simp_all add: payloads_def)

lemma wires_append [simp]: "wires server (fs @ gs) = wires server fs @ wires server gs"
  and payloads_append [simp]: "payloads (fs @ gs) = payloads fs @ payloads gs"
  by (simp_all add: wires_def payloads_def)

lemma data_ops [simp]: "\<not> is_control BinaryMessage" "\<not> is_control continuationFrame"
  by (simp_all add: is_control_def op_defs')

lemma carries_arrive:
  "carries ctl w (x @ fut) bs \<Longrightarrow> carries ctl (w\<lparr>tcp := (tcp w)\<lparr>inq := inq (tcp w) @ x\<rparr>\<rparr>) fut bs"
  unfolding carries_def by (simp split del: if_split cong: if_cong)

lemma carries_same: "same_reader w w' \<Longrightarrow> carries ctl w fut bs \<Longrightarrow> carries ctl w' fut bs"
  unfolding carries_def same_reader_def by (simp split del: if_split cong: if_cong)

section \<open>One frame\<close>

lemma check_data_ok:
  "check_header True f BinaryMessage l = None" "check_header False f continuationFrame l = None"
  by (simp_all add: check_header_def op_defs')

lemma check_control_ok:
  "is_control op \<Longrightarrow> l \<le> maxControlFramePayloadSize \<Longrightarrow> check_header rf True op l = None"
  by (auto simp: check_header_def is_control_def)

definition body :: "bool \<Rightarrow> data_frame \<Rightarrow> byte list" where
  "body server f = (if server then maskBytes (d_key f) 0 (d_payload f) else d_payload f)"

definition header_of :: "bool \<Rightarrow> data_frame \<Rightarrow> header" where
  "header_of server f = \<lparr>h_final = d_final f, h_op = d_op f, h_len = length (d_payload f),
     h_key = (if server then d_key f else [])\<rparr>"

lemma length_body [simp]: "length (body server f) = length (d_payload f)"
  by (simp add: body_def)

lemma parse_wire:
  assumes "frames_ok ctl final len (f # fs)"
  shows "parse_header server final (wire server f @ r) = Parsed (header_of server f) (body server f @ r)"
proof -
  have "check_header final (d_final f) (d_op f) (len7_of (length (d_payload f))) = None"
  proof (cases "is_control (d_op f)")
    case True
    with assms have "d_final f" "length (d_payload f) \<le> 125" by (auto simp: maxControlFramePayloadSize_def)
    with True check_control_ok [of "d_op f" "length (d_payload f)" final] show ?thesis
      by (simp add: len7_of_def maxControlFramePayloadSize_def)
  qed (use assms check_data_ok in auto)
  moreover have "d_op f \<in> {0, 1, 2, 8, 9, 10}"
    using assms by (auto simp: is_control_def op_defs' split: if_splits)
  moreover have "length (d_payload f) < 2 ^ 63"
    using assms by (auto simp: maxControlFramePayloadSize_def split: if_splits)
  ultimately show ?thesis
    unfolding wire_def body_def header_of_def using assms by (intro parse_frame) auto
qed

text \<open>The next frame's header, when the bytes that are there begin it.\<close>

lemma parsed_wire:
  assumes "frames_ok ctl (readFinal w) len (f # fs)"
    and "inq (tcp w) @ fut = wire (isServer w) f @ wires (isServer w) fs"
  shows "parse_header (isServer w) (readFinal w) (inq (tcp w)) = Short \<or>
    (\<exists>r. parse_header (isServer w) (readFinal w) (inq (tcp w)) = Parsed (header_of (isServer w) f) r
       \<and> r @ fut = body (isServer w) f @ wires (isServer w) fs
       \<and> drop (length (inq (tcp w)) - length r) (inq (tcp w)) = r)"
proof -
  have full: "parse_header (isServer w) (readFinal w) (inq (tcp w) @ fut)
      = Parsed (header_of (isServer w) f) (body (isServer w) f @ wires (isServer w) fs)"
    unfolding assms(2) by (rule parse_wire [OF assms(1)])
  show ?thesis
  proof (cases "parse_header (isServer w) (readFinal w) (inq (tcp w))")
    case (Broken e)
    from parse_header_mono(2) [OF this, of fut] full show ?thesis by simp
  next
    case (Parsed h r)
    from parse_header_mono(1) [OF this, of fut] full Parsed parse_header_suffix [OF Parsed]
    show ?thesis by simp
  qed simp
qed

text \<open>Advancing to the next data frame.\<close>

definition entered :: "data_frame \<Rightarrow> byte list \<Rightarrow> ws \<Rightarrow> ws" where
  "entered f r w =
     (consume (length (inq (tcp w)) - length r) w)
       \<lparr>readRemaining := length (d_payload f), readMaskKey := (if isServer w then d_key f else []),
        readMaskPos := 0, readFinal := d_final f, readLength := readLength w + length (d_payload f)\<rparr>"

lemma advance_data:
  assumes "frames_ok ctl (readFinal w) (readLength w) (f # fs)" "readFinal w \<longrightarrow> readLength w = 0"
    and "\<not> is_control (d_op f)"
    and "parse_header (isServer w) (readFinal w) (inq (tcp w)) = Parsed (header_of (isServer w) f) r"
  shows "advanceFrame now w = [(Inr (d_op f), entered f r w)]"
proof -
  have "d_op f \<in> {continuationFrame, TextMessage, BinaryMessage}" "readLength w + length (d_payload f) < 2 ^ 63"
    using assms(1-3) by (auto split: if_splits)
  then show ?thesis using assms(4)
    by (auto simp: advanceFrame_def entered_def Let_def header_of_def)
qed

lemma entered_carries:
  assumes "frames_ok ctl (readFinal w) (readLength w) (f # fs)" "readFinal w \<longrightarrow> readLength w = 0"
    and "\<not> is_control (d_op f)" "readErr w = None"
    and "drop (length (inq (tcp w)) - length r) (inq (tcp w)) = r"
    and "r @ fut = body (isServer w) f @ wires (isServer w) fs"
    and "hasReader v" "v = entered f r w \<or> v = (entered f r w)\<lparr>hasReader := True\<rparr>"
    and "final_after (readFinal w) (f # fs)"
  shows "carries ctl v fut (d_payload f @ payloads fs)"
proof -
  have "frames_ok ctl (d_final f) (readLength w + length (d_payload f)) fs"
    using assms(1-3) by (auto split: if_splits)
  moreover have "final_after (d_final f) fs" using assms(3,9) by simp
  ultimately show ?thesis
    using assms(4-8) unfolding carries_def body_def
    by (intro conjI exI [of _ "d_payload f"] exI [of _ fs]) (auto simp: entered_def)
qed

text \<open>A control frame is taken out of the stream; the answer to it does not touch the reader.\<close>

lemma advance_control:
  assumes "is_control (d_op f)" "(x, w') \<in> set (advanceFrame now w)"
    and "parse_header (isServer w) (readFinal w) (inq (tcp w)) = Parsed (header_of (isServer w) f) r"
    and "drop (length (inq (tcp w)) - length r) (inq (tcp w)) = r"
    and "r @ fut = body (isServer w) f @ wires (isServer w) fs"
    and "frames_ok ctl (readFinal w) (readLength w) fs" "readErr w = None"
    and "hasReader w \<or> readFinal w" "final_after (readFinal w) fs"
  shows "carries ctl w' fut (payloads fs) \<and> hasReader w' = hasReader w
    \<and> (\<forall>op. x = Inr op \<longrightarrow> op \<noteq> TextMessage \<and> op \<noteq> BinaryMessage)"
proof -
  let ?n = "length (d_payload f)"
  let ?k = "if isServer w then d_key f else []"
  let ?w1 = "(consume (length (inq (tcp w)) - length r) w)
    \<lparr>readRemaining := ?n, readMaskKey := ?k, readMaskPos := 0\<rparr>"
  let ?w2 = "(consume ?n ?w1)\<lparr>readRemaining := 0\<rparr>"
  have op: "d_op f \<notin> {continuationFrame, TextMessage, BinaryMessage}"
    using assms(1) by (auto simp: is_control_def op_defs')
  let ?p = "if isServer w then maskBytes ?k 0 (take ?n r) else take ?n r"
  have "advanceFrame now w =
      (if length r < ?n then [] else if d_op f = PongMessage then [(Inr PongMessage, ?w2)]
       else if d_op f = PingMessage then handle_ping now ?p ?w2 else handle_close now ?p ?w2)"
    using assms(3) op by (simp add: advanceFrame_def header_of_def Let_def cong: if_cong)
  with assms(2) have n: "?n \<le> length r"
    and x: "same_reader ?w2 w' \<and> (isl x \<or> x = Inr PingMessage \<or> x = Inr PongMessage)"
    using handlers_same(2,3) [of x w' now ?p ?w2] by (auto split: if_split_asm simp del: consume_fields)
  have "drop ?n r @ fut = drop ?n (r @ fut)" using n by simp
  also have "\<dots> = wires (isServer w) fs" unfolding assms(5) by simp
  finally have "carries ctl ?w2 fut (payloads fs)"
    using assms(4,6-9) unfolding carries_def
    by (intro conjI exI [of _ "[]"] exI [of _ fs]) auto
  with x have "carries ctl w' fut (payloads fs)" using carries_same by blast
  moreover from x have "hasReader w' = hasReader w" by (simp add: same_reader_def)
  moreover have "\<forall>op. x = Inr op \<longrightarrow> op \<noteq> TextMessage \<and> op \<noteq> BinaryMessage"
    using x by (auto simp: TextMessage_def BinaryMessage_def PingMessage_def PongMessage_def)
  ultimately show ?thesis by blast
qed

section \<open>Reads return the stream in order\<close>

lemma maskBytes_take: "take k (maskBytes key p bs) = maskBytes key p (take k bs)"
proof -
  have "maskBytes key p (take k bs @ drop k bs) =
      maskBytes key p (take k bs) @ maskBytes key (p + length (take k bs)) (drop k bs)"
    by (rule maskBytes_append)
  then show ?thesis by (auto simp: min_def)
qed

lemma maskBytes_drop: "k \<le> length bs \<Longrightarrow> drop k (maskBytes key p bs) = maskBytes key ((p + k) mod 4) (drop k bs)"
proof -
  assume k: "k \<le> length bs"
  have "maskBytes key p (take k bs @ drop k bs) =
      maskBytes key p (take k bs) @ maskBytes key (p + k) (drop k bs)"
    using k maskBytes_append [of key p "take k bs" "drop k bs"] by simp
  moreover have "maskBytes key ((p + k) mod 4) (drop k bs) = maskBytes key (p + k) (drop k bs)"
    by (rule maskBytes_cong) simp
  ultimately show ?thesis using k by simp
qed

lemma take_payload_carries:
  assumes "carries ctl w fut bs" "hasReader w" "k \<le> readRemaining w" "k \<le> length (inq (tcp w))"
    and "take_payload k w = (out, w')"
  shows "\<exists>bs'. bs = out @ bs' \<and> carries ctl w' fut bs'"
proof -
  from assms(1) obtain cur fs where c: "readErr w = None" "length cur = readRemaining w"
    "frames_ok ctl (readFinal w) (readLength w) fs" "final_after (readFinal w) fs" "bs = cur @ payloads fs"
    and q: "inq (tcp w) @ fut =
        (if isServer w then maskBytes (readMaskKey w) (readMaskPos w) cur else cur) @ wires (isServer w) fs"
    by (auto simp: carries_def)
  let ?m = "\<lambda>p xs. if isServer w then maskBytes (readMaskKey w) p xs else xs"
  have kc: "k \<le> length cur" using assms(3) c(2) by simp
  have "take k (inq (tcp w)) = take k (inq (tcp w) @ fut)" using assms(4) by simp
  also have "\<dots> = ?m (readMaskPos w) (take k cur)"
    using kc unfolding q by (simp add: maskBytes_take)
  finally have out: "out = take k cur" using assms(5) by (auto simp: take_payload_def Let_def)
  have "drop k (inq (tcp w)) @ fut = drop k (inq (tcp w) @ fut)" using assms(4) by simp
  also have "\<dots> = ?m ((readMaskPos w + k) mod 4) (drop k cur) @ wires (isServer w) fs"
    using kc unfolding q by (simp add: maskBytes_drop)
  finally have "carries ctl w' fut (drop k cur @ payloads fs)"
    using assms(2,5) c kc unfolding carries_def
    by (intro conjI exI [of _ "drop k cur"] exI [of _ fs]) (auto simp: take_payload_def Let_def)
  with out c(5) show ?thesis by (intro exI [of _ "drop k cur @ payloads fs"]) simp
qed

lemma frames_ok_start: "frames_ok ctl True l fs \<Longrightarrow> frames_ok ctl True l' fs"
  by (induction fs) auto

lemma carries_end_of_message:
  assumes "carries ctl w fut bs" "readRemaining w = 0" "readFinal w"
  shows "carries ctl (w\<lparr>hasReader := b\<rparr>) fut bs" "carries ctl (w\<lparr>readLength := 0\<rparr>) fut bs"
proof -
  from assms show "carries ctl (w\<lparr>hasReader := b\<rparr>) fut bs" by (auto simp: carries_def)
  have "frames_ok ctl True (readLength w) fs \<longleftrightarrow> frames_ok ctl True 0 fs" for fs
    using frames_ok_start by blast
  with assms show "carries ctl (w\<lparr>readLength := 0\<rparr>) fut bs" by (auto simp: carries_def)
qed

text \<open>Between frames a read enters the next frame, deals with a control frame or fails because of one.\<close>

definition next_frame_ok :: "bool \<Rightarrow> bool \<Rightarrow> byte list \<Rightarrow> byte list \<Rightarrow> nat res \<Rightarrow> ws \<Rightarrow> bool" where
  "next_frame_ok ctl reader fut bs x w' \<longleftrightarrow>
     (case x of
        Inl e \<Rightarrow> ctl
      | Inr op \<Rightarrow> hasReader w' = reader \<and>
          (if op = TextMessage \<or> op = BinaryMessage
           then \<not> reader \<and> carries ctl (w'\<lparr>hasReader := True\<rparr>) fut bs else carries ctl w' fut bs))"

lemma carries_next_frame:
  assumes "carries ctl w fut bs" "readRemaining w = 0" "\<not> (hasReader w \<and> readFinal w)"
  defines "v \<equiv> (if hasReader w then w else w\<lparr>readLength := 0\<rparr>)"
  assumes "(x, w') \<in> set (advanceFrame now v)"
  shows "next_frame_ok ctl (hasReader w) fut bs x w'"
proof -
  have cv: "carries ctl v fut bs"
  proof (cases "hasReader w")
    case False
    then have "readFinal w" using assms(1) by (simp add: carries_def)
    then show ?thesis using False carries_end_of_message(2) [OF assms(1,2)] by (simp add: v_def)
  qed (use assms(1) in \<open>simp add: v_def\<close>)
  have v: "readRemaining v = 0" "hasReader v = hasReader w" "readFinal v = (\<not> hasReader w)"
    "readFinal v \<longrightarrow> readLength v = 0" "hasReader v \<or> readFinal v"
    using assms(1-3) by (auto simp: v_def carries_def)
  from cv v(1) obtain fs where fs: "readErr v = None" "frames_ok ctl (readFinal v) (readLength v) fs"
    "inq (tcp v) @ fut = wires (isServer v) fs" "bs = payloads fs" "final_after (readFinal v) fs"
    by (auto simp: carries_def)
  show ?thesis
  proof (cases fs)
    case Nil
    with fs have "inq (tcp v) = []" by simp
    with assms(5) show ?thesis by (simp add: advanceFrame_def parse_header_def)
  next
    case (Cons f fs')
    note ok = fs(2) [unfolded Cons]
    note fin = fs(5) [unfolded Cons]
    have q: "inq (tcp v) @ fut = wire (isServer v) f @ wires (isServer v) fs'" using fs(3) by (simp add: Cons)
    from parsed_wire [OF ok q] assms(5) obtain r
      where p: "parse_header (isServer v) (readFinal v) (inq (tcp v)) = Parsed (header_of (isServer v) f) r"
      and r: "r @ fut = body (isServer v) f @ wires (isServer v) fs'"
        "drop (length (inq (tcp v)) - length r) (inq (tcp v)) = r"
      by (auto simp: advanceFrame_def)
    show ?thesis
    proof (cases "is_control (d_op f)")
      case True
      with ok have t: "ctl" and f: "frames_ok ctl (readFinal v) (readLength v) fs'" by (auto simp del: simp_thms(11))
      from fin True have "final_after (readFinal v) fs'" by simp
      from advance_control [OF True assms(5) p r(2,1) f fs(1) v(5) this] t v(2) fs(4) Cons True show ?thesis
        by (auto simp: next_frame_ok_def stream_part_def split: sum.split)
    next
      case False
      have x: "x = Inr (d_op f)" "w' = entered f r v"
        using assms(5) advance_data [OF ok v(4) False p] by simp_all
      have reader: "hasReader w' = hasReader w" using v(2) x(2) by (simp add: entered_def)
      note c = entered_carries [OF ok v(4) False fs(1) r(2,1) _ _ fin]
      show ?thesis
      proof (cases "hasReader w")
        case True
        then have "carries ctl w' fut bs"
          using c [of w'] reader x(2) fs(4) Cons False by (simp add: stream_part_def)
        moreover have "d_op f = continuationFrame" using ok False v(3) True by simp
        ultimately show ?thesis using True reader x(1) by (simp add: next_frame_ok_def op_defs')
      next
        case hr: False
        then have "carries ctl (w'\<lparr>hasReader := True\<rparr>) fut bs"
          using c [of "w'\<lparr>hasReader := True\<rparr>"] x(2) fs(4) Cons False by (simp add: stream_part_def)
        moreover have "d_op f = BinaryMessage" using ok False v(3) hr by simp
        ultimately show ?thesis using hr reader x(1) by (simp add: next_frame_ok_def)
      qed
    qed
  qed
qed

text \<open>
  A read takes its bytes from the front of the stream. It fails only because of a control frame, and
  then returns nothing, and nothing later.
\<close>

lemma carries_read:
  "carries ctl w fut bs \<Longrightarrow> ((out, er), w') \<in> set (wrapper_read now n w) \<Longrightarrow>
     (er = None \<and> (\<exists>bs'. bs = out @ bs' \<and> carries ctl w' fut bs'))
     \<or> (ctl \<and> out = [] \<and> er \<noteq> None \<and> readErr w' \<noteq> None)"
proof (induction "2 * length (inq (tcp w)) + (if hasReader w then 1 else 0)" arbitrary: w rule: less_induct)
  case less
  have e: "readErr w = None" using less.prems(1) by (simp add: carries_def)
  consider "hasReader w" "readRemaining w > 0"
    | "hasReader w" "readRemaining w = 0" "readFinal w"
    | "readRemaining w = 0" "\<not> (hasReader w \<and> readFinal w)"
    using less.prems(1) by (auto simp: carries_def)
  then show ?case
  proof cases
    case 1
    with less.prems(2) e obtain k where "take_payload k w = (out, w')" "er = None" "k \<le> readRemaining w"
      "k \<le> length (inq (tcp w))"
      by (elim wrapper_read_payload)
    with take_payload_carries [OF less.prems(1) 1(1)] show ?thesis by blast
  next
    case 2
    then have "wrapper_read now n w = wrapper_read now n (w\<lparr>hasReader := False\<rparr>)"
      using e by (simp add: wrapper_read.simps [of now n w])
    moreover have "carries ctl (w\<lparr>hasReader := False\<rparr>) fut bs"
      by (rule carries_end_of_message(1) [OF less.prems(1) 2(2,3)])
    ultimately show ?thesis using less.hyps [of "w\<lparr>hasReader := False\<rparr>"] less.prems(2) 2(1) by simp
  next
    case 3
    let ?v = "if hasReader w then w else w\<lparr>readLength := 0\<rparr>"
    have "wrapper_read now n w =
      concat (map (\<lambda>(r, w'). case r of
           Inl e \<Rightarrow> [frame_error e w']
         | Inr op \<Rightarrow>
             if op = TextMessage \<or> op = BinaryMessage then
               (if hasReader w then [frame_error internalError w']
                else wrapper_read now n (w'\<lparr>hasReader := True\<rparr>))
             else wrapper_read now n w') (advanceFrame now ?v))"
      using e 3 by (intro wrapper_read_frame) auto
    with less.prems(2) obtain x u where u: "(x, u) \<in> set (advanceFrame now ?v)"
      and m: "((out, er), w') \<in> set (case x of
           Inl e \<Rightarrow> [frame_error e u]
         | Inr op \<Rightarrow>
             if op = TextMessage \<or> op = BinaryMessage then
               (if hasReader w then [frame_error internalError u]
                else wrapper_read now n (u\<lparr>hasReader := True\<rparr>))
             else wrapper_read now n u)"
      by auto
    note ok = carries_next_frame [OF less.prems(1) 3 u]
    show ?thesis
    proof (cases x)
      case (Inl e)
      with ok m show ?thesis by (auto simp: next_frame_ok_def frame_error_def)
    next
      case (Inr op)
      have short: "length (inq (tcp u)) < length (inq (tcp w))"
        using advanceFrame_shorter [OF u [unfolded Inr]] by (auto split: if_splits)
      show ?thesis
      proof (cases "op = TextMessage \<or> op = BinaryMessage")
        case True
        with ok m Inr short less.hyps [of "u\<lparr>hasReader := True\<rparr>"] show ?thesis
          by (simp add: next_frame_ok_def)
      next
        case False
        with ok m Inr short less.hyps [of u] show ?thesis
          by (simp add: next_frame_ok_def split: if_splits)
      qed
    qed
  qed
qed

text \<open>
  When everything has arrived and there are no control frames, a read returns as long as bytes are
  missing.
\<close>

lemma advance_complete:
  assumes "frames_ok False (readFinal w) (readLength w) (f # fs)" "readFinal w \<longrightarrow> readLength w = 0"
    and "inq (tcp w) = wire (isServer w) f @ wires (isServer w) fs"
  shows "\<exists>u. advanceFrame now w = [(Inr (d_op f), u)]"
  using advance_data [OF assms(1,2) _ parse_wire [OF assms(1), of "isServer w" "wires (isServer w) fs", folded assms(3)]]
    assms(1) by (auto split: if_splits)

lemma carries_progress:
  "carries False w [] bs \<Longrightarrow> bs \<noteq> [] \<Longrightarrow> 0 < n \<Longrightarrow> wrapper_read now n w \<noteq> []"
proof (induction "2 * length (inq (tcp w)) + (if hasReader w then 1 else 0)" arbitrary: w rule: less_induct)
  case less
  have e: "readErr w = None" using less.prems(1) by (simp add: carries_def)
  consider "hasReader w" "readRemaining w > 0"
    | "hasReader w" "readRemaining w = 0" "readFinal w"
    | "readRemaining w = 0" "\<not> (hasReader w \<and> readFinal w)"
    using less.prems(1) by (auto simp: carries_def)
  then show ?case
  proof cases
    case 1
    then have "inq (tcp w) \<noteq> []"
      using less.prems(1) by (auto simp: carries_def) (metis length_0_conv length_maskBytes less_numeral_extra(3))
    with 1 e less.prems(3) show ?thesis
      by (simp add: wrapper_read.simps [of now n w] Suc_le_eq)
  next
    case 2
    then have "wrapper_read now n w = wrapper_read now n (w\<lparr>hasReader := False\<rparr>)"
      using e by (simp add: wrapper_read.simps [of now n w])
    moreover have "carries False (w\<lparr>hasReader := False\<rparr>) [] bs"
      by (rule carries_end_of_message(1) [OF less.prems(1) 2(2,3)])
    ultimately show ?thesis using less.hyps [of "w\<lparr>hasReader := False\<rparr>"] less.prems(2,3) 2(1) by simp
  next
    case 3
    let ?v = "if hasReader w then w else w\<lparr>readLength := 0\<rparr>"
    from less.prems(1) 3 obtain fs where fs: "frames_ok False (readFinal w) (readLength w) fs"
      "inq (tcp w) = wires (isServer w) fs" "bs = payloads fs"
      by (auto simp: carries_def)
    with less.prems(2) obtain f fs' where Cons: "fs = f # fs'" by (cases fs) auto
    have "frames_ok False (readFinal ?v) (readLength ?v) (f # fs')"
      using fs(1) less.prems(1) 3 carries_end_of_message(2) [OF less.prems(1)] Cons
      by (cases "hasReader w") (auto simp: carries_def dest: frames_ok_start)
    moreover have "readFinal ?v \<longrightarrow> readLength ?v = 0" using 3 by auto
    moreover have "inq (tcp ?v) = wire (isServer ?v) f @ wires (isServer ?v) fs'"
      using fs(2) Cons by simp
    ultimately obtain u where u: "advanceFrame now ?v = [(Inr (d_op f), u)]"
      using advance_complete by blast
    then have m: "(Inr (d_op f), u) \<in> set (advanceFrame now ?v)" by simp
    have short: "length (inq (tcp u)) < length (inq (tcp w))"
      using advanceFrame_shorter [OF m] by (auto split: if_splits)
    note ok = carries_next_frame [OF less.prems(1) 3 m]
    have eq: "wrapper_read now n w = (if d_op f = TextMessage \<or> d_op f = BinaryMessage
        then (if hasReader w then [frame_error internalError u] else wrapper_read now n (u\<lparr>hasReader := True\<rparr>))
        else wrapper_read now n u)"
      using wrapper_read_frame [of w now n] e 3 u by auto
    show ?thesis
    proof (cases "d_op f = TextMessage \<or> d_op f = BinaryMessage")
      case True
      with ok short less.hyps [of "u\<lparr>hasReader := True\<rparr>"] less.prems(2,3) eq show ?thesis
        by (simp add: next_frame_ok_def)
    next
      case False
      with ok short less.hyps [of u] less.prems(2,3) eq show ?thesis
        by (simp add: next_frame_ok_def split: if_splits)
    qed
  qed
qed

section \<open>What a writer puts on the wire\<close>

fun chunk_frames :: "(nat \<Rightarrow> byte list) \<Rightarrow> nat \<Rightarrow> nat \<Rightarrow> byte list list \<Rightarrow> data_frame list" where
  "chunk_frames ks i op [] = []"
| "chunk_frames ks i op [d] = [\<lparr>d_final = True, d_op = op, d_key = ks i, d_payload = d\<rparr>]"
| "chunk_frames ks i op (d # ds) =
     \<lparr>d_final = False, d_op = op, d_key = ks i, d_payload = d\<rparr>
     # chunk_frames ks (Suc i) continuationFrame ds"

definition frames_of :: "ws \<Rightarrow> byte list \<Rightarrow> data_frame list" where
  "frames_of c bs =
     (if isServer c
      then [\<lparr>d_final = True, d_op = BinaryMessage, d_key = replicate 4 0, d_payload = bs\<rparr>]
      else chunk_frames (keys c) (nkeys c) BinaryMessage (chunks_of ioSize bs))"

lemma client_frames_wire: "client_frames ks i op ds = map (wire True) (chunk_frames ks i op ds)"
  by (induction ks i op ds rule: chunk_frames.induct) (simp_all add: wire_def)

lemma message_frames_wire: "message_frames c BinaryMessage bs = map (wire (\<not> isServer c)) (frames_of c bs)"
  by (simp add: message_frames_def frames_of_def client_frames_wire) (simp add: wire_def ws_frame_def)

lemma concat_chunks_of: "concat (chunks_of k bs) = bs"
proof (induction k bs rule: chunks_of.induct)
  case (1 k bs)
  then show ?case by (subst chunks_of.simps) auto
qed

lemma payloads_chunk_frames: "\<not> is_control op \<Longrightarrow> payloads (chunk_frames ks i op ds) = concat ds"
  by (induction ks i op ds rule: chunk_frames.induct) (auto simp: stream_part_def)

lemma payloads_frames_of [simp]: "payloads (frames_of c bs) = bs"
  by (simp add: frames_of_def payloads_chunk_frames concat_chunks_of) (simp add: stream_part_def)

lemma chunk_frames_ok:
  "\<forall>i. length (ks i) = 4 \<Longrightarrow> op = (if final then BinaryMessage else continuationFrame) \<Longrightarrow> ds \<noteq> [] \<Longrightarrow>
    (if final then 0 else len) + length (concat ds) < 2 ^ 63 \<Longrightarrow>
    frames_ok ctl final len (chunk_frames ks i op ds) \<and> final_after final (chunk_frames ks i op ds)"
proof (induction ks i op ds arbitrary: final len rule: chunk_frames.induct)
  case (3 ks i op d e es)
  from 3(1) [of False "(if final then 0 else len) + length d"] 3(2,3,5) show ?case
    by (cases final) simp_all
qed auto

lemma frames_of_ok:
  assumes "\<And>i. length (keys c i) = 4" "length bs < 2 ^ 63"
  shows "frames_ok ctl True 0 (frames_of c bs) \<and> complete (frames_of c bs)"
proof (cases "isServer c")
  case False
  with chunk_frames_ok [of "keys c" BinaryMessage True "chunks_of ioSize bs" 0 ctl "nkeys c"] assms show ?thesis
    by (simp add: frames_of_def concat_chunks_of)
qed (use assms in \<open>simp add: frames_of_def\<close>)

lemma frames_ok_append:
  "frames_ok ctl final len fs \<Longrightarrow> final_after final fs \<Longrightarrow> frames_ok ctl True 0 gs \<Longrightarrow>
     frames_ok ctl final len (fs @ gs)"
  by (induction fs arbitrary: final len) (auto intro: frames_ok_start)

lemma send_frames_bytes:
  "(None, w') \<in> set (send_frames (\<lambda>f w. conn_write now (writeDeadline w) False f w) fs w) \<Longrightarrow>
     tcp_sent (tcp w') = tcp_sent (tcp w) @ concat fs \<and> keys w' = keys w \<and> isServer w' = isServer w"
proof (induction fs arbitrary: w)
  case (Cons f fs)
  then obtain v where v: "(None, v) \<in> set (conn_write now (writeDeadline w) False f w)"
    "(None, w') \<in> set (send_frames (\<lambda>f w. conn_write now (writeDeadline w) False f w) fs v)"
    by (auto split: if_splits)
  from v(1) have "tcp_sent (tcp v) = tcp_sent (tcp w) @ f \<and> keys v = keys w \<and> isServer v = isServer w"
    by (auto simp: conn_write_def tcp_write_def tcp_accept_def split: option.splits if_splits)
  with Cons.IH [OF v(2)] show ?case by simp
qed simp

lemma ws_write_bytes:
  assumes "((n, None), c') \<in> set (ws_write now bs c)"
  shows "tcp_sent (tcp c') = tcp_sent (tcp c) @ wires (\<not> isServer c) (frames_of c bs)
    \<and> keys c' = keys c \<and> isServer c' = isServer c"
proof -
  let ?c = "offer bs c"
  let ?v = "if isServer c then ?c else ?c\<lparr>nkeys := nkeys ?c + length (message_frames c BinaryMessage bs)\<rparr>"
  from assms obtain u where "writeErr c = None" and c': "c' = u\<lparr>ws_sent := ws_sent u @ bs\<rparr>"
    and u: "(None, u) \<in> set (send_frames (\<lambda>f w. conn_write now (writeDeadline w) False f w)
      (message_frames c BinaryMessage bs) ?v)"
    by (auto simp: ws_write_def WriteMessage_def Let_def split: option.splits)
  from send_frames_bytes [OF u] c' show ?thesis
    by (simp add: message_frames_wire wires_def split: if_splits)
qed

section \<open>The stream\<close>

text \<open>A wrapper that has written these messages, one call of \<^verbatim>\<open>Write\<close> each.\<close>

inductive ws_sends :: "ws \<Rightarrow> byte list list \<Rightarrow> ws \<Rightarrow> bool" where
  sends_none: "ws_sends c [] c"
| sends_write: "ws_sends c ms c' \<Longrightarrow> length m < 2 ^ 63 \<Longrightarrow> ((n, None), c'') \<in> set (ws_write now m c')
    \<Longrightarrow> ws_sends c (ms @ [m]) c''"

text \<open>
  A wrapper whose peer's bytes \<open>fut\<close> arrive in any pieces while it is read with buffers of any size;
  \<open>out\<close> is what the reads returned.
\<close>

inductive ws_receives :: "byte list \<Rightarrow> ws \<Rightarrow> byte list \<Rightarrow> byte list \<Rightarrow> ws \<Rightarrow> bool" where
  receives_none: "ws_receives fut w [] fut w"
| receives_arrive: "ws_receives fut w out (x @ fut') w' \<Longrightarrow>
    ws_receives fut w out fut' (w'\<lparr>tcp := (tcp w')\<lparr>inq := inq (tcp w') @ x\<rparr>\<rparr>)"
| receives_read: "ws_receives fut w out fut' w' \<Longrightarrow> 0 < n \<Longrightarrow> ((o', None), w'') \<in> set (ws_read now n w') \<Longrightarrow>
    ws_receives fut w (out @ o') fut' w''"

lemma ws_sends_frames:
  assumes "ws_sends c ms c'" "\<forall>i. length (keys c i) = 4"
  shows "keys c' = keys c \<and> isServer c' = isServer c
    \<and> (\<exists>fs. tcp_sent (tcp c') = tcp_sent (tcp c) @ wires (\<not> isServer c) fs \<and> frames_ok ctl True 0 fs
         \<and> complete fs \<and> payloads fs = concat ms)"
  using assms
proof (induction rule: ws_sends.induct)
  case (sends_none c)
  then show ?case by (auto intro: exI [of _ "[]"])
next
  case (sends_write c ms c' m n c'' now)
  then obtain fs where fs: "keys c' = keys c" "isServer c' = isServer c"
    "tcp_sent (tcp c') = tcp_sent (tcp c) @ wires (\<not> isServer c) fs" "frames_ok ctl True 0 fs"
    "complete fs" "payloads fs = concat ms" by auto
  have w: "tcp_sent (tcp c'') = tcp_sent (tcp c') @ wires (\<not> isServer c') (frames_of c' m)"
    "keys c'' = keys c'" "isServer c'' = isServer c'"
    using ws_write_bytes [OF sends_write(3)] by auto
  have m: "frames_ok ctl True 0 (frames_of c' m)" "complete (frames_of c' m)"
    using frames_of_ok [of c' m ctl] sends_write(2) sends_write.prems fs(1) by auto
  have "frames_ok ctl True 0 (fs @ frames_of c' m)"
    using fs(4,5) m(1) by (intro frames_ok_append) auto
  moreover have "complete (fs @ frames_of c' m)" using m(2) fs(5) by simp
  ultimately show ?case
    using fs w by (intro conjI exI [of _ "fs @ frames_of c' m"]) simp_all
qed

lemma ws_read_ok: "((o', None), w') \<in> set (ws_read now n w) \<Longrightarrow> ((o', None), w') \<in> set (wrapper_read now n w)"
  using ws_read_cases [of "((o', None), w')"] by (auto simp: frame_error_def)

lemma wrapper_read_in_ws_read:
  assumes "x \<in> set (wrapper_read now n w)"
  shows "x \<in> set (ws_read now n w)"
proof -
  have "x \<in> set (if P then wrapper_read now n w else wrapper_read now n w @ es @ fs)" for P es fs
    using assms by simp
  then show ?thesis unfolding ws_read_def Let_def .
qed

lemma ws_receives_carries:
  "ws_receives fut w out fut' w' \<Longrightarrow> carries False w fut bs \<Longrightarrow>
     \<exists>rest. bs = out @ rest \<and> carries False w' fut' rest"
proof (induction rule: ws_receives.induct)
  case (receives_arrive fut w out x fut' w')
  then show ?case using carries_arrive by blast
next
  case (receives_read fut w out fut' w' n o' w'' now)
  then obtain rest where "bs = out @ rest" "carries False w' fut' rest" by blast
  with carries_read [OF _ ws_read_ok [OF receives_read(3)]] show ?case by fastforce
qed simp

text \<open>
  C19: (round trip) Whatever one side's \<^verbatim>\<open>Write\<close> calls accepted, the other side's \<^verbatim>\<open>Read\<close> calls return
  the same bytes in the same order, whichever side is the client and however messages are framed,
  masked, cut up on the way and read; and once all has arrived, a read returns more without error
  until every byte has been read.
\<close>

theorem websocket_stream:
  assumes "ws_sends (wrapWebSocketConn (\<not> server) ks t) ms c" "tcp_sent t = []" "\<forall>i. length (ks i) = 4"
    and "ws_receives (tcp_sent (tcp c)) (wrapWebSocketConn server ks' t') out fut w" "inq t' = []"
  shows "\<exists>rest. concat ms = out @ rest
    \<and> (fut = [] \<and> rest \<noteq> [] \<and> 0 < n \<longrightarrow>
        (\<exists>o' w'. ((o', None), w') \<in> set (ws_read now n w) \<and> o' \<noteq> []))"
proof -
  obtain fs where fs: "tcp_sent (tcp c) = wires server fs" "frames_ok False True 0 fs" "payloads fs = concat ms" "complete fs"
    using ws_sends_frames [OF assms(1), of False] assms(2,3) by (auto simp: wrapWebSocketConn_def)
  have "carries False (wrapWebSocketConn server ks' t') (tcp_sent (tcp c)) (concat ms)"
    using fs assms(5) unfolding carries_def
    by (intro conjI exI [of _ "[]"] exI [of _ fs]) (auto simp: wrapWebSocketConn_def)
  from ws_receives_carries [OF assms(4) this] obtain rest
    where rest: "concat ms = out @ rest" "carries False w fut rest" by blast
  have "\<exists>o' w'. ((o', None), w') \<in> set (ws_read now n w) \<and> o' \<noteq> []"
    if more: "fut = []" "rest \<noteq> []" "0 < n"
  proof -
    have "wrapper_read now n w \<noteq> []" using carries_progress [of w rest n now] rest(2) more by simp
    then obtain o' er w' where r: "((o', er), w') \<in> set (wrapper_read now n w)"
      by (metis neq_Nil_conv list.set_intros(1) surj_pair)
    have "er = None" using carries_read [OF rest(2) r] by simp
    moreover have "o' \<noteq> [] \<or> er \<noteq> None" using wrapper_read_result [OF r] by simp
    moreover have "((o', er), w') \<in> set (ws_read now n w)" by (rule wrapper_read_in_ws_read [OF r])
    ultimately show ?thesis by blast
  qed
  with rest(1) show ?thesis by blast
qed

text \<open>An example: a client writes two bytes and the server has read the first.\<close>

definition sample_ws_client :: ws where
  "sample_ws_client = wrapWebSocketConn False (\<lambda>_. [1, 2, 3, 4]) (sample_peer_socket 100)"

definition sample_ws_client_sent :: ws where
  "sample_ws_client_sent = snd (hd (ws_write 0 [7, 8] sample_ws_client))"

definition sample_ws_server :: ws where
  "sample_ws_server = wrapWebSocketConn True (\<lambda>_. [1, 2, 3, 4]) (sample_peer_socket 100)"

definition sample_ws_server_ready :: ws where
  "sample_ws_server_ready = sample_ws_server\<lparr>tcp := (tcp sample_ws_server)\<lparr>inq := tcp_sent (tcp sample_ws_client_sent)\<rparr>\<rparr>"

definition sample_ws_server_got :: ws where
  "sample_ws_server_got = snd (hd (ws_read 0 1 sample_ws_server_ready))"

lemma sample_write: "ws_write 0 [7, 8] sample_ws_client = [((2, None), sample_ws_client_sent)]"
  and sample_sent: "tcp_sent (tcp sample_ws_client_sent) = [0x82, 0x82, 1, 2, 3, 4, 6, 10]"
  by (simp_all add: sample_ws_client_sent_def sample_ws_client_def wrapWebSocketConn_def sample_peer_socket_def
      ws_write_def offer_def WriteMessage_def message_frames_def chunks_of.simps [of 32768 "[7, 8]"] ioSize_def Let_def
      conn_write_def tcp_write_def expired_def tcp_accept_def ws_frame_def frame_header_def op_defs'
      finalBit_def maskBit_def)

lemma sample_advance:
  "advanceFrame 0 sample_ws_server_ready = [(Inr BinaryMessage,
     entered \<lparr>d_final = True, d_op = BinaryMessage, d_key = [1, 2, 3, 4], d_payload = [7, 8]\<rparr> [6, 10]
       sample_ws_server_ready)]"
  by (simp add: sample_ws_server_ready_def sample_ws_server_def wrapWebSocketConn_def sample_peer_socket_def sample_sent
      advanceFrame_def parse_header_def check_header_def payload_length_def op_defs' finalBit_def maskBit_def
      rsvBits_def maxControlFramePayloadSize_def entered_def Let_def consume_def)

lemma sample_read: "(([7], None), sample_ws_server_got) \<in> set (ws_read 0 1 sample_ws_server_ready)"
proof -
  let ?f = "\<lparr>d_final = True, d_op = BinaryMessage, d_key = [1, 2, 3, 4], d_payload = [7, 8]\<rparr>"
  let ?w = "(entered ?f [6, 10] sample_ws_server_ready)\<lparr>hasReader := True\<rparr>"
  note defs = sample_ws_server_ready_def sample_ws_server_def wrapWebSocketConn_def sample_peer_socket_def sample_sent
  have fields: "readErr sample_ws_server_ready = None" "\<not> hasReader sample_ws_server_ready"
    "sample_ws_server_ready\<lparr>readLength := 0\<rparr> = sample_ws_server_ready"
    "read_fails 0 sample_ws_server_ready = []"
    by (simp_all add: defs read_fails_def expired_def)
  have w: "readErr ?w = None" "hasReader ?w" "readRemaining ?w = 2" "inq (tcp ?w) = [6, 10]" "isServer ?w"
    "readMaskKey ?w = [1, 2, 3, 4]" "readMaskPos ?w = 0" "ws_recvd ?w = []"
    by (simp_all add: entered_def defs)
  have m: "maskBytes [1, 2, 3, 4] 0 (take 1 [6, 10]) = [7]" by simp
  have "wrapper_read 0 1 sample_ws_server_ready = wrapper_read 0 1 ?w"
    using wrapper_read_frame [of sample_ws_server_ready 0 1] fields sample_advance by simp
  also have "\<dots> = [(([7], None), snd (take_payload 1 ?w))]"
    using w m by (simp add: wrapper_read.simps [of 0 1 ?w] take_payload_def Let_def upt_conv_Cons del: One_nat_def)
  finally have r: "wrapper_read 0 1 sample_ws_server_ready = [(([7], None), snd (take_payload 1 ?w))]" .
  with fields have "ws_read 0 1 sample_ws_server_ready = wrapper_read 0 1 sample_ws_server_ready"
    by (simp add: ws_read_def Let_def)
  with r show ?thesis by (simp add: sample_ws_server_got_def)
qed

theorem websocket_stream_witness:
  "\<exists>rest. concat [[7, 8]] = [7] @ rest
    \<and> (rest \<noteq> [] \<longrightarrow> (\<exists>o' w'. ((o', None), w') \<in> set (ws_read 0 5 sample_ws_server_got) \<and> o' \<noteq> []))"
proof -
  have s: "ws_sends sample_ws_client ([] @ [[7, 8]]) sample_ws_client_sent"
    by (rule ws_sends.sends_write [OF ws_sends.sends_none _ , where n = 2 and now = 0]) (simp_all add: sample_write)
  let ?all = "tcp_sent (tcp sample_ws_client_sent)"
  have "ws_receives ?all sample_ws_server [] (?all @ []) sample_ws_server"
    using ws_receives.receives_none by simp
  then have "ws_receives ?all sample_ws_server [] [] sample_ws_server_ready"
    using ws_receives.receives_arrive
    by (fastforce simp: sample_ws_server_ready_def sample_ws_server_def wrapWebSocketConn_def sample_peer_socket_def)
  from ws_receives.receives_read [OF this zero_less_one sample_read]
  have r: "ws_receives ?all sample_ws_server ([] @ [7]) [] sample_ws_server_got" by simp
  show ?thesis
    using websocket_stream [of True "\<lambda>_. [1, 2, 3, 4]" "sample_peer_socket 100" "[[7, 8]]" sample_ws_client_sent
        "\<lambda>_. [1, 2, 3, 4]" "sample_peer_socket 100" "[7]" "[]" sample_ws_server_got 5 0] s r
    by (simp add: sample_ws_client_def sample_ws_server_def sample_peer_socket_def)
qed

section \<open>How a stream ends\<close>

text \<open>Errors a write can end in are the socket's, or that a close message was sent.\<close>

definition no_eof :: "ws \<Rightarrow> bool" where
  "no_eof w \<longleftrightarrow> out_err (tcp w) \<noteq> Some EOF \<and> writeErr w \<noteq> Some EOF \<and> readErr w \<noteq> Some EOF"

lemma errors_not_EOF [simp]:
  "useOfClosed \<noteq> EOF" "ioTimeout \<noteq> EOF" "ErrCloseSent \<noteq> EOF" "protocolError m \<noteq> EOF" "ErrReadLimit \<noteq> EOF"
  "internalError \<noteq> EOF" "errUnexpectedEOF \<noteq> EOF" "CloseError k \<noteq> EOF"
  by (simp_all add: useOfClosed_def ioTimeout_def ErrCloseSent_def protocolError_def ErrReadLimit_def
      internalError_def errUnexpectedEOF_def)

lemmas EOF_not_errors [simp] = errors_not_EOF [symmetric]

lemma conn_write_no_eof:
  "(e, w') \<in> set (conn_write now dl cl bs w) \<Longrightarrow> no_eof w \<Longrightarrow> e \<noteq> Some EOF \<and> no_eof w'"
  by (auto simp: conn_write_def tcp_write_def tcp_accept_def no_eof_def split: option.splits if_splits)

lemma WriteControl_no_eof:
  "(e, w') \<in> set (WriteControl now op p w) \<Longrightarrow> no_eof w \<Longrightarrow> e \<noteq> Some EOF \<and> no_eof w'"
  by (auto simp: WriteControl_def next_key_def timed_write_cases no_eof_def [of "_\<lparr>nkeys := _\<rparr>"]
      no_eof_def [of w] dest!: conn_write_no_eof split: if_splits)

lemma parse_header_error: "parse_header server rf bs = Broken e \<Longrightarrow> e \<noteq> EOF"
  by (auto simp: parse_header_def check_header_def payload_length_def Let_def
      split: list.splits parse.splits option.splits if_splits)

lemma handlers_no_eof:
  "(r, w') \<in> set (handleProtocolError now e w) \<Longrightarrow> no_eof w \<Longrightarrow> e \<noteq> EOF \<Longrightarrow> r \<noteq> Inl EOF \<and> no_eof w'"
  "(r, w') \<in> set (handle_close now p w) \<Longrightarrow> no_eof w \<Longrightarrow> r \<noteq> Inl EOF \<and> no_eof w'"
  "(r, w') \<in> set (handle_ping now p w) \<Longrightarrow> no_eof w \<Longrightarrow> r \<noteq> Inl EOF \<and> no_eof w'"
  by (auto simp: handleProtocolError_def handle_close_def handle_ping_def Let_def
      dest!: WriteControl_no_eof split: if_splits option.splits)

lemma no_eof_simps [simp]:
  "no_eof (consume k w) = no_eof w" "no_eof (w\<lparr>readRemaining := a\<rparr>) = no_eof w"
  "no_eof (w\<lparr>readMaskKey := b\<rparr>) = no_eof w" "no_eof (w\<lparr>readMaskPos := a\<rparr>) = no_eof w"
  "no_eof (w\<lparr>readFinal := c\<rparr>) = no_eof w" "no_eof (w\<lparr>readLength := a\<rparr>) = no_eof w"
  "no_eof (w\<lparr>hasReader := c\<rparr>) = no_eof w" "no_eof (w\<lparr>ws_recvd := b\<rparr>) = no_eof w"
  by (simp_all add: no_eof_def consume_def)

lemma advanceFrame_no_eof:
  assumes "(r, w') \<in> set (advanceFrame now w)" "no_eof w"
  shows "r \<noteq> Inl EOF \<and> no_eof w'"
  using assms
  by (auto simp: advanceFrame_def Let_def dest: parse_header_error dest!: handlers_no_eof
      split: parse.splits if_splits)

lemma frame_error_no_eof:
  "((bs, er), w') = frame_error e w \<Longrightarrow> no_eof w \<Longrightarrow> e \<noteq> EOF \<Longrightarrow> er \<noteq> Some EOF \<and> no_eof w'"
  by (auto simp: frame_error_def no_eof_def)

lemma take_payload_no_eof: "take_payload k w = (out, w') \<Longrightarrow> no_eof w \<Longrightarrow> no_eof w'"
  by (auto simp: take_payload_def Let_def)

lemma wrapper_read_no_eof:
  "((bs, er), w') \<in> set (wrapper_read now n w) \<Longrightarrow> no_eof w \<Longrightarrow> er \<noteq> Some EOF \<and> no_eof w'"
proof (induction now n w arbitrary: bs er w' rule: wrapper_read.induct)
  case (1 now n w)
  note IH = 1(1,2,3)
  let ?v = "if hasReader w then w else w\<lparr>readLength := 0\<rparr>"
  consider "readErr w \<noteq> None"
    | "readErr w = None" "hasReader w" "readRemaining w > 0"
    | "readErr w = None" "hasReader w" "readRemaining w = 0" "readFinal w"
    | "readErr w = None" "\<not> (hasReader w \<and> readRemaining w > 0)" "\<not> (hasReader w \<and> readFinal w)"
    by auto
  then show ?case
  proof cases
    case 1
    with \<open>((bs, er), w') \<in> set (wrapper_read now n w)\<close> \<open>no_eof w\<close> show ?thesis
      by (simp add: wrapper_read.simps [of now n w] no_eof_def)
  next
    case 2
    with \<open>((bs, er), w') \<in> set (wrapper_read now n w)\<close> \<open>no_eof w\<close> show ?thesis
      by (elim wrapper_read_payload) (auto dest: take_payload_no_eof)
  next
    case 3
    with IH(1) [of bs er w'] \<open>((bs, er), w') \<in> set (wrapper_read now n w)\<close> \<open>no_eof w\<close> show ?thesis
      by (simp add: wrapper_read.simps [of now n w])
  next
    case 4
    note eq = wrapper_read_frame [OF this]
    obtain r v where rv: "(r, v) \<in> set (advanceFrame now ?v)"
      and m: "((bs, er), w') \<in> set (case r of
             Inl e \<Rightarrow> [frame_error e v]
           | Inr op \<Rightarrow>
               if op = TextMessage \<or> op = BinaryMessage then
                 (if hasReader w then [frame_error internalError v]
                  else wrapper_read now n (v\<lparr>hasReader := True\<rparr>))
               else wrapper_read now n v)"
      using \<open>((bs, er), w') \<in> set (wrapper_read now n w)\<close> unfolding eq by auto
    have n4: "\<not> readErr w \<noteq> None" "\<not> (hasReader w \<and> 0 < readRemaining w)" "\<not> (hasReader w \<and> readFinal w)"
      using 4 by auto
    have k: "r \<noteq> Inl EOF" "no_eof v"
      using advanceFrame_no_eof [OF rv] \<open>no_eof w\<close> by (auto split: if_splits)
    show ?thesis
      using m k IH(2) [OF n4 rv refl, of _ bs er w'] IH(3) [OF n4 rv refl, of _ bs er w']
      by (auto dest: frame_error_no_eof split: sum.splits if_splits)
  qed
qed

lemma ws_read_no_eof:
  assumes "((bs, er), w') \<in> set (ws_read now n w)" "no_eof w"
  shows "er \<noteq> Some EOF \<and> no_eof w'"
proof -
  have "frame_error e w = ((bs, er), w') \<Longrightarrow> e \<noteq> EOF \<Longrightarrow> ?thesis" for e
    using frame_error_no_eof [of bs er w' e w] assms(2) by simp
  moreover have "\<exists>e. frame_error e w = ((bs, er), w') \<and> e \<noteq> EOF"
    if "((bs, er), w') \<notin> set (wrapper_read now n w)"
  proof -
    have "set (case in_end (tcp w) of None \<Rightarrow> []
        | Some e \<Rightarrow> [frame_error (if e = EOF then errUnexpectedEOF else e) w])
        \<subseteq> {frame_error e w | e. e \<noteq> EOF}"
      by (cases "in_end (tcp w)") auto
    moreover have "set (map (\<lambda>e. frame_error e w) (read_fails now w)) \<subseteq> {frame_error e w | e. e \<noteq> EOF}"
      by (auto simp: read_fails_def)
    ultimately have "((bs, er), w') \<in> {frame_error e w | e. e \<noteq> EOF}"
      using assms(1) that unfolding ws_read_def Let_def
      by (simp only: set_append list.set Un_empty_right split: if_split_asm) blast+
    then show ?thesis by auto
  qed
  ultimately show ?thesis using wrapper_read_no_eof [OF _ assms(2)] by blast
qed


text \<open>The peer's close message, and what the reader makes of it.\<close>

definition sample_closing :: ws where
  "sample_closing = sample_ws_client\<lparr>tcp := (tcp sample_ws_client)\<lparr>inq := [0x88, 2, 3, 0xE8]\<rparr>\<rparr>"

lemma sample_closing_read:
  "\<exists>w'. (([], Some (CloseError 1000)), w') \<in> set (ws_read 0 10 sample_closing)"
proof -
  note defs = sample_closing_def sample_ws_client_def wrapWebSocketConn_def sample_peer_socket_def
  have f: "readErr sample_closing = None" "\<not> hasReader sample_closing"
    "sample_closing\<lparr>readLength := 0\<rparr> = sample_closing"
    by (simp_all add: defs)
  have "\<exists>v. advanceFrame 0 sample_closing = [(Inl (CloseError 1000), v)]"
    by (simp add: defs advanceFrame_def parse_header_def check_header_def payload_length_def op_defs' finalBit_def
        maskBit_def rsvBits_def maxControlFramePayloadSize_def Let_def consume_def handle_close_def be_value_def
        isValidReceivedCloseCode_def WriteControl_def FormatCloseMessage_def CloseNoStatusReceived_def
        next_key_def timed_write_cases conn_write_def tcp_write_def tcp_accept_def expired_def writeWait_def
        ws_frame_def frame_header_def)
  then have "\<exists>w'. (([], Some (CloseError 1000)), w') \<in> set (wrapper_read 0 10 sample_closing)"
    using wrapper_read_frame [of sample_closing 0 10] f by (auto simp: frame_error_def)
  then show ?thesis using wrapper_read_in_ws_read by blast
qed


end
