(* ===== verification/WsLink.thy ===== *)
theory WsLink
  imports WsStream "HOL-Library.Sublist"
begin

text \<open>
  Two wrappers and the TCP connection between them, while both sides read, write, set deadlines and
  close as they like, writes fail, and both answer each other's control frames.
\<close>

section \<open>The two ends\<close>

text \<open>
  What one side does to its wrapper, and what its kernel does to the socket. The length of a Go slice is
  below \<open>2 ^ 63\<close>.
\<close>

inductive end_step :: "ws \<Rightarrow> ws \<Rightarrow> bool" where
  reads: "((bs, er), w') \<in> set (ws_read now n w) \<Longrightarrow> end_step w w'"
| writes: "length bs < 2 ^ 63 \<Longrightarrow> ((nw, ew), w') \<in> set (ws_write now bs w) \<Longrightarrow> end_step w w'"
| closes: "(er, w') \<in> set (ws_close w) \<Longrightarrow> end_step w w'"
| deadline: "end_step w (c_set_deadline ws_ops dl w)"
| read_deadline: "end_step w (c_set_read_deadline ws_ops dl w)"
| write_deadline: "end_step w (c_set_write_deadline ws_ops dl w)"
| ended: "end_step w (w\<lparr>tcp := (tcp w)\<lparr>in_end := Some e\<rparr>\<rparr>)"
| drained: "end_step w (w\<lparr>tcp := (tcp w)\<lparr>room := room (tcp w) + k\<rparr>\<rparr>)"
| broken: "end_step w (w\<lparr>tcp := (tcp w)\<lparr>out_err := Some e\<rparr>\<rparr>)"

text \<open>The network delivers the next bytes the other side's kernel accepted.\<close>

definition arrived :: "ws \<Rightarrow> nat" where
  "arrived w = length (tcp_recvd (tcp w)) + length (inq (tcp w))"

definition deliver :: "nat \<Rightarrow> ws \<Rightarrow> ws \<Rightarrow> ws" where
  "deliver k l r = r\<lparr>tcp := (tcp r)\<lparr>inq := inq (tcp r) @ take k (drop (arrived r) (tcp_sent (tcp l)))\<rparr>\<rparr>"

inductive link_step :: "ws \<times> ws \<Rightarrow> ws \<times> ws \<Rightarrow> bool" where
  one: "end_step l l' \<Longrightarrow> link_step (l, r) (l', r)"
| other: "end_step r r' \<Longrightarrow> link_step (l, r) (l, r')"
| to_right: "link_step (l, r) (l, deliver k l r)"
| to_left: "link_step (l, r) (deliver k r l, r)"

inductive link_run :: "ws \<times> ws \<Rightarrow> ws \<times> ws \<Rightarrow> bool" where
  start: "link_run L L"
| step: "link_run L L' \<Longrightarrow> link_step L' L'' \<Longrightarrow> link_run L L''"

section \<open>What an operation sends\<close>

text \<open>
  An operation that puts frames for \<open>bs\<close> on the wire, or the beginning of them, after which the
  connection sends nothing more.
\<close>

definition puts :: "ws \<Rightarrow> ws \<Rightarrow> byte list \<Rightarrow> bool" where
  "puts w w' bytes \<longleftrightarrow> (\<exists>x tail. tcp_sent (tcp w') = tcp_sent (tcp w) @ x \<and> x @ tail = bytes
     \<and> (writeErr w' = None \<longrightarrow> tail = []))"

definition sends :: "ws \<Rightarrow> ws \<Rightarrow> byte list \<Rightarrow> bool" where
  "sends w w' bs \<longleftrightarrow> keys w' = keys w \<and> isServer w' = isServer w \<and>
     (if writeErr w \<noteq> None then tcp_sent (tcp w') = tcp_sent (tcp w) \<and> writeErr w' = writeErr w
      else \<exists>gs. puts w w' (wires (\<not> isServer w) gs) \<and> frames_ok True True 0 gs \<and> complete gs \<and> payloads gs = bs)"

lemma puts_nothing: "tcp_sent (tcp w') = tcp_sent (tcp w) \<Longrightarrow> puts w w' []"
  by (simp add: puts_def)

lemma puts_trans: "puts w v f \<Longrightarrow> writeErr v = None \<Longrightarrow> puts v w' g \<Longrightarrow> puts w w' (f @ g)"
  by (fastforce simp: puts_def)

lemma puts_stop: "puts w v f \<Longrightarrow> writeErr v \<noteq> None \<Longrightarrow> puts w v (f @ g)"
  unfolding puts_def by (metis append.assoc)

lemma puts_same: "tcp_sent (tcp u) = tcp_sent (tcp w) \<Longrightarrow> puts u w' f = puts w w' f"
  by (simp add: puts_def)

text \<open>What matters of a state on the sending side.\<close>

definition same_writer :: "ws \<Rightarrow> ws \<Rightarrow> bool" where
  "same_writer w w' \<longleftrightarrow> keys w' = keys w \<and> isServer w' = isServer w \<and> tcp_sent (tcp w') = tcp_sent (tcp w)
     \<and> writeErr w' = writeErr w"

lemma sends_cong:
  assumes "same_writer u w" "same_writer u' w'"
  shows "sends u u' bs = sends w w' bs"
proof -
  have "puts u u' f = puts w w' f" for f using assms by (simp add: puts_def same_writer_def)
  then show ?thesis using assms unfolding sends_def same_writer_def by simp
qed

lemma sends_after: "same_writer w v \<Longrightarrow> sends v w' bs \<Longrightarrow> sends w w' bs"
  using sends_cong [of w v w' w'] by (simp add: same_writer_def)

lemma sends_same:
  assumes "keys w' = keys w" "isServer w' = isServer w" "tcp_sent (tcp w') = tcp_sent (tcp w)"
    and "writeErr w' = writeErr w"
  shows "sends w w' []"
  using assms puts_nothing [of w' w] unfolding sends_def by (auto intro!: exI [of _ "[]"])

lemma same_writer_sends: "same_writer w w' \<Longrightarrow> sends w w' []"
  by (simp add: sends_same same_writer_def)

lemma sendsI:
  assumes "keys w' = keys w" "isServer w' = isServer w" "puts w w' bytes"
    and "writeErr w = None" "bytes = wires (\<not> isServer w) gs" "frames_ok True True 0 gs" "complete gs" "payloads gs = bs"
  shows "sends w w' bs"
  using assms unfolding sends_def by auto

lemma sends_trans:
  assumes "sends w w' a" "sends w' w'' []"
  shows "sends w w'' a"
proof (cases "writeErr w = None")
  case True
  with assms(1) obtain gs where gs: "puts w w' (wires (\<not> isServer w) gs)" "frames_ok True True 0 gs" "complete gs"
    "payloads gs = a" "keys w' = keys w" "isServer w' = isServer w"
    by (auto simp: sends_def)
  have k: "keys w'' = keys w" "isServer w'' = isServer w" using assms by (simp_all add: sends_def)
  show ?thesis
  proof (cases "writeErr w' = None")
    case n: True
    with assms(2) gs(6) obtain hs where hs: "puts w' w'' (wires (\<not> isServer w) hs)" "frames_ok True True 0 hs"
      "complete hs" "payloads hs = []"
      by (auto simp: sends_def)
    from puts_trans [OF gs(1) n hs(1)] frames_ok_append [OF gs(2,3) hs(2)] gs hs
    show ?thesis by (intro sendsI [OF k _ True, of _ "gs @ hs"]) simp_all
  next
    case False
    with assms(2) have "puts w w'' (wires (\<not> isServer w) gs)" using gs(1) by (simp add: sends_def puts_def)
    with gs show ?thesis by (intro sendsI [OF k _ True]) simp_all
  qed
qed (use assms in \<open>simp add: sends_def\<close>)

lemma conn_write_part:
  assumes "(e, w') \<in> set (conn_write now dl cl f w)" "writeErr w = None"
  shows "keys w' = keys w" "isServer w' = isServer w" "puts w w' f" "e \<noteq> None \<Longrightarrow> writeErr w' \<noteq> None"
proof -
  from assms obtain n er t where t: "((n, er), t) \<in> set (tcp_write now f ((tcp w)\<lparr>wdl := dl\<rparr>))"
    and r: "(e, w') = (case er of Some x \<Rightarrow> (Some x, w\<lparr>tcp := t, writeErr := Some x\<rparr>)
       | None \<Rightarrow> (None, w\<lparr>tcp := t, writeErr := (if cl then Some ErrCloseSent else None)\<rparr>))"
    by (auto simp: conn_write_def)
  from t obtain k where k: "tcp_sent t = tcp_sent (tcp w) @ take k f" "er = None \<longrightarrow> take k f = f"
    by (auto simp: tcp_write_def tcp_accept_def split: if_splits option.splits intro: that [of 0])
  from r show "keys w' = keys w" "isServer w' = isServer w" "e \<noteq> None \<Longrightarrow> writeErr w' \<noteq> None"
    by (auto split: option.splits)
  have "take k f @ drop k f = f" by simp
  moreover have "writeErr w' = None \<longrightarrow> drop k f = []" "tcp (w') = t"
    using r k(2) by (auto split: option.splits)
  ultimately show "puts w w' f"
    using k(1) unfolding puts_def by (intro exI [of _ "take k f"] exI [of _ "drop k f"]) simp
qed

text \<open>A sender that behaves like \<^verbatim>\<open>conn_write\<close>.\<close>

definition sender_ok :: "(byte list \<Rightarrow> ws \<Rightarrow> (gerror option \<times> ws) list) \<Rightarrow> bool" where
  "sender_ok send \<longleftrightarrow> (\<forall>f w e w'. (e, w') \<in> set (send f w) \<longrightarrow> (\<exists>now dl cl. (e, w') \<in> set (conn_write now dl cl f w)))"

lemma sender_ok_write: "sender_ok (\<lambda>f w. conn_write now (writeDeadline w) False f w)"
  by (auto simp: sender_ok_def)

lemma sender_ok_timed: "sender_ok (timed_write now d cl)"
  by (auto simp: sender_ok_def timed_write_cases split: if_splits)

lemma send_frames_dead:
  assumes "sender_ok send" "(e, w') \<in> set (send_frames send fs w)" "writeErr w \<noteq> None"
  shows "w' = w"
  using assms(2,3)
proof (induction fs arbitrary: w)
  case (Cons f fs)
  then obtain e1 v where v: "(e1, v) \<in> set (send f w)"
    "(e, w') \<in> set (if e1 \<noteq> None then [(e1, v)] else send_frames send fs v)" by auto
  with assms(1) obtain now dl cl where "(e1, v) \<in> set (conn_write now dl cl f w)"
    unfolding sender_ok_def by blast
  with Cons.prems(2) have "v = w" by (auto simp: conn_write_def)
  with v Cons.IH Cons.prems(2) show ?case by (auto split: if_splits)
qed simp

lemma send_frames_one: "send_frames send [f] w = send f w"
proof -
  have "(\<lambda>(e, w'). if e \<noteq> None then [(e, w')] else send_frames send [] w') = (\<lambda>x. [x])"
    by (auto simp: fun_eq_iff)
  then show ?thesis by simp
qed

lemma send_frames_part:
  assumes "sender_ok send" "(e, w') \<in> set (send_frames send fs w)" "writeErr w = None"
  shows "keys w' = keys w \<and> isServer w' = isServer w \<and> puts w w' (concat fs)"
  using assms(2,3)
proof (induction fs arbitrary: w)
  case (Cons f fs)
  from Cons.prems(1) obtain e1 v where v: "(e1, v) \<in> set (send f w)"
    and m: "(e, w') \<in> set (if e1 \<noteq> None then [(e1, v)] else send_frames send fs v)"
    by auto
  with assms(1) obtain now dl cl where "(e1, v) \<in> set (conn_write now dl cl f w)"
    unfolding sender_ok_def by blast
  note t = conn_write_part [OF this Cons.prems(2)]
  show ?case
  proof (cases "writeErr v = None")
    case True
    with t(4) m have "(e, w') \<in> set (send_frames send fs v)" by (auto split: if_splits)
    from Cons.IH [OF this True] puts_trans [OF t(3) True] t(1,2) show ?thesis by simp
  next
    case False
    with m have "w' = v" using send_frames_dead [OF assms(1)] by (auto split: if_splits)
    with puts_stop [OF t(3) False] t(1,2) show ?thesis by simp
  qed
qed (simp add: puts_nothing)

section \<open>The operations of the wrapper\<close>

lemma frames_ctl: "frames_ok ctl final len fs \<Longrightarrow> frames_ok True final len fs"
  by (induction fs arbitrary: final len) auto

text \<open>A control frame, as a client or a server sends it.\<close>

lemma control_frame:
  assumes "is_control op" "length p \<le> maxControlFramePayloadSize" "length key = 4"
  shows "\<exists>gs. ws_frame server True op (if server then [] else key) p = wires (\<not> server) gs
    \<and> frames_ok True True 0 gs \<and> complete gs \<and> payloads gs = []"
proof -
  let ?g = "\<lparr>d_final = True, d_op = op, d_key = key, d_payload = p\<rparr>"
  have "ws_frame server True op (if server then [] else key) p = wires (\<not> server) [?g]"
    by (simp add: wire_def ws_frame_def)
  moreover have "frames_ok True True 0 [?g] \<and> complete [?g] \<and> payloads [?g] = []"
    using assms by (simp add: stream_part_def)
  ultimately show ?thesis by blast
qed

lemma WriteControl_sends:
  assumes "(e, w') \<in> set (WriteControl now op p w)" "is_control op" "\<forall>i. length (keys w i) = 4"
  shows "sends w w' []"
proof (cases "length p > maxControlFramePayloadSize")
  case True
  with assms(1) show ?thesis by (simp add: WriteControl_def sends_same)
next
  case False
  let ?v = "if isServer w then w else w\<lparr>nkeys := Suc (nkeys w)\<rparr>"
  let ?f = "ws_frame (isServer w) True op (if isServer w then [] else keys w (nkeys w)) p"
  have m: "(e, w') \<in> set (timed_write now writeWait (op = CloseMessage) ?f ?v)"
    using assms(1) False by (simp add: WriteControl_def next_key_def split: if_splits)
  obtain gs where gs: "?f = wires (\<not> isServer w) gs" "frames_ok True True 0 gs" "complete gs" "payloads gs = []"
    using control_frame [OF assms(2), of p "keys w (nkeys w)" "isServer w"] False assms(3) by auto
  show ?thesis
  proof (cases "writeErr w")
    case None
    have "(e, w') \<in> set (send_frames (timed_write now writeWait (op = CloseMessage)) [?f] ?v)"
      using m by (simp only: send_frames_one)
    from send_frames_part [OF sender_ok_timed this] None
    have "keys w' = keys w" "isServer w' = isServer w" "puts w w' ?f"
      using puts_same [of ?v w] by (cases "isServer w"; simp)+
    then show ?thesis using None gs by (rule sendsI)
  next
    case (Some x)
    then have "w' = ?v" using m by (auto simp: timed_write_cases conn_write_def split: if_splits)
    then show ?thesis using Some by (simp add: sends_same)
  qed
qed

lemma handlers_sends:
  assumes "\<forall>i. length (keys w i) = 4"
  shows "(r, w') \<in> set (handleProtocolError now e w) \<Longrightarrow> sends w w' []"
    "(r, w') \<in> set (handle_close now p w) \<Longrightarrow> sends w w' []"
    "(r, w') \<in> set (handle_ping now p w) \<Longrightarrow> sends w w' []"
proof -
  have c: "is_control CloseMessage" "is_control PongMessage" by (simp_all add: is_control_def)
  note W = WriteControl_sends [OF _ c(1) assms] WriteControl_sends [OF _ c(2) assms]
  show pe: "(r, w') \<in> set (handleProtocolError now e w) \<Longrightarrow> sends w w' []" for e
    by (auto simp: handleProtocolError_def dest: W(1))
  show "(r, w') \<in> set (handle_close now p w) \<Longrightarrow> sends w w' []"
    by (auto simp: handle_close_def Let_def dest: W(1) pe split: if_splits)
  show "(r, w') \<in> set (handle_ping now p w) \<Longrightarrow> sends w w' []"
    by (auto simp: handle_ping_def dest: W(2))
qed

lemma advanceFrame_sends:
  assumes "(x, w') \<in> set (advanceFrame now w)" "\<forall>i. length (keys w i) = 4"
  shows "sends w w' []"
proof -
  have h: "same_writer w v \<Longrightarrow> (x, w') \<in> set (handleProtocolError now e v) \<Longrightarrow> sends w w' []"
    "same_writer w v \<Longrightarrow> (x, w') \<in> set (handle_close now p v) \<Longrightarrow> sends w w' []"
    "same_writer w v \<Longrightarrow> (x, w') \<in> set (handle_ping now p v) \<Longrightarrow> sends w w' []" for v e p
    using handlers_sends [of v x w' now] assms(2) sends_after by (auto simp: same_writer_def)
  show ?thesis
    using assms(1)
    by (auto simp: advanceFrame_def Let_def split: parse.splits if_splits
        intro!: same_writer_sends elim!: h [rotated]) (simp_all add: same_writer_def consume_def)
qed

section \<open>Reading, as a relation between states\<close>

text \<open>What every part of a read does, a read does.\<close>

lemma wrapper_read_rel:
  assumes R: "\<forall>w. R w w" "\<forall>u v w. R u v \<longrightarrow> R v w \<longrightarrow> R u w"
    and adv: "\<forall>now w x v. (x, v) \<in> set (advanceFrame now w) \<longrightarrow> R w v"
    and upd: "\<forall>w b. R w (w\<lparr>hasReader := b\<rparr>)" "\<forall>w. R w (w\<lparr>readLength := 0\<rparr>)" "\<forall>w e. R w (w\<lparr>readErr := e\<rparr>)"
    and pay: "\<forall>w k out v. take_payload k w = (out, v) \<longrightarrow> R w v"
  shows "((bs, er), w') \<in> set (wrapper_read now n w) \<Longrightarrow> R w w'"
proof (induction now n w arbitrary: bs er w' rule: wrapper_read.induct)
  case (1 now n w)
  note IH = 1(1,2,3)
  let ?v = "if hasReader w then w else w\<lparr>readLength := 0\<rparr>"
  consider "readErr w \<noteq> None"
    | "readErr w = None" "hasReader w" "readRemaining w > 0"
    | "readErr w = None" "hasReader w" "readRemaining w = 0" "readFinal w"
    | "readErr w = None" "\<not> (hasReader w \<and> readRemaining w > 0)" "\<not> (hasReader w \<and> readFinal w)"
    by auto
  then show ?case
  proof cases
    case 1
    with \<open>((bs, er), w') \<in> set (wrapper_read now n w)\<close> R(1) show ?thesis
      by (simp add: wrapper_read.simps [of now n w])
  next
    case 2
    with \<open>((bs, er), w') \<in> set (wrapper_read now n w)\<close> obtain k where "take_payload k w = (bs, w')"
      by (elim wrapper_read_payload)
    with pay show ?thesis by blast
  next
    case 3
    with IH(1) [of bs er w'] \<open>((bs, er), w') \<in> set (wrapper_read now n w)\<close>
    have "R (w\<lparr>hasReader := False\<rparr>) w'" by (simp add: wrapper_read.simps [of now n w])
    with upd(1) R(2) show ?thesis by blast
  next
    case 4
    note eq = wrapper_read_frame [OF this]
    obtain r v where rv: "(r, v) \<in> set (advanceFrame now ?v)"
      and m: "((bs, er), w') \<in> set (case r of
             Inl e \<Rightarrow> [frame_error e v]
           | Inr op \<Rightarrow>
               if op = TextMessage \<or> op = BinaryMessage then
                 (if hasReader w then [frame_error internalError v]
                  else wrapper_read now n (v\<lparr>hasReader := True\<rparr>))
               else wrapper_read now n v)"
      using \<open>((bs, er), w') \<in> set (wrapper_read now n w)\<close> unfolding eq by auto
    have n4: "\<not> readErr w \<noteq> None" "\<not> (hasReader w \<and> 0 < readRemaining w)" "\<not> (hasReader w \<and> readFinal w)"
      using 4 by auto
    have "R w ?v" using upd(2) R(1) by simp
    from R(2) [rule_format, OF this adv [rule_format, OF rv]] have wv: "R w v" .
    have "w' = v\<lparr>readErr := Some e\<rparr> \<Longrightarrow> R v w'" for e using upd(3) by blast
    moreover have "R (v\<lparr>hasReader := True\<rparr>) w' \<Longrightarrow> R v w'" using upd(1) R(2) by blast
    ultimately have "R v w'"
      using m IH(2) [OF n4 rv refl, of _ bs er w'] IH(3) [OF n4 rv refl, of _ bs er w']
      by (auto simp: frame_error_def split: sum.splits if_splits)
    with wv R(2) show ?thesis by blast
  qed
qed

definition read_sends :: "ws \<Rightarrow> ws \<Rightarrow> bool" where
  "read_sends w w' \<longleftrightarrow> arrived w' = arrived w \<and> isServer w' = isServer w \<and> ws_offered w' = ws_offered w \<and> keys w' = keys w
     \<and> ((\<forall>i. length (keys w i) = 4) \<longrightarrow> sends w w' [])"

lemma same_reader_arrived: "same_reader w w' \<Longrightarrow> arrived w' = arrived w"
  by (simp add: same_reader_def arrived_def)

lemma same_reader_role: "same_reader w w' \<Longrightarrow> isServer w' = isServer w"
  by (simp add: same_reader_def)

lemma arrived_consume [simp]: "arrived (consume k w) = arrived w"
  by (simp add: arrived_def consume_def)

lemma arrived_update [simp]:
  "arrived (w\<lparr>readRemaining := a\<rparr>) = arrived w" "arrived (w\<lparr>readMaskKey := b\<rparr>) = arrived w"
  "arrived (w\<lparr>readMaskPos := a\<rparr>) = arrived w" "arrived (w\<lparr>readFinal := c\<rparr>) = arrived w"
  "arrived (w\<lparr>readLength := a\<rparr>) = arrived w" "arrived (w\<lparr>hasReader := c\<rparr>) = arrived w"
  "arrived (w\<lparr>ws_recvd := b\<rparr>) = arrived w" "arrived (w\<lparr>readErr := e\<rparr>) = arrived w"
  by (simp_all add: arrived_def)

text \<open>No write but the wrapper's own adds to what was offered.\<close>

lemma conn_write_offered: "(e, w') \<in> set (conn_write now dl cl f w) \<Longrightarrow> ws_offered w' = ws_offered w \<and> keys w' = keys w"
  by (auto simp: conn_write_def split: option.splits)

lemma WriteControl_offered:
  "(e, w') \<in> set (WriteControl now op p w) \<Longrightarrow> ws_offered w' = ws_offered w \<and> keys w' = keys w"
  by (auto simp: WriteControl_def next_key_def timed_write_cases dest!: conn_write_offered split: if_splits)

lemma handlers_offered:
  "(r, w') \<in> set (handleProtocolError now e w) \<Longrightarrow> ws_offered w' = ws_offered w \<and> keys w' = keys w"
  "(r, w') \<in> set (handle_close now p w) \<Longrightarrow> ws_offered w' = ws_offered w \<and> keys w' = keys w"
  "(r, w') \<in> set (handle_ping now p w) \<Longrightarrow> ws_offered w' = ws_offered w \<and> keys w' = keys w"
  by (auto simp: handleProtocolError_def handle_close_def handle_ping_def Let_def dest: WriteControl_offered
      split: if_splits option.splits)

lemma consume_offered [simp]: "ws_offered (consume k w) = ws_offered w" "keys (consume k w) = keys w"
  "tcp_sent (tcp (consume k w)) = tcp_sent (tcp w)" "writeErr (consume k w) = writeErr w"
  by (simp_all add: consume_def)

lemma advanceFrame_offered:
  "(x, w') \<in> set (advanceFrame now w) \<Longrightarrow>
     arrived w' = arrived w \<and> isServer w' = isServer w \<and> ws_offered w' = ws_offered w \<and> keys w' = keys w"
  by (auto simp: advanceFrame_def Let_def
      dest: handlers_offered handlers_same [THEN conjunct1, THEN same_reader_arrived]
        handlers_same [THEN conjunct1, THEN same_reader_role]
      split: parse.splits if_splits)

lemma wrapper_read_sends:
  assumes "((bs, er), w') \<in> set (wrapper_read now n w)"
  shows "read_sends w w'"
proof (rule wrapper_read_rel [OF _ _ _ _ _ _ _ assms])
  show "\<forall>w. read_sends w w" by (simp add: read_sends_def sends_same)
  show "\<forall>u v w. read_sends u v \<longrightarrow> read_sends v w \<longrightarrow> read_sends u w"
    unfolding read_sends_def using sends_trans by metis
  show "\<forall>now w x v. (x, v) \<in> set (advanceFrame now w) \<longrightarrow> read_sends w v"
    unfolding read_sends_def using advanceFrame_offered advanceFrame_sends by blast
qed (auto simp: read_sends_def take_payload_def Let_def intro: sends_same)

lemma ws_read_sends:
  assumes "((bs, er), w') \<in> set (ws_read now n w)"
  shows "read_sends w w'"
  using ws_read_cases [OF assms]
proof
  assume "\<exists>e. ((bs, er), w') = frame_error e w"
  then show ?thesis by (auto simp: frame_error_def read_sends_def intro: sends_same)
qed (rule wrapper_read_sends)

section \<open>Writing and closing\<close>

text \<open>A write or a close leaves the reader as it is.\<close>

lemma carries_update [simp]:
  "carries ctl (w\<lparr>ws_sent := b\<rparr>) fut bs = carries ctl w fut bs"
  "carries ctl (w\<lparr>ws_offered := b\<rparr>) fut bs = carries ctl w fut bs"
  "carries ctl (w\<lparr>closeOnce := c\<rparr>) fut bs = carries ctl w fut bs"
  "carries ctl (w\<lparr>writeDeadline := d\<rparr>) fut bs = carries ctl w fut bs"
  "inq t = inq (tcp w) \<Longrightarrow> carries ctl (w\<lparr>tcp := t\<rparr>) fut bs = carries ctl w fut bs"
  by (simp_all add: carries_def cong: if_cong)

definition reader_kept :: "ws \<Rightarrow> ws \<Rightarrow> bool" where
  "reader_kept w w' \<longleftrightarrow> arrived w' = arrived w \<and> ws_recvd w' = ws_recvd w \<and> readErr w' = readErr w
     \<and> isServer w' = isServer w \<and> (\<forall>fut bs. carries True w fut bs \<longrightarrow> carries True w' fut bs)"

lemma same_reader_kept: "same_reader w w' \<Longrightarrow> reader_kept w w'"
  using carries_same [of w w' True] by (auto simp: reader_kept_def same_reader_def arrived_def)

lemma reader_kept_trans: "reader_kept u v \<Longrightarrow> reader_kept v w \<Longrightarrow> reader_kept u w"
  by (simp add: reader_kept_def)

lemma reader_kept_update:
  "reader_kept w (w\<lparr>ws_sent := b\<rparr>)" "reader_kept w (w\<lparr>ws_offered := b\<rparr>)"
  "reader_kept w (w\<lparr>closeOnce := c\<rparr>)" "reader_kept w (w\<lparr>writeDeadline := d\<rparr>)" "reader_kept w (offer bs w)"
  "inq t = inq (tcp w) \<Longrightarrow> tcp_recvd t = tcp_recvd (tcp w) \<Longrightarrow> reader_kept w (w\<lparr>tcp := t\<rparr>)"
  by (simp_all add: reader_kept_def arrived_def offer_def)

text \<open>What the history field records of a write.\<close>

definition offers :: "ws \<Rightarrow> ws \<Rightarrow> byte list \<Rightarrow> bool" where
  "offers w w' bs \<longleftrightarrow> ws_offered w' = ws_offered w @ bs \<and> (writeErr w \<noteq> None \<longrightarrow> bs = []) \<and> sends w w' bs"

lemma send_frames_offered:
  assumes "sender_ok send"
  shows "(e, w') \<in> set (send_frames send fs w) \<Longrightarrow> ws_offered w' = ws_offered w"
proof (induction fs arbitrary: w)
  case (Cons f fs)
  then obtain e1 v where v: "(e1, v) \<in> set (send f w)"
    "(e, w') \<in> set (if e1 \<noteq> None then [(e1, v)] else send_frames send fs v)" by auto
  with assms obtain now dl cl where "(e1, v) \<in> set (conn_write now dl cl f w)"
    unfolding sender_ok_def by blast
  with conn_write_offered v Cons.IH show ?case by (fastforce split: if_splits)
qed simp

lemma WriteMessage_sends:
  assumes "(e, w') \<in> set (WriteMessage send op bs w)" "sender_ok send"
    and "concat (message_frames w op bs) = wires (\<not> isServer w) gs" "frames_ok True True 0 gs" "complete gs"
    and "payloads gs = cs"
  shows "sends w w' (if writeErr w = None then cs else []) \<and> ws_offered w' = ws_offered w"
proof (cases "writeErr w")
  case None
  let ?v = "if isServer w then w else w\<lparr>nkeys := nkeys w + length (message_frames w op bs)\<rparr>"
  from None assms(1) have m: "(e, w') \<in> set (send_frames send (message_frames w op bs) ?v)"
    by (simp add: WriteMessage_def Let_def)
  have "writeErr ?v = None" using None by simp
  from send_frames_part [OF assms(2) m this]
  have "keys w' = keys w" "isServer w' = isServer w" "puts w w' (concat (message_frames w op bs))"
    using puts_same [of ?v w] by (cases "isServer w"; simp)+
  from sendsI [OF this None assms(3-6)] send_frames_offered [OF assms(2) m] None show ?thesis
    by (cases "isServer w") simp_all
qed (use assms(1) in \<open>simp add: WriteMessage_def sends_same\<close>)

lemma ws_write_link:
  assumes "((nw, ew), w') \<in> set (ws_write now bs w)" "\<forall>i. length (keys w i) = 4" "length bs < 2 ^ 63"
  shows "reader_kept w w' \<and> offers w w' (if writeErr w = None then bs else [])"
proof -
  from assms(1) obtain e v where v: "(e, v) \<in> set (WriteMessage (\<lambda>f w. conn_write now (writeDeadline w) False f w)
      BinaryMessage bs (offer bs w))"
    and w': "w' = v \<or> w' = v\<lparr>ws_sent := ws_sent v @ bs\<rparr>"
    by (auto simp: ws_write_def split: option.splits)
  have "same_reader (offer bs w) v" by (rule WriteMessage_same [OF conn_write_same v])
  then have "reader_kept w v"
    using reader_kept_trans [OF reader_kept_update(5) same_reader_kept] by blast
  then have k: "reader_kept w w'" using w' reader_kept_trans [OF _ reader_kept_update(1)] by blast
  have "frames_of (offer bs w) bs = frames_of w bs" by (simp add: frames_of_def)
  then have "concat (message_frames (offer bs w) BinaryMessage bs) = wires (\<not> isServer (offer bs w)) (frames_of w bs)"
    using message_frames_wire [of "offer bs w" bs] by (simp add: wires_def)
  from WriteMessage_sends [OF v sender_ok_write this] frames_of_ok [of w bs True] assms(2,3)
  have "sends (offer bs w) v (if writeErr w = None then bs else [])" "ws_offered v = ws_offered (offer bs w)"
    by simp_all
  moreover have "same_writer (offer bs w) w" "same_writer v w'" using w' by (auto simp: same_writer_def)
  ultimately show ?thesis using k w' sends_cong [of "offer bs w" w v w'] by (auto simp: offers_def offer_def)
qed

lemma close_frames:
  assumes "\<forall>i. length (keys w i) = 4"
  obtains gs where "concat (message_frames w CloseMessage (FormatCloseMessage CloseNormalClosure []))
      = wires (\<not> isServer w) gs" "frames_ok True True 0 gs" "complete gs" "payloads gs = []"
proof -
  let ?p = "FormatCloseMessage CloseNormalClosure []"
  have p: "length ?p = 2" by (simp add: FormatCloseMessage_def CloseNormalClosure_def CloseNoStatusReceived_def)
  then have "chunks_of ioSize ?p = [?p]" by (subst chunks_of.simps) (simp add: ioSize_def)
  then have "concat (message_frames w CloseMessage ?p) =
      ws_frame (isServer w) True CloseMessage (if isServer w then [] else keys w (nkeys w)) ?p"
    by (simp add: message_frames_def)
  with control_frame [of CloseMessage ?p "keys w (nkeys w)" "isServer w"] assms p that show thesis
    by (auto simp: is_control_def maxControlFramePayloadSize_def)
qed

lemma ws_close_link:
  assumes "(er, w') \<in> set (ws_close w)" "\<forall>i. length (keys w i) = 4"
  shows "reader_kept w w' \<and> offers w w' []"
proof -
  let ?u = "w\<lparr>closeOnce := True, writeDeadline := Some closeWait\<rparr>"
  from assms(1) obtain v where w': "w' = v\<lparr>tcp := (tcp v)\<lparr>tclosed := True\<rparr>\<rparr>"
    and m: "v \<in> (if closeOnce w then {w} else snd ` set (WriteMessage (timed_write 0 closeWait True)
        CloseMessage (FormatCloseMessage CloseNormalClosure []) ?u))"
    by (auto simp: ws_close_def tcp_close_def split: if_splits)
  have "reader_kept w v \<and> offers w v []"
  proof (cases "closeOnce w")
    case True
    with m show ?thesis by (simp add: reader_kept_def offers_def sends_same)
  next
    case False
    with m obtain e where e: "(e, v) \<in> set (WriteMessage (timed_write 0 closeWait True) CloseMessage
        (FormatCloseMessage CloseNormalClosure []) ?u)" by auto
    have "same_reader w v"
      using WriteMessage_same [OF timed_write_same e] by (simp add: same_reader_def)
    moreover have "\<forall>i. length (keys ?u i) = 4" using assms(2) by simp
    then obtain gs where gs: "concat (message_frames ?u CloseMessage (FormatCloseMessage CloseNormalClosure []))
        = wires (\<not> isServer ?u) gs" "frames_ok True True 0 gs" "complete gs" "payloads gs = []"
      by (rule close_frames)
    from WriteMessage_sends [OF e sender_ok_timed gs]
    have "sends w v [] \<and> ws_offered v = ws_offered w"
      using sends_cong [of ?u w v v] by (simp add: same_writer_def)
    ultimately show ?thesis using same_reader_kept by (simp add: offers_def)
  qed
  then show ?thesis
    using w' reader_kept_trans [OF _ reader_kept_update(6)] sends_cong [of w w w' v]
    by (simp add: offers_def same_writer_def)
qed

section \<open>One direction of the connection\<close>

text \<open>What \<open>w\<close> has sent is the beginning of these frames, all of them unless it can send no more.\<close>

definition sent_as :: "ws \<Rightarrow> data_frame list \<Rightarrow> byte list \<Rightarrow> bool" where
  "sent_as w fs tail \<longleftrightarrow> tcp_sent (tcp w) @ tail = wires (\<not> isServer w) fs \<and> frames_ok True True 0 fs
     \<and> complete fs \<and> payloads fs = ws_offered w \<and> (writeErr w = None \<longrightarrow> tail = [])"

text \<open>
  The invariant of the direction from \<open>l\<close> to \<open>r\<close>: what \<open>r\<close> returned and what it will still return is what \<open>l\<close>
  offered, unless \<open>r\<close> has failed.
\<close>

definition flow_ok :: "ws \<Rightarrow> ws \<Rightarrow> bool" where
  "flow_ok l r \<longleftrightarrow> (\<forall>i. length (keys l i) = 4) \<and> isServer r = (\<not> isServer l)
     \<and> arrived r \<le> length (tcp_sent (tcp l))
     \<and> (\<exists>fs tail. sent_as l fs tail \<and>
          ((readErr r \<noteq> None \<and> (\<exists>bs. ws_offered l = ws_recvd r @ bs))
           \<or> (\<exists>bs. ws_offered l = ws_recvd r @ bs
                \<and> carries True r (drop (arrived r) (tcp_sent (tcp l)) @ tail) bs)))"

lemma carries_extend:
  assumes "carries ctl w fut bs" "frames_ok ctl True 0 gs" "complete gs"
  shows "carries ctl w (fut @ wires (isServer w) gs) (bs @ payloads gs)"
proof -
  from assms(1) obtain cur fs where c: "readErr w = None" "hasReader w \<or> (readFinal w \<and> readRemaining w = 0)"
    "length cur = readRemaining w" "frames_ok ctl (readFinal w) (readLength w) fs" "final_after (readFinal w) fs"
    "bs = cur @ payloads fs"
    and q: "inq (tcp w) @ fut =
        (if isServer w then maskBytes (readMaskKey w) (readMaskPos w) cur else cur) @ wires (isServer w) fs"
    by (auto simp: carries_def)
  have "frames_ok ctl (readFinal w) (readLength w) (fs @ gs)"
    by (rule frames_ok_append [OF c(4,5) assms(2)])
  moreover have "final_after (readFinal w) (fs @ gs)" using c(5) assms(3) by simp
  moreover have "inq (tcp w) @ fut @ wires (isServer w) gs =
      (if isServer w then maskBytes (readMaskKey w) (readMaskPos w) cur else cur) @ wires (isServer w) (fs @ gs)"
    using q by (metis append.assoc wires_append)
  ultimately show ?thesis
    using c unfolding carries_def by (intro conjI exI [of _ cur] exI [of _ "fs @ gs"]) simp_all
qed

lemma flow_send:
  assumes "flow_ok l r" "offers l l' bs"
  shows "flow_ok l' r"
proof -
  from assms(1) obtain fs tail where k: "\<forall>i. length (keys l i) = 4" "isServer r = (\<not> isServer l)"
    "arrived r \<le> length (tcp_sent (tcp l))" and f: "sent_as l fs tail"
    and r: "(readErr r \<noteq> None \<and> (\<exists>bs. ws_offered l = ws_recvd r @ bs))
       \<or> (\<exists>bs. ws_offered l = ws_recvd r @ bs
            \<and> carries True r (drop (arrived r) (tcp_sent (tcp l)) @ tail) bs)"
    unfolding flow_ok_def by blast
  from assms(2) have o: "ws_offered l' = ws_offered l @ bs" and b: "writeErr l \<noteq> None \<longrightarrow> bs = []"
    and s: "keys l' = keys l" "isServer l' = isServer l"
    by (auto simp: offers_def sends_def)
  show ?thesis
  proof (cases "writeErr l = None")
    case False
    with assms(2) have "tcp_sent (tcp l') = tcp_sent (tcp l)" "writeErr l' = writeErr l"
      by (auto simp: offers_def sends_def)
    with False b o s have "flow_ok l' r = flow_ok l r" by (simp add: flow_ok_def sent_as_def)
    with assms(1) show ?thesis by simp
  next
    case True
    with assms(2) obtain gs where gs: "puts l l' (wires (\<not> isServer l) gs)" "frames_ok True True 0 gs" "complete gs"
      "payloads gs = bs"
      by (auto simp: offers_def sends_def)
    from gs(1) obtain x tl where x: "tcp_sent (tcp l') = tcp_sent (tcp l) @ x" "x @ tl = wires (\<not> isServer l) gs"
      "writeErr l' = None \<longrightarrow> tl = []"
      by (auto simp: puts_def)
    have sl: "sent_as l' (fs @ gs) tl"
      using f True x gs o s frames_ok_append [of True True 0 fs gs] by (auto simp: sent_as_def)
    have "tail = []" using f True by (simp add: sent_as_def)
    have "drop (arrived r) (tcp_sent (tcp l')) @ tl = drop (arrived r) (tcp_sent (tcp l)) @ wires (isServer r) gs"
      using x k(2,3) by simp
    then have "carries True r (drop (arrived r) (tcp_sent (tcp l)) @ tail) bs' \<Longrightarrow>
        carries True r (drop (arrived r) (tcp_sent (tcp l')) @ tl) (bs' @ bs)" for bs'
      using carries_extend [OF _ gs(2,3), of r _ bs'] \<open>tail = []\<close> gs(4) by simp
    moreover have "ws_offered l = ws_recvd r @ bs' \<Longrightarrow> ws_offered l' = ws_recvd r @ bs' @ bs" for bs' using o by simp
    ultimately have "(readErr r \<noteq> None \<and> (\<exists>bs. ws_offered l' = ws_recvd r @ bs))
       \<or> (\<exists>bs. ws_offered l' = ws_recvd r @ bs
            \<and> carries True r (drop (arrived r) (tcp_sent (tcp l')) @ tl) bs)"
      using r by blast
    with sl k s x(1) show ?thesis unfolding flow_ok_def by auto
  qed
qed

lemma flow_kept: "flow_ok l r \<Longrightarrow> reader_kept r r' \<Longrightarrow> flow_ok l r'"
  unfolding flow_ok_def reader_kept_def by (elim conjE exE) fastforce

lemma ws_read_carries:
  assumes "((out, er), w') \<in> set (ws_read now n w)" "carries True w fut bs"
  shows "(\<exists>bs'. bs = out @ bs' \<and> carries True w' fut bs') \<or> (out = [] \<and> readErr w' \<noteq> None)"
  using ws_read_cases [OF assms(1)]
proof
  assume "((out, er), w') \<in> set (wrapper_read now n w)"
  from carries_read [OF assms(2) this] show ?thesis by blast
qed (auto simp: frame_error_def)

lemma ws_read_failed: "readErr w \<noteq> None \<Longrightarrow> ((out, er), w') \<in> set (ws_read now n w) \<Longrightarrow> out = [] \<and> w' = w"
  by (auto simp: ws_read_def Let_def wrapper_read.simps [of now n w])

lemma flow_read:
  assumes "flow_ok l r" "((out, er), r') \<in> set (ws_read now n r)"
  shows "flow_ok l r'"
proof -
  have k: "arrived r' = arrived r" "isServer r' = isServer r" "ws_recvd r' = ws_recvd r @ out"
    using ws_read_sends [OF assms(2)] ws_read_result [OF assms(2)]
    by (simp_all add: read_sends_def)
  from assms(1) obtain fs tail where f: "(\<forall>i. length (keys l i) = 4)" "isServer r = (\<not> isServer l)"
    "arrived r \<le> length (tcp_sent (tcp l))" "sent_as l fs tail"
    and r: "(readErr r \<noteq> None \<and> (\<exists>bs. ws_offered l = ws_recvd r @ bs))
       \<or> (\<exists>bs. ws_offered l = ws_recvd r @ bs
            \<and> carries True r (drop (arrived r) (tcp_sent (tcp l)) @ tail) bs)"
    unfolding flow_ok_def by blast
  have "(readErr r' \<noteq> None \<and> (\<exists>bs. ws_offered l = ws_recvd r' @ bs))
       \<or> (\<exists>bs. ws_offered l = ws_recvd r' @ bs
            \<and> carries True r' (drop (arrived r') (tcp_sent (tcp l)) @ tail) bs)"
    using r
  proof (elim disjE exE conjE)
    fix bs assume "readErr r \<noteq> None" "ws_offered l = ws_recvd r @ bs"
    with ws_read_failed [OF _ assms(2)] show ?thesis by auto
  next
    fix bs assume "ws_offered l = ws_recvd r @ bs" "carries True r (drop (arrived r) (tcp_sent (tcp l)) @ tail) bs"
    with ws_read_carries [OF assms(2)] k show ?thesis by fastforce
  qed
  with f k show ?thesis unfolding flow_ok_def by auto
qed

lemma flow_deliver:
  assumes "flow_ok l r"
  shows "flow_ok l (deliver k l r)"
proof -
  let ?x = "take k (drop (arrived r) (tcp_sent (tcp l)))"
  from assms obtain fs tail where f: "(\<forall>i. length (keys l i) = 4)" "isServer r = (\<not> isServer l)"
    "arrived r \<le> length (tcp_sent (tcp l))" "sent_as l fs tail"
    and r: "(readErr r \<noteq> None \<and> (\<exists>bs. ws_offered l = ws_recvd r @ bs))
       \<or> (\<exists>bs. ws_offered l = ws_recvd r @ bs
            \<and> carries True r (drop (arrived r) (tcp_sent (tcp l)) @ tail) bs)"
    unfolding flow_ok_def by blast
  have a: "arrived (deliver k l r) = arrived r + length ?x" by (simp add: deliver_def arrived_def)
  have "drop (arrived r) (tcp_sent (tcp l)) = ?x @ drop (arrived r + length ?x) (tcp_sent (tcp l))"
    by (metis append_take_drop_id add.commute drop_drop append_eq_conv_conj)
  then have "carries True r (?x @ drop (arrived r + length ?x) (tcp_sent (tcp l)) @ tail) bs"
    if "carries True r (drop (arrived r) (tcp_sent (tcp l)) @ tail) bs" for bs
    using that by (metis append.assoc)
  then have "carries True (deliver k l r) (drop (arrived (deliver k l r)) (tcp_sent (tcp l)) @ tail) bs"
    if "carries True r (drop (arrived r) (tcp_sent (tcp l)) @ tail) bs" for bs
    using carries_arrive [of True r ?x] that unfolding a by (simp only: deliver_def)
  with r have "(readErr (deliver k l r) \<noteq> None \<and> (\<exists>bs. ws_offered l = ws_recvd (deliver k l r) @ bs))
       \<or> (\<exists>bs. ws_offered l = ws_recvd (deliver k l r) @ bs
            \<and> carries True (deliver k l r) (drop (arrived (deliver k l r)) (tcp_sent (tcp l)) @ tail) bs)"
    by (auto simp: deliver_def)
  moreover have "arrived (deliver k l r) \<le> length (tcp_sent (tcp l))" using a f(3) by simp
  ultimately show ?thesis using f unfolding flow_ok_def by (auto simp: deliver_def)
qed

section \<open>Both directions\<close>

lemma end_step_effect:
  assumes "end_step w w'" "\<forall>i. length (keys w i) = 4"
  shows "\<exists>bs. offers w w' bs"
    "reader_kept w w' \<or> (\<exists>bs er now n. ((bs, er), w') \<in> set (ws_read now n w))"
proof -
  have "(\<exists>bs. offers w w' bs) \<and> (reader_kept w w' \<or> (\<exists>bs er now n. ((bs, er), w') \<in> set (ws_read now n w)))"
    using assms(1)
  proof cases
    case (reads bs er now n)
    with ws_read_sends [OF reads] assms(2) have "offers w w' []" by (simp add: offers_def read_sends_def)
    with reads show ?thesis by blast
  next
    case (writes bs nw ew now)
    with ws_write_link [OF writes(2) assms(2) writes(1)] show ?thesis by blast
  next
    case (closes er)
    with ws_close_link [OF closes assms(2)] show ?thesis by blast
  qed (auto simp: ws_ops_def offers_def reader_kept_update intro!: exI [of _ "[]"] sends_same)
  then show "\<exists>bs. offers w w' bs"
    "reader_kept w w' \<or> (\<exists>bs er now n. ((bs, er), w') \<in> set (ws_read now n w))" by blast+
qed

lemma end_step_flow:
  assumes "end_step w w'" "\<forall>i. length (keys w i) = 4"
  shows "flow_ok w x \<Longrightarrow> flow_ok w' x" "flow_ok x w \<Longrightarrow> flow_ok x w'"
  using end_step_effect [OF assms] flow_send flow_read flow_kept by blast+

definition link_ok :: "ws \<times> ws \<Rightarrow> bool" where
  "link_ok L \<longleftrightarrow> flow_ok (fst L) (snd L) \<and> flow_ok (snd L) (fst L)"

lemma link_ok_step: "link_step L L' \<Longrightarrow> link_ok L \<Longrightarrow> link_ok L'"
proof (induction rule: link_step.induct)
  case (one l l' r)
  then have "\<forall>i. length (keys l i) = 4" by (simp add: link_ok_def flow_ok_def)
  with one end_step_flow [OF one(1), of r] show ?case by (simp add: link_ok_def)
next
  case (other r r' l)
  then have "\<forall>i. length (keys r i) = 4" by (simp add: link_ok_def flow_ok_def)
  with other end_step_flow [OF other(1), of l] show ?case by (simp add: link_ok_def)
next
  case (to_right l r k)
  have "offers r (deliver k l r) []" by (simp add: offers_def sends_same deliver_def)
  with to_right flow_deliver flow_send show ?case by (auto simp: link_ok_def)
next
  case (to_left l r k)
  have "offers l (deliver k r l) []" by (simp add: offers_def sends_same deliver_def)
  with to_left flow_deliver flow_send show ?case by (auto simp: link_ok_def)
qed

lemma link_ok_run: "link_run L L' \<Longrightarrow> link_ok L \<Longrightarrow> link_ok L'"
  by (induction rule: link_run.induct) (auto dest: link_ok_step)

text \<open>A connection just made: nothing was sent or received over it, and mask keys have four bytes.\<close>

definition fresh_socket :: "tcp_conn \<Rightarrow> bool" where
  "fresh_socket t \<longleftrightarrow> inq t = [] \<and> tcp_recvd t = [] \<and> tcp_sent t = []"

definition new_link :: "(nat \<Rightarrow> byte list) \<Rightarrow> (nat \<Rightarrow> byte list) \<Rightarrow> tcp_conn \<Rightarrow> tcp_conn \<Rightarrow> ws \<times> ws" where
  "new_link ks ks' t t' = (wrapWebSocketConn False ks t, wrapWebSocketConn True ks' t')"

lemma flow_ok_start:
  "fresh_socket t \<Longrightarrow> fresh_socket t' \<Longrightarrow> \<forall>i. length (ks i) = 4 \<Longrightarrow>
     flow_ok (wrapWebSocketConn server ks t) (wrapWebSocketConn (\<not> server) ks' t')"
  unfolding flow_ok_def sent_as_def carries_def wrapWebSocketConn_def fresh_socket_def arrived_def
  by (auto intro!: exI [of _ "[]"])

lemma link_ok_start:
  assumes "fresh_socket t" "fresh_socket t'" "\<forall>i. length (ks i) = 4" "\<forall>i. length (ks' i) = 4"
  shows "link_ok (new_link ks ks' t t')"
  using flow_ok_start [OF assms(1,2,3), of False ks'] flow_ok_start [OF assms(2,1,4), of True ks]
  by (simp add: link_ok_def new_link_def)

lemma link_ok_recvd: "link_ok (c, s) \<Longrightarrow> prefix (ws_recvd s) (ws_offered c) \<and> prefix (ws_recvd c) (ws_offered s)"
  by (auto simp: link_ok_def flow_ok_def)



end
