(* ===== verification/WsTunnel.thy ===== *)
theory WsTunnel
  imports WsLink EndToEnd
begin

text \<open>
  A client and a server whose tunnels are joined by a WebSocket connection, as one system: four
  goroutines copy, two kernels and a network move the bytes. Every call of the wrapper is one step here;
  calls that overlap are the subject of \<open>WsClose\<close>.
\<close>

section \<open>Sockets and WebSocket connections\<close>

type_synonym wconn = "tcp_conn + ws"

definition wops :: "wconn conn_ops" where
  "wops = sum_ops tcp_ops ws_ops"

interpretation wany: two_conns tcp_ops tclosed "\<lambda>_. True" tcp_env tcp_recvd tcp_sent
    ws_ops "\<lambda>w. tclosed (tcp w)" "\<lambda>_. True" ws_env ws_recvd ws_sent
  by unfold_locales

text \<open>What happens to one's own side of a connection without the other side's bytes.\<close>

inductive own_env :: "ws \<Rightarrow> ws \<Rightarrow> bool" where
  finish: "in_end (tcp w) = None \<Longrightarrow> own_env w (w\<lparr>tcp := (tcp w)\<lparr>in_end := Some e\<rparr>\<rparr>)"
| drain: "own_env w (w\<lparr>tcp := (tcp w)\<lparr>room := room (tcp w) + k\<rparr>\<rparr>)"
| break: "own_env w (w\<lparr>tcp := (tcp w)\<lparr>out_err := Some e\<rparr>\<rparr>)"

definition set_link :: "ws \<Rightarrow> wconn tunnel \<Rightarrow> wconn tunnel" where
  "set_link w T = ((fst T)\<lparr>connB := Inr w\<rparr>, snd T)"

text \<open>
  A step of the system: of the client or the server, their goroutines or what surrounds them, or a
  delivery in one direction. No byte arrives after the end of the stream.
\<close>

inductive path_step :: "wconn tunnel \<times> wconn tunnel \<Rightarrow> wconn tunnel \<times> wconn tunnel \<Rightarrow> bool" where
  client: "tunnel_step wops (sum_env tcp_env own_env) l C C' \<Longrightarrow> path_step (C, S) (C', S)"
| server: "tunnel_step wops (sum_env tcp_env own_env) l S S' \<Longrightarrow> path_step (C, S) (C, S')"
| to_server: "connB (fst C) = Inr c \<Longrightarrow> connB (fst S) = Inr s \<Longrightarrow> in_end (tcp s) = None \<Longrightarrow>
    path_step (C, S) (C, set_link (deliver k c s) S)"
| to_client: "connB (fst C) = Inr c \<Longrightarrow> connB (fst S) = Inr s \<Longrightarrow> in_end (tcp c) = None \<Longrightarrow>
    path_step (C, S) (set_link (deliver k s c) C, S)"

inductive path_run :: "wconn tunnel \<times> wconn tunnel \<Rightarrow> wconn tunnel \<times> wconn tunnel \<Rightarrow> bool" where
  start: "path_run P P"
| step: "path_run P P' \<Longrightarrow> path_step P' P'' \<Longrightarrow> path_run P P''"

text \<open>
  The two tunnels of a connection: \<^verbatim>\<open>ForwardConn\<close> joins the application's connection with a dialled
  WebSocket, \<^verbatim>\<open>handleClientConn\<close> joins the destination with the upgraded one.
\<close>

definition new_path ::
  "(nat \<Rightarrow> byte list) \<Rightarrow> (nat \<Rightarrow> byte list) \<Rightarrow> tcp_conn \<Rightarrow> tcp_conn \<Rightarrow> tcp_conn \<Rightarrow> tcp_conn \<Rightarrow> int \<Rightarrow> int
     \<Rightarrow> wconn tunnel \<times> wconn tunnel" where
  "new_path ks ks' app t t' dest timeout now =
     (openTunnel (Inl app) (Inr (wrapWebSocketConn False ks t)) timeout now [],
      openTunnel (Inl dest) (Inr (wrapWebSocketConn True ks' t')) timeout now [])"

section \<open>Each tunnel on its own\<close>

definition wenv :: "wconn \<Rightarrow> wconn \<Rightarrow> bool" where
  "wenv = sum_env tcp_env ws_env"

lemma own_env_ws: "own_env w w' \<Longrightarrow> ws_env w w'"
  by (induction rule: own_env.induct) (auto intro: ws_env.net tcp_env.intros)

lemma wenv_own: "sum_env tcp_env own_env c c' \<Longrightarrow> wenv c c'"
  unfolding wenv_def by (induction rule: sum_env.induct) (auto intro: sum_env.intros own_env_ws)

lemma tunnel_step_own: "tunnel_step wops (sum_env tcp_env own_env) l T T' \<Longrightarrow> tunnel_step wops wenv l T T'"
  by (induction rule: tunnel_step.induct) (auto intro: tunnel_step.intros wenv_own)

lemma deliver_step:
  assumes "connB (fst T) = Inr w" "in_end (tcp w) = None"
  shows "tunnel_step wops wenv None T (set_link (deliver k c w) T)"
proof -
  have "ws_env w (deliver k c w)"
    unfolding deliver_def by (intro ws_env.net tcp_env.deliver assms(2))
  then have "wenv (connB (fst T)) (Inr (deliver k c w))"
    by (simp add: wenv_def assms(1) sum_env.right)
  then show ?thesis
    using tunnel_step.peerB [of wenv "fst T" "Inr (deliver k c w)" wops "snd T"] by (simp add: set_link_def)
qed

lemma path_step_runs:
  assumes "path_step (C, S) (C', S')"
  shows "(C' = C \<or> (\<exists>l. tunnel_step wops wenv l C C')) \<and> (S' = S \<or> (\<exists>l. tunnel_step wops wenv l S S'))"
  using assms by cases (auto dest: tunnel_step_own intro: deliver_step)

lemma path_run_runs:
  "path_run P Q \<Longrightarrow> (\<exists>ls. tunnel_run wops wenv (fst P) ls (fst Q)) \<and> (\<exists>ls. tunnel_run wops wenv (snd P) ls (snd Q))"
proof (induction rule: path_run.induct)
  case (start P)
  show ?case by (auto intro: tunnel_run.run_nil)
next
  case (step P P' P'')
  from path_step_runs [of "fst P'" "snd P'" "fst P''" "snd P''"] step show ?case
    by (auto intro: tunnel_run.run_snoc)
qed

text \<open>So each tunnel keeps the invariants of \<open>Tunnel\<close>: here, what it has read and what it has written.\<close>

abbreviation wclosed :: "wconn \<Rightarrow> bool" where
  "wclosed \<equiv> case_sum tclosed (\<lambda>w. tclosed (tcp w))"

abbreviation wvalid :: "wconn \<Rightarrow> bool" where
  "wvalid \<equiv> case_sum (\<lambda>_. True) (\<lambda>_. True)"

lemma wany_run:
  assumes "tunnel_run wops wenv (openTunnel a b timeout now []) ls T"
  shows "tunnel_ok wclosed wvalid T" "wany.either.traffic_ok (openTunnel a b timeout now []) T"
proof -
  have v: "wvalid a" "wvalid b" by (simp_all split: sum.split)
  have "tunnel_ok wclosed wvalid (openTunnel a b timeout now [])"
    by (rule wany.either.tunnel_ok_init) (use v in simp_all)
  with assms wany.either.tunnel_ok_run wany.either.traffic_ok_run wany.either.traffic_ok_init
  show "tunnel_ok wclosed wvalid T" "wany.either.traffic_ok (openTunnel a b timeout now []) T"
    unfolding wops_def wenv_def by blast+
qed

section \<open>What a tunnel does to its WebSocket\<close>

text \<open>A step of a goroutine is at most one call on the WebSocket, of which the link knows.\<close>

lemma wops_eval:
  "c_read wops now n (Inr w) = map_result Inr (ws_read now n w)"
  "c_write wops now bs (Inr w) = map_result Inr (ws_write now bs w)"
  "c_close wops (Inr w) = map_result Inr (ws_close w)"
  "c_set_deadline wops dl (Inr w) = Inr (c_set_deadline ws_ops dl w)"
  "c_set_read_deadline wops dl (Inr w) = Inr (c_set_read_deadline ws_ops dl w)"
  "c_set_write_deadline wops dl (Inr w) = Inr (c_set_write_deadline ws_ops dl w)"
  "c_set_deadline wops dl (Inl t) = Inl (c_set_deadline tcp_ops dl t)"
  "c_set_read_deadline wops dl (Inl t) = Inl (c_set_read_deadline tcp_ops dl t)"
  "c_set_write_deadline wops dl (Inl t) = Inl (c_set_write_deadline tcp_ops dl t)"
  by (simp_all add: wops_def sum_ops_def ws_ops_def)

text \<open>A call on either kind of connection, seen from the link.\<close>

definition moves :: "wconn \<Rightarrow> wconn \<Rightarrow> bool" where
  "moves c c' \<longleftrightarrow> (case c of Inl a \<Rightarrow> \<exists>a'. c' = Inl a' | Inr w \<Rightarrow> \<exists>w'. c' = Inr w' \<and> end_step w w')"

lemma calls_move:
  "((bs, er), c') \<in> set (c_read wops now n c) \<Longrightarrow> moves c c'"
  "((nw, ew), c') \<in> set (c_write wops now xs c) \<Longrightarrow> length xs \<le> defaultCopyIOBufferSize \<Longrightarrow> moves c c'"
  "(e, c') \<in> set (c_close wops c) \<Longrightarrow> moves c c'"
proof -
  show "((bs, er), c') \<in> set (c_read wops now n c) \<Longrightarrow> moves c c'"
    by (cases c) (auto simp: moves_def wops_def sum_ops_def ws_ops_def set_map_result intro: end_step.reads)
  show "moves c c'" if "((nw, ew), c') \<in> set (c_write wops now xs c)" "length xs \<le> defaultCopyIOBufferSize"
  proof -
    have "length xs < 2 ^ 63" using that(2) by (simp add: defaultCopyIOBufferSize_def)
    from that(1) end_step.writes [OF this] show ?thesis
      by (cases c) (auto simp: moves_def wops_def sum_ops_def ws_ops_def set_map_result)
  qed
  show "(e, c') \<in> set (c_close wops c) \<Longrightarrow> moves c c'"
    by (cases c) (auto simp: moves_def wops_def sum_ops_def ws_ops_def set_map_result intro: end_step.closes)
qed

lemma deadlines_move:
  "moves c (c_set_deadline wops dl c)" "moves c (c_set_read_deadline wops dl c)" "moves c (c_set_write_deadline wops dl c)"
  using end_step.deadline end_step.read_deadline end_step.write_deadline
  by (auto simp: moves_def wops_def sum_ops_def split: sum.split)

text \<open>Between two states of a client or a server, the link has taken at most one step of its side.\<close>

definition linked :: "wconn shared \<Rightarrow> wconn shared \<Rightarrow> bool" where
  "linked s s' \<longleftrightarrow> (\<forall>w a. connB s = Inr w \<longrightarrow> connA s = Inl a \<longrightarrow>
     (\<exists>w'. connB s' = Inr w' \<and> (w' = w \<or> end_step w w')) \<and> (\<exists>a'. connA s' = Inl a'))"

lemma linked_same: "connA s' = connA s \<Longrightarrow> connB s' = connB s \<Longrightarrow> linked s s'"
  by (simp add: linked_def)

lemma linked_moves:
  "moves (src d s) c' \<Longrightarrow> linked s (set_src d c' s)" "moves (dst d s) c' \<Longrightarrow> linked s (set_dst d c' s)"
  by (cases d; auto simp: linked_def moves_def src_def dst_def set_src_def set_dst_def)+

lemma acquire_conns: "(b, s') \<in> set (acquireIOBuf s) \<Longrightarrow> connA s' = connA s \<and> connB s' = connB s"
  by (auto simp: acquireIOBuf_def)

lemma ow_step_link:
  assumes "(s', t') \<in> set (ow_step wops d s t)" "thread_ok t"
  shows "linked s s'"
proof (cases "pc t")
  case Acquire
  with assms(1) obtain b where "(b, s') \<in> set (acquireIOBuf s)" by (auto simp: ow_step_def)
  with acquire_conns linked_same show ?thesis by metis
next
  case (WriteDst bs er)
  then have "length bs \<le> defaultCopyIOBufferSize" using assms(2) by (simp add: thread_ok_def in_flight_def)
  with WriteDst assms(1) show ?thesis
    by (auto simp: ow_step_def write_step_def intro!: linked_moves(2) intro: calls_move)
qed (use assms in \<open>auto simp: ow_step_def read_step_def releaseIOBuf_def intro!: linked_moves intro: calls_move deadlines_move linked_same\<close>)

section \<open>What a tunnel gives its WebSocket\<close>

definition offered :: "wconn \<Rightarrow> byte list" where
  "offered c = (case c of Inl a \<Rightarrow> [] | Inr w \<Rightarrow> ws_offered w)"

lemma WriteMessage_offered:
  "(e, w') \<in> set (WriteMessage send op bs w) \<Longrightarrow> sender_ok send \<Longrightarrow>
     ws_offered w' = ws_offered w \<and> (writeErr w \<noteq> None \<longrightarrow> e \<noteq> None)"
  by (cases "writeErr w") (auto simp: WriteMessage_def Let_def dest: send_frames_offered split: if_splits)

lemma ws_write_offered:
  assumes "((nw, ew), w') \<in> set (ws_write now bs w)"
  shows "(ew = None \<and> nw = length bs \<and> ws_offered w' = ws_offered w @ bs)
    \<or> (ew \<noteq> None \<and> nw = 0 \<and> (ws_offered w' = ws_offered w \<or> ws_offered w' = ws_offered w @ bs))"
proof -
  from assms obtain e v where v: "(e, v) \<in> set (WriteMessage (\<lambda>f w. conn_write now (ws.writeDeadline w) False f w)
      BinaryMessage bs (offer bs w))"
    and r: "((nw, ew), w') = (case e of None \<Rightarrow> ((length bs, None), v\<lparr>ws_sent := ws_sent v @ bs\<rparr>)
       | Some x \<Rightarrow> ((0, Some x), v))"
    by (auto simp: ws_write_def)
  from WriteMessage_offered [OF v sender_ok_write] r show ?thesis
    by (auto simp: offer_def split: option.splits if_splits)
qed

lemma ws_close_offered: "(er, w') \<in> set (ws_close w) \<Longrightarrow> ws_offered w' = ws_offered w"
  by (auto simp: ws_close_def tcp_close_def dest!: WriteMessage_offered [OF _ sender_ok_timed] split: if_splits)

lemma calls_offered:
  "((bs, er), c') \<in> set (c_read wops now n c) \<Longrightarrow> offered c' = offered c"
  "(e, c') \<in> set (c_close wops c) \<Longrightarrow> offered c' = offered c"
  "offered (c_set_deadline wops dl c) = offered c"
  "offered (c_set_read_deadline wops dl c) = offered c"
  "offered (c_set_write_deadline wops dl c) = offered c"
  by (cases c; auto simp: offered_def wops_def sum_ops_def ws_ops_def set_map_result read_sends_def
      dest: ws_read_sends ws_close_offered)+

text \<open>Only the goroutine that writes to it offers anything, and what it offers is what it has read.\<close>

lemma reader_offers:
  assumes "(s', t') \<in> set (ow_step wops BtoA s t)"
  shows "offered (connB s') = offered (connB s)"
proof (cases "pc t")
  case Acquire
  with assms obtain b where "(b, s') \<in> set (acquireIOBuf s)" by (auto simp: ow_step_def)
  with acquire_conns show ?thesis by metis
qed (use assms in \<open>auto simp: ow_step_def read_step_def write_step_def releaseIOBuf_def src_def dst_def
  set_src_def set_dst_def calls_offered\<close>)

lemma writer_offers:
  assumes "(s', t') \<in> set (ow_step wops AtoB s t)" "thread_ok t" "connB s = Inr w"
    and "offered_ok (offered (connB s)) t"
  shows "offered_ok (offered (connB s')) t'"
proof (cases "pc t")
  case Acquire
  with assms(1) obtain b where b: "(b, s') \<in> set (acquireIOBuf s)" "put t' = put t" "got t' = got t"
    "outcome t' = outcome t" by (auto simp: ow_step_def)
  from acquire_conns [OF b(1)] b Acquire assms(2,4) show ?thesis by (simp add: offered_ok_def thread_ok_def)
next
  case (WriteDst bs er)
  with assms(2,4) have o: "ws_offered w = put t" "got t = put t @ bs"
    by (simp_all add: offered_ok_def thread_ok_def in_flight_def offered_def assms(3))
  from assms(1) WriteDst obtain nw ew c' where c: "((nw, ew), c') \<in> set (c_write wops (clock s) bs (Inr w))"
    "s' = set_dst AtoB c' s" "put t' = put t @ take nw bs" "got t' = got t" "pc t' = after_write bs er nw ew"
    by (auto simp: ow_step_def write_step_def dst_def assms(3))
  then obtain w' where w': "c' = Inr w'" "((nw, ew), w') \<in> set (ws_write (clock s) bs w)"
    by (auto simp: wops_eval set_map_result)
  from ws_write_offered [OF w'(2)] show ?thesis
    by (auto simp: offered_ok_def offered_def c o w' set_dst_def after_write_def)
qed (use assms in \<open>auto simp: ow_step_def read_step_def releaseIOBuf_def src_def dst_def set_src_def set_dst_def
  calls_offered offered_ok_def thread_ok_def in_flight_def\<close>)

section \<open>The whole path\<close>

text \<open>One tunnel's side of the invariant.\<close>

definition side_ok :: "wconn tunnel \<Rightarrow> ws \<Rightarrow> bool" where
  "side_ok T w \<longleftrightarrow> connB (fst T) = Inr w \<and> (\<exists>a. connA (fst T) = Inl a)
     \<and> offered_ok (ws_offered w) (snd T AtoB)"

lemma side_ok_goroutine:
  assumes "tunnel_step wops (sum_env tcp_env own_env) (Some d) T T'" "side_ok T w" "tunnel_ok wclosed wvalid T"
  shows "\<exists>w'. side_ok T' w' \<and> (w' = w \<or> end_step w w')"
  using assms(1)
proof cases
  case (goroutine s' t' s th)
  have ok: "thread_ok (th d)" using assms(3) goroutine(1) by (simp add: tunnel_ok_def)
  obtain a where c: "connB s = Inr w" "connA s = Inl a" "offered_ok (offered (connB s)) (th AtoB)"
    using assms(2) goroutine(1) by (auto simp: side_ok_def offered_def)
  from ow_step_link [OF goroutine(3) ok] c obtain w' a' where w': "connB s' = Inr w'" "connA s' = Inl a'"
    "w' = w \<or> end_step w w'"
    unfolding linked_def by blast
  have "offered_ok (offered (connB s')) ((th(d := t')) AtoB)"
  proof (cases d)
    case BtoA
    with reader_offers goroutine(3) c(3) show ?thesis by simp
  next
    case AtoB
    with writer_offers [OF _ _ c(1,3)] goroutine(3) ok show ?thesis by simp
  qed
  then show ?thesis using w' goroutine(2) by (auto simp: side_ok_def offered_def)
qed

lemma own_env_step: "own_env w w' \<Longrightarrow> end_step w w' \<and> ws_offered w' = ws_offered w"
  by (induction rule: own_env.induct) (auto intro: end_step.intros)

lemma side_ok_environment:
  assumes "tunnel_step wops (sum_env tcp_env own_env) None T T'" "side_ok T w"
  shows "\<exists>w'. side_ok T' w' \<and> (w' = w \<or> end_step w w')"
  using assms
  by (cases rule: tunnel_step.cases) (auto simp: side_ok_def elim!: sum_envE dest: own_env_step)

lemma side_ok_step:
  assumes "tunnel_step wops (sum_env tcp_env own_env) l T T'" "side_ok T w" "tunnel_ok wclosed wvalid T"
  shows "\<exists>w'. side_ok T' w' \<and> (w' = w \<or> end_step w w')"
  using assms side_ok_goroutine side_ok_environment by (cases l) blast+

lemma side_ok_deliver: "side_ok T w \<Longrightarrow> side_ok (set_link (deliver k l w) T) (deliver k l w)"
  by (simp add: side_ok_def set_link_def deliver_def)

definition path_ok :: "wconn tunnel \<times> wconn tunnel \<Rightarrow> bool" where
  "path_ok P \<longleftrightarrow> (\<exists>c s. side_ok (fst P) c \<and> side_ok (snd P) s \<and> link_ok (c, s))"

lemma path_ok_step:
  assumes "path_step P P'" "path_ok P" "tunnel_ok wclosed wvalid (fst P)" "tunnel_ok wclosed wvalid (snd P)"
  shows "path_ok P'"
proof -
  obtain c s where ok: "side_ok (fst P) c" "side_ok (snd P) s" "link_ok (c, s)"
    using assms(2) by (auto simp: path_ok_def)
  from assms(1) show ?thesis
  proof cases
    case (client l C C' S)
    with side_ok_step ok(1) assms(3) obtain c' where c': "side_ok C' c'" "c' = c \<or> end_step c c'" by fastforce
    then have "link_ok (c', s)" using ok(3) link_ok_step link_step.one by blast
    with c'(1) ok(2) client show ?thesis by (auto simp: path_ok_def)
  next
    case (server l S S' C)
    with side_ok_step ok(2) assms(4) obtain s' where s': "side_ok S' s'" "s' = s \<or> end_step s s'" by fastforce
    then have "link_ok (c, s')" using ok(3) link_ok_step link_step.other by blast
    with s'(1) ok(1) server show ?thesis by (auto simp: path_ok_def)
  next
    case (to_server C c' S s' k)
    with ok have "side_ok (set_link (deliver k c s) S) (deliver k c s)" "c' = c" "s' = s"
      using side_ok_deliver by (auto simp: side_ok_def)
    moreover have "link_ok (c, deliver k c s)" using ok(3) link_ok_step link_step.to_right by blast
    ultimately show ?thesis using to_server ok(1) by (auto simp: path_ok_def)
  next
    case (to_client C c' S s' k)
    with ok have "side_ok (set_link (deliver k s c) C) (deliver k s c)" "c' = c" "s' = s"
      using side_ok_deliver by (auto simp: side_ok_def)
    moreover have "link_ok (deliver k s c, s)" using ok(3) link_ok_step link_step.to_left by blast
    ultimately show ?thesis using to_client ok(2) by (auto simp: path_ok_def)
  qed
qed

lemma path_run_tunnels:
  assumes "path_run (new_path ks ks' app t t' dest timeout now) P"
  shows "tunnel_ok wclosed wvalid (fst P)" "tunnel_ok wclosed wvalid (snd P)"
    "wany.either.traffic_ok (fst (new_path ks ks' app t t' dest timeout now)) (fst P)"
    "wany.either.traffic_ok (snd (new_path ks ks' app t t' dest timeout now)) (snd P)"
  using path_run_runs [OF assms] wany_run unfolding new_path_def fst_conv snd_conv by blast+

lemma path_ok_run:
  "path_run P Q \<Longrightarrow> P = new_path ks ks' app t t' dest timeout now \<Longrightarrow> path_ok P \<Longrightarrow> path_ok Q"
proof (induction rule: path_run.induct)
  case (step P P' P'')
  from step(1,4) path_run_tunnels have "tunnel_ok wclosed wvalid (fst P')" "tunnel_ok wclosed wvalid (snd P')" by blast+
  with step path_ok_step show ?case by blast
qed simp

lemma path_ok_start:
  assumes "fresh_socket t" "fresh_socket t'" "\<forall>i. length (ks i) = 4" "\<forall>i. length (ks' i) = 4"
  shows "path_ok (new_path ks ks' app t t' dest timeout now)"
  using link_ok_start [OF assms]
  by (auto simp: path_ok_def side_ok_def new_path_def new_link_def openTunnel_def offered_ok_def thread_new_def
      wrapWebSocketConn_def)

text \<open>What one side's tunnel makes of the two connections it joins.\<close>

lemma side_traffic:
  assumes "wany.either.traffic_ok (openTunnel (Inl a) (Inr w) timeout now []) T" "tunnel_ok wclosed wvalid T"
    and "connA (fst T) = Inl a'" "side_ok T w'" "untouched a" "ws_recvd w = []"
  shows "prefix (tcp_sent a') (ws_recvd w')" "prefix (ws_offered w') (tcp_recvd a')"
proof -
  have t: "\<exists>rest. got (snd T d) = put (snd T d) @ rest" for d
    using thread_ok_prefix assms(2) by (auto simp: tunnel_ok_def)
  have b: "connB (fst T) = Inr w'" "prefix (ws_offered w') (got (snd T AtoB))"
    using assms(4) by (simp_all add: side_ok_def offered_ok_def)
  have "ws_recvd w' = got (snd T BtoA)" "tcp_sent a' = put (snd T BtoA)" "tcp_recvd a' = got (snd T AtoB)"
    using assms(1,3,5,6) b(1)
    by (auto simp: wany.either.traffic_ok_def src_def dst_def openTunnel_def untouched_def split: dir.splits)
  with b t [of BtoA] show "prefix (tcp_sent a') (ws_recvd w')" "prefix (ws_offered w') (tcp_recvd a')"
    by auto
qed


section \<open>A concrete path\<close>

lemma client_runs:
  "exec wops cs C = Some C' \<Longrightarrow> path_run P (C, S) \<Longrightarrow> path_run P (C', S)"
proof (induction wops cs C rule: exec.induct)
  case (2 d i cs s th)
  let ?r = "ow_step wops d s (th d) ! i"
  from 2(2) have i: "i < length (ow_step wops d s (th d))" by (auto simp: Let_def split: if_splits)
  then have "tunnel_step wops (sum_env tcp_env own_env) (Some d) (s, th) (fst ?r, th(d := snd ?r))"
    by (intro tunnel_step.goroutine) (metis nth_mem prod.collapse)
  with 2(3) have "path_run P ((fst ?r, th(d := snd ?r)), S)" by (blast intro: path_run.step path_step.client)
  with 2(1,2) i show ?case by (simp add: Let_def)
qed simp

lemma server_runs:
  "exec wops cs S = Some S' \<Longrightarrow> path_run P (C, S) \<Longrightarrow> path_run P (C, S')"
proof (induction wops cs S rule: exec.induct)
  case (2 d i cs s th)
  let ?r = "ow_step wops d s (th d) ! i"
  from 2(2) have i: "i < length (ow_step wops d s (th d))" by (auto simp: Let_def split: if_splits)
  then have "tunnel_step wops (sum_env tcp_env own_env) (Some d) (s, th) (fst ?r, th(d := snd ?r))"
    by (intro tunnel_step.goroutine) (metis nth_mem prod.collapse)
  with 2(3) have "path_run P (C, (fst ?r, th(d := snd ?r)))" by (blast intro: path_run.step path_step.server)
  with 2(1,2) i show ?case by (simp add: Let_def)
qed simp

text \<open>Two bytes go from the application to the destination.\<close>

definition ex_path :: "wconn tunnel \<times> wconn tunnel" where
  "ex_path = new_path (\<lambda>_. [1, 2, 3, 4]) (\<lambda>_. [1, 2, 3, 4]) ((sample_peer_socket 100)\<lparr>inq := [7, 8]\<rparr>)
     (sample_peer_socket 100) (sample_peer_socket 100) (sample_peer_socket 100) 1000 10"

definition ex_path_client :: "wconn tunnel" where
  "ex_path_client = the (exec wops [(AtoB, 0), (AtoB, 0), (AtoB, 0), (AtoB, 0), (AtoB, 0), (AtoB, 0), (AtoB, 0)] (fst ex_path))"

definition ex_path_server :: "wconn tunnel" where
  "ex_path_server = the (exec wops [(BtoA, 0), (BtoA, 0), (BtoA, 0)] (snd ex_path))"

lemmas path_eval = openTunnel_def thread_new_def Let_def ow_step_def acquireIOBuf_def src_def
  dst_def set_src_def set_dst_def read_step_def write_step_def map_result_def tcp_read_def
  tcp_write_def tcp_accept_def expired_def after_read_def after_write_def
  defaultCopyIOBufferSize_def wops_def sum_ops_def tcp_ops_def ws_ops_def

lemma ex_path_client_runs:
  "\<exists>s th c. exec wops [(AtoB, 0), (AtoB, 0), (AtoB, 0), (AtoB, 0), (AtoB, 0), (AtoB, 0), (AtoB, 0)] (fst ex_path) = Some (s, th) \<and> ex_path_client = (s, th)
     \<and> connB s = Inr c \<and> tcp_sent (tcp c) = [0x82, 0x82, 1, 2, 3, 4, 6, 10]
     \<and> (\<exists>a. connA s = Inl a \<and> tcp_recvd a = [7, 8])"
  unfolding ex_path_client_def
  by (simp add: ex_path_def new_path_def sample_peer_socket_def path_eval wrapWebSocketConn_def
      ws_write_def offer_def WriteMessage_def message_frames_def chunks_of.simps [of _ "[7, 8]"] ioSize_def
      conn_write_def ws_frame_def frame_header_def op_defs' finalBit_def maskBit_def)

definition ex_link_ready :: ws where
  "ex_link_ready = wrapWebSocketConn True (\<lambda>_. [1, 2, 3, 4])
     ((sample_peer_socket 100)\<lparr>inq := [0x82, 0x82, 1, 2, 3, 4, 6, 10], rdl := Some 1010\<rparr>)"

definition ex_path_end :: "wconn tunnel" where
  "ex_path_end = the (exec wops [(BtoA, 1), (BtoA, 0), (BtoA, 0), (BtoA, 0)] (set_link ex_link_ready ex_path_server))"

lemma ex_path_server_runs:
  "\<exists>s th w. exec wops [(BtoA, 0), (BtoA, 0), (BtoA, 0)] (snd ex_path) = Some (s, th) \<and> ex_path_server = (s, th)
     \<and> connB s = Inr w \<and> in_end (tcp w) = None \<and> tcp_recvd (tcp w) = [] \<and> inq (tcp w) = []
     \<and> ex_link_ready = w\<lparr>tcp := (tcp w)\<lparr>inq := [0x82, 0x82, 1, 2, 3, 4, 6, 10]\<rparr>\<rparr>"
  unfolding ex_path_server_def
  by (simp add: ex_path_def new_path_def sample_peer_socket_def path_eval wrapWebSocketConn_def ex_link_ready_def)

lemma ex_link_read:
  "\<exists>x w. ws_read 10 16384 ex_link_ready = [x, (([7, 8], None), w)]"
proof -
  let ?f = "\<lparr>d_final = True, d_op = BinaryMessage, d_key = [1, 2, 3, 4], d_payload = [7, 8]\<rparr>"
  let ?w = "(entered ?f [6, 10] ex_link_ready)\<lparr>hasReader := True\<rparr>"
  note defs = ex_link_ready_def wrapWebSocketConn_def sample_peer_socket_def
  have f: "readErr ex_link_ready = None" "\<not> hasReader ex_link_ready"
    "ex_link_ready\<lparr>readLength := 0\<rparr> = ex_link_ready" "read_fails 10 ex_link_ready = []"
    by (simp_all add: defs read_fails_def expired_def)
  have "advanceFrame 10 ex_link_ready = [(Inr BinaryMessage, entered ?f [6, 10] ex_link_ready)]"
    by (simp add: defs advanceFrame_def parse_header_def check_header_def payload_length_def op_defs' finalBit_def
        maskBit_def rsvBits_def maxControlFramePayloadSize_def entered_def Let_def consume_def)
  then have "wrapper_read 10 16384 ex_link_ready = wrapper_read 10 16384 ?w"
    using wrapper_read_frame [of ex_link_ready 10 16384] f by simp
  moreover have w: "readErr ?w = None" "hasReader ?w" "readRemaining ?w = 2" "inq (tcp ?w) = [6, 10]" "isServer ?w"
    "readMaskKey ?w = [1, 2, 3, 4]" "readMaskPos ?w = 0"
    by (simp_all add: entered_def defs)
  moreover have m: "maskBytes [1, 2, 3, 4] 0 (take 2 [6, 10]) = [7, 8]" by simp
  ultimately have "\<exists>x v. wrapper_read 10 16384 ex_link_ready = [x, (([7, 8], None), v)]"
    by (simp add: wrapper_read.simps [of 10 16384 ?w] take_payload_def Let_def upt_conv_Cons del: One_nat_def)
  then show ?thesis using f by (auto simp: ws_read_def Let_def)
qed

lemma ex_path_end_runs:
  "\<exists>s th d. exec wops [(BtoA, 1), (BtoA, 0), (BtoA, 0), (BtoA, 0)] (set_link ex_link_ready ex_path_server) = Some (s, th)
     \<and> ex_path_end = (s, th) \<and> connA s = Inl d \<and> tcp_sent d = [7, 8]"
proof -
  obtain x w where r: "ws_read 10 16384 ex_link_ready = [x, (([7, 8], None), w)]" using ex_link_read by blast
  show ?thesis
    unfolding ex_path_end_def ex_path_server_def
    by (simp add: ex_path_def new_path_def sample_peer_socket_def path_eval wrapWebSocketConn_def set_link_def r)
qed


end
