(* ===== verification/GoText.thy ===== *)
theory GoText
  imports Prelude
begin

text \<open>
  Characters of several bytes, as package \<^verbatim>\<open>utf8\<close> has them, and hexadecimal digits. Strings are lists of bytes.
\<close>

definition hex_val :: "char \<Rightarrow> nat option" where
  "hex_val c =
     (let n = of_char c :: nat in
      if 48 \<le> n \<and> n \<le> 57 then Some (n - 48)
      else if 97 \<le> n \<and> n \<le> 102 then Some (n - 87)
      else if 65 \<le> n \<and> n \<le> 70 then Some (n - 55) else None)"

text \<open>\<^verbatim>\<open>utf8.EncodeRune\<close> of a code point, and how many bytes a well-formed character of several bytes takes.\<close>

definition EncodeRune :: "nat \<Rightarrow> string" where
  "EncodeRune n =
     map char_of
       (if n < 128 then [n]
        else if n < 2048 then [192 + n div 64, 128 + n mod 64]
        else if n < 65536 then [224 + n div 4096, 128 + n div 64 mod 64, 128 + n mod 64]
        else [240 + n div 262144, 128 + n div 4096 mod 64, 128 + n div 64 mod 64, 128 + n mod 64])"

definition RuneError :: nat where
  "RuneError = 65533"

definition byte_at :: "string \<Rightarrow> nat \<Rightarrow> nat" where
  "byte_at s i = (if i < length s then of_char (s ! i) else 0)"

definition cont :: "string \<Rightarrow> nat \<Rightarrow> bool" where
  "cont s i \<longleftrightarrow> 128 \<le> byte_at s i \<and> byte_at s i < 192"

definition rune_len :: "string \<Rightarrow> nat" where
  "rune_len s =
     (let a = byte_at s 0; b = byte_at s 1 in
      if 194 \<le> a \<and> a < 224 \<and> cont s 1 then 2
      else if (a = 224 \<and> 160 \<le> b \<and> b < 192 \<or> 225 \<le> a \<and> a < 240 \<and> a \<noteq> 237 \<and> cont s 1 \<or> a = 237 \<and> 128 \<le> b \<and> b < 160)
        \<and> cont s 2 then 3
      else if (a = 240 \<and> 144 \<le> b \<and> b < 192 \<or> 241 \<le> a \<and> a < 244 \<and> cont s 1 \<or> a = 244 \<and> 128 \<le> b \<and> b < 144)
        \<and> cont s 2 \<and> cont s 3 then 4
      else 0)"

text \<open>
  \<^verbatim>\<open>utf8.DecodeRune\<close> of a string that is not empty: the code point and its size. A byte that is not part of a well-formed
  character is \<open>RuneError\<close>, of size 1.
\<close>

definition DecodeRune :: "string \<Rightarrow> nat \<times> nat" where
  "DecodeRune s =
     (let b = byte_at s; t = (\<lambda>i. b i - 128) in
      if b 0 < 128 then (b 0, 1)
      else if rune_len s = 2 then ((b 0 - 192) * 64 + t 1, 2)
      else if rune_len s = 3 then ((b 0 - 224) * 4096 + t 1 * 64 + t 2, 3)
      else if rune_len s = 4 then ((b 0 - 240) * 262144 + t 1 * 4096 + t 2 * 64 + t 3, 4)
      else (RuneError, 1))"

lemma DecodeRune_size: "0 < snd (DecodeRune s)"
  by (simp add: DecodeRune_def Let_def)

lemma DecodeRune_ascii: "of_char c < (128::nat) \<Longrightarrow> DecodeRune (c # s) = (of_char c, 1)"
  by (simp add: DecodeRune_def byte_at_def Let_def)

end
