(* ===== verification/WsHandshake.thy ===== *)
theory WsHandshake
  imports Deployment GoText
begin

text \<open>
  The handshake that turns an HTTP request into a WebSocket connection: \<^verbatim>\<open>Dialer.DialContext\<close> of
  \<^verbatim>\<open>src/vendor/github.com/gorilla/websocket/client.go\<close> on the client, \<^verbatim>\<open>Upgrader.Upgrade\<close> of \<^verbatim>\<open>server.go\<close> on the
  server, and the header parsing of \<^verbatim>\<open>util.go\<close>. The hash of the accept key (SHA-1 in base 64) is an argument.
\<close>

section \<open>Header values: util.go\<close>

definition isTokenOctet :: "char \<Rightarrow> bool" where
  "isTokenOctet c \<longleftrightarrow>
     (let n = of_char c :: nat in
      48 \<le> n \<and> n \<le> 57 \<or> 65 \<le> n \<and> n \<le> 90 \<or> 97 \<le> n \<and> n \<le> 122 \<or> n \<in> {33, 35, 36, 37, 38, 39, 42, 43, 45, 46, 94, 95, 96, 124, 126})"

definition skipSpace :: "string \<Rightarrow> string" where
  "skipSpace s = dropWhile (\<lambda>c. c = CHR '' '' \<or> c = CHR 0x09) s"

definition nextToken :: "string \<Rightarrow> string \<times> string" where
  "nextToken s = (takeWhile isTokenOctet s, dropWhile isTokenOctet s)"

definition fold_rune :: "nat \<Rightarrow> nat" where
  "fold_rune r = (if 65 \<le> r \<and> r \<le> 90 then r + 32 else r)"

function equalASCIIFold :: "string \<Rightarrow> string \<Rightarrow> bool" where
  "equalASCIIFold s t =
     (if s = [] \<or> t = [] then s = t
      else let (sr, m) = DecodeRune s; (tr, n) = DecodeRune t in
        if sr = tr \<or> fold_rune sr = fold_rune tr then equalASCIIFold (drop m s) (drop n t) else False)"
  by pat_completeness auto
termination
proof (relation "measure (\<lambda>(s, t). length s)", goal_cases)
  case (2 s t x sr m)
  then have "0 < m" using DecodeRune_size [of s] by (metis snd_conv)
  with 2 show ?case by (cases s) auto
qed simp

declare equalASCIIFold.simps [simp del]

lemma skipSpace_length: "length (skipSpace s) \<le> length s"
  by (simp add: skipSpace_def length_dropWhile_le)

lemma nextToken_length: "length (snd (nextToken s)) \<le> length s"
  by (simp add: nextToken_def length_dropWhile_le)

text \<open>The loop over one header value, and the loop over the values of a header.\<close>

function token_in :: "string \<Rightarrow> string \<Rightarrow> bool" where
  "token_in value s =
     (let (t, r0) = nextToken (skipSpace s); r = skipSpace r0 in
      if t = [] then False
      else if r \<noteq> [] \<and> hd r \<noteq> CHR '','' then False
      else if equalASCIIFold t value then True
      else if r = [] then False
      else token_in value (tl r))"
  by pat_completeness auto

termination
proof (relation "measure (\<lambda>(v, s). length s)", goal_cases)
  case (2 v s x t r0 r)
  have "length r \<le> length s"
    using skipSpace_length [of r0] nextToken_length [of "skipSpace s"] skipSpace_length [of s] 2(1,2,3) by (metis le_trans snd_conv)
  moreover have "r \<noteq> []" using 2 by simp
  ultimately show ?case by (cases r) simp_all
qed simp

declare token_in.simps [simp del]

type_synonym header = "(string \<times> string list) list"

definition values_of :: "header \<Rightarrow> string \<Rightarrow> string list" where
  "values_of h name = (case map_of h name of None \<Rightarrow> [] | Some vs \<Rightarrow> vs)"

definition tokenListContainsValue :: "header \<Rightarrow> string \<Rightarrow> string \<Rightarrow> bool" where
  "tokenListContainsValue h name value = list_ex (token_in value) (values_of h name)"

text \<open>\<^verbatim>\<open>Header.Get\<close>: the first value.\<close>

definition header_get :: "header \<Rightarrow> string \<Rightarrow> string" where
  "header_get h name = (case values_of h name of [] \<Rightarrow> [] | v # vs \<Rightarrow> v)"

section \<open>The server: Upgrade\<close>

record ws_request =
  rMethod :: string
  rHost :: string
  rHeader :: header

record ws_response =
  StatusCode :: nat
  pHeader :: header

definition keyGUID :: string where
  "keyGUID = ''258EAFA5-E914-47DA-95CA-C5AB0DC85B11''"

definition computeAcceptKey :: "(string \<Rightarrow> string) \<Rightarrow> string \<Rightarrow> string" where
  "computeAcceptKey hash challengeKey = hash (challengeKey @ keyGUID)"

text \<open>The host of an \<^verbatim>\<open>Origin\<close> header is what \<^verbatim>\<open>url.Parse\<close> makes of it, an argument; the program's client sends none.\<close>

definition checkSameOrigin :: "(string \<Rightarrow> string res) \<Rightarrow> ws_request \<Rightarrow> bool" where
  "checkSameOrigin origin_host r =
     (case values_of (rHeader r) ''Origin'' of
        [] \<Rightarrow> True
      | v # vs \<Rightarrow> (case origin_host v of Inl e \<Rightarrow> False | Inr h \<Rightarrow> equalASCIIFold h (rHost r)))"

text \<open>
  A refusal: the status and the reason sent to the client, or a connection that is closed without an answer.
\<close>

datatype refusal = Refusal nat string | NotHijacked gerror | SentEarly | WriteFailed gerror

definition returnError :: "nat \<Rightarrow> string \<Rightarrow> refusal + 'a" where
  "returnError status reason = Inl (Refusal status reason)"

definition badHandshake :: string where
  "badHandshake = ''websocket: the client is not using the websocket protocol: ''"

text \<open>
  \<^verbatim>\<open>Upgrade\<close> with no response header and no compression, as both servers call it. The arguments \<open>hijack\<close> and \<open>early\<close> say whether the
  HTTP server gives up the connection, and whether the client has already sent more than its request;
  \<open>write\<close> is the result of writing the response. The result is the response and the subprotocol.
\<close>

definition Upgrade ::
  "(string \<Rightarrow> string) \<Rightarrow> (string \<Rightarrow> string res) \<Rightarrow> gerror option \<Rightarrow> bool \<Rightarrow> gerror option \<Rightarrow> string list \<Rightarrow> ws_request
   \<Rightarrow> refusal + ws_response \<times> string" where
  "Upgrade hash origin_host hijack early write subprotocols r =
     (if \<not> tokenListContainsValue (rHeader r) ''Connection'' ''upgrade''
      then returnError 400 (badHandshake @ '' 'upgrade' token not found in 'Connection' header'')
      else if \<not> tokenListContainsValue (rHeader r) ''Upgrade'' ''websocket''
      then returnError 400 (badHandshake @ '' 'websocket' token not found in 'Upgrade' header'')
      else if rMethod r \<noteq> ''GET'' then returnError 405 (badHandshake @ ''request method is not GET'')
      else if \<not> tokenListContainsValue (rHeader r) ''Sec-Websocket-Version'' ''13''
      then returnError 400 ''websocket: unsupported version: 13 not found in 'Sec-Websocket-Version' header''
      else if \<not> checkSameOrigin origin_host r
      then returnError 403 ''websocket: request origin not allowed by Upgrader.CheckOrigin''
      else let key = header_get (rHeader r) ''Sec-Websocket-Key'';
               p = first_common subprotocols (Subprotocols (header_get (rHeader r) ''Sec-Websocket-Protocol'')) in
        if key = [] then returnError 400 ''websocket: not a websocket handshake: 'Sec-WebSocket-Key' header is missing or blank''
        else (case (hijack, early, write) of
          (Some e, _, _) \<Rightarrow> Inl (NotHijacked e)
        | (None, True, _) \<Rightarrow> Inl SentEarly
        | (None, False, Some e) \<Rightarrow> Inl (WriteFailed e)
        | (None, False, None) \<Rightarrow> Inr (\<lparr>StatusCode = 101,
              pHeader = [(''Upgrade'', [''websocket'']), (''Connection'', [''Upgrade'']),
                (''Sec-WebSocket-Accept'', [computeAcceptKey hash key])]
                @ (if p = [] then [] else [(''Sec-WebSocket-Protocol'', [p])])\<rparr>, p)))"

section \<open>The way of a header\<close>

text \<open>\<^verbatim>\<open>textproto.CanonicalMIMEHeaderKey\<close>: the receiver of a message knows its headers by these names.\<close>

definition to_upper :: "char \<Rightarrow> char" where
  "to_upper c = (if 97 \<le> (of_char c :: nat) \<and> of_char c \<le> (122::nat) then char_of (of_char c - 32 :: nat) else c)"

definition to_lower :: "char \<Rightarrow> char" where
  "to_lower c = (if 65 \<le> (of_char c :: nat) \<and> of_char c \<le> (90::nat) then char_of (of_char c + 32 :: nat) else c)"

fun canonical :: "bool \<Rightarrow> string \<Rightarrow> string" where
  "canonical first [] = []"
| "canonical first (c # s) = (if first then to_upper c else to_lower c) # canonical (c = CHR ''-'') s"

declare canonical.simps [simp del]

definition received :: "header \<Rightarrow> header" where
  "received h = map (\<lambda>(k, vs). (canonical True k, vs)) h"

section \<open>The client: DialContext\<close>

text \<open>
  \<^verbatim>\<open>url.Parse\<close> of a URL with a scheme and an authority, as the program builds it: no control characters; a fragment and a
  query are cut off, what stands before the path is the authority, and its host is checked as by \<^verbatim>\<open>parseHost\<close> and
  \<^verbatim>\<open>unescape\<close>. An authority with a user is refused by the parser or by the dialer.
\<close>

definition errMalformedURL :: gerror where "errMalformedURL = NewError ''malformed ws or wss URL''"
definition errURL :: gerror where "errURL = NewError ''net/url: invalid URL''"

definition validOptionalPort :: "string \<Rightarrow> bool" where
  "validOptionalPort p \<longleftrightarrow> p = [] \<or> hd p = CHR '':'' \<and> list_all is_digit (tl p)"

definition host_octet :: "char \<Rightarrow> bool" where
  "host_octet c \<longleftrightarrow>
     (let n = of_char c :: nat in
      128 \<le> n \<or> 48 \<le> n \<and> n \<le> 57 \<or> 65 \<le> n \<and> n \<le> 90 \<or> 97 \<le> n \<and> n \<le> 122
      \<or> c \<in> set ''-_.~!$&()*+,;=:[]<>'' \<or> n = 34 \<or> n = 39)"

text \<open>\<^verbatim>\<open>unescape\<close> in the modes \<^verbatim>\<open>encodeHost\<close> and (\<open>zone\<close>) \<^verbatim>\<open>encodeZone\<close>.\<close>

fun unescape_host :: "bool \<Rightarrow> string \<Rightarrow> string option" where
  "unescape_host zone [] = Some []"
| "unescape_host zone (c # s) =
     (if c = CHR ''%'' then
        (case s of
           a # b # r \<Rightarrow>
             (case (hex_val a, hex_val b) of
                (Some x, Some y) \<Rightarrow>
                  (let d = char_of (x * 16 + y) in
                   if \<not> zone \<and> x < 8 \<and> \<not> (a = CHR ''2'' \<and> b = CHR ''5'') then None
                   else if zone \<and> \<not> (a = CHR ''2'' \<and> b = CHR ''5'') \<and> d \<noteq> CHR '' '' \<and> \<not> host_octet d then None
                   else map_option ((#) d) (unescape_host zone r))
              | _ \<Rightarrow> None)
         | _ \<Rightarrow> None)
      else if \<not> host_octet c then None
      else map_option ((#) c) (unescape_host zone s))"

fun find_zone :: "string \<Rightarrow> nat option" where
  "find_zone [] = None"
| "find_zone (c # s) = (if hasPrefix (c # s) ''%25'' then Some 0 else map_option Suc (find_zone s))"

definition parseHost :: "string \<Rightarrow> string option" where
  "parseHost h =
     (if hasPrefix h ''['' then
        (case last_index_byte CHR '']'' h of
           None \<Rightarrow> None
         | Some i \<Rightarrow>
             if \<not> validOptionalPort (drop (Suc i) h) then None
             else (case find_zone (take i h) of
                 Some z \<Rightarrow>
                   (case (unescape_host False (take z h), unescape_host True (take (i - z) (drop z h)), unescape_host False (drop i h)) of
                      (Some a, Some b, Some c) \<Rightarrow> Some (a @ b @ c)
                    | _ \<Rightarrow> None)
               | None \<Rightarrow> unescape_host False h))
      else (case last_index_byte CHR '':'' h of
          Some i \<Rightarrow> if validOptionalPort (drop i h) then unescape_host False h else None
        | None \<Rightarrow> unescape_host False h))"

text \<open>An escape in the path or the fragment needs two hexadecimal digits.\<close>

fun escapes_ok :: "string \<Rightarrow> bool" where
  "escapes_ok [] = True"
| "escapes_ok (c # s) =
     (if c = CHR ''%'' then (case s of a # b # r \<Rightarrow> hex_val a \<noteq> None \<and> hex_val b \<noteq> None \<and> escapes_ok r | _ \<Rightarrow> False)
      else escapes_ok s)"

definition url_host :: "string \<Rightarrow> string res" where
  "url_host url =
     (let v = takeWhile (\<lambda>c. c \<noteq> CHR ''#'') url; frag = dropWhile (\<lambda>c. c \<noteq> CHR ''#'') url;
          u = takeWhile (\<lambda>c. c \<noteq> CHR ''?'') v;
          rest = (if hasPrefix u ''wss://'' then Some (drop 6 u) else if hasPrefix u ''ws://'' then Some (drop 5 u) else None) in
      if list_ex (\<lambda>c. of_char c < (32::nat) \<or> of_char c = (127::nat)) v \<or> \<not> escapes_ok frag then Inl errURL
      else (case rest of
          None \<Rightarrow> Inl errMalformedURL
        | Some r \<Rightarrow>
            (let authority = takeWhile (\<lambda>c. c \<noteq> CHR ''/'') r in
             if CHR ''@'' \<in> set authority then Inl errMalformedURL
             else if \<not> escapes_ok (dropWhile (\<lambda>c. c \<noteq> CHR ''/'') r) then Inl errURL
             else (case parseHost authority of None \<Rightarrow> Inl errURL | Some h \<Rightarrow> Inr h))))"

text \<open>
  The request of a dialer with the given key, without further headers, as \<^verbatim>\<open>dialWebsocketConn\<close> asks for it; and what the dialer makes of the
  response, as received: the subprotocol, or \<^verbatim>\<open>ErrBadHandshake\<close>.
\<close>

definition dial_request :: "string \<Rightarrow> wsDialer \<Rightarrow> string \<Rightarrow> ws_request res" where
  "dial_request key d url =
     and_then (url_host url) (\<lambda>host. Inr
       \<lparr>rMethod = ''GET'', rHost = host,
        rHeader = [(''Upgrade'', [''websocket'']), (''Connection'', [''Upgrade'']), (''Sec-WebSocket-Key'', [key]),
          (''Sec-WebSocket-Version'', [''13''])]
          @ (if ws_Subprotocols d = [] then [] else [(''Sec-WebSocket-Protocol'', [join_comma (ws_Subprotocols d)])])\<rparr>)"

definition errBadHandshake :: gerror where "errBadHandshake = NewError ''websocket: bad handshake''"

text \<open>\<^verbatim>\<open>strings.EqualFold\<close> with a name in ASCII, to whose letters \<^verbatim>\<open>k\<close> and \<^verbatim>\<open>s\<close> the letters \<^verbatim>\<open>U+212A\<close> and \<^verbatim>\<open>U+017F\<close> are also equal.\<close>

definition fold_wide :: "nat \<Rightarrow> nat" where
  "fold_wide r = (if r = 383 then 115 else if r = 8490 then 107 else fold_rune r)"

function runes :: "string \<Rightarrow> nat list" where
  "runes s = (if s = [] then [] else fst (DecodeRune s) # runes (drop (snd (DecodeRune s)) s))"
  by pat_completeness auto
termination
proof (relation "measure length", goal_cases)
  case (2 s)
  then show ?case using DecodeRune_size [of s] by (cases s) auto
qed simp

declare runes.simps [simp del]

definition EqualFold :: "string \<Rightarrow> string \<Rightarrow> bool" where
  "EqualFold s t \<longleftrightarrow> map fold_wide (runes s) = map fold_wide (runes t)"

definition dial_accepts :: "(string \<Rightarrow> string) \<Rightarrow> string \<Rightarrow> nat \<Rightarrow> header \<Rightarrow> string res" where
  "dial_accepts hash key status h =
     (if status \<noteq> 101 \<or> \<not> EqualFold (header_get h ''Upgrade'') ''websocket'' \<or> \<not> EqualFold (header_get h ''Connection'') ''upgrade''
        \<or> header_get h ''Sec-Websocket-Accept'' \<noteq> computeAcceptKey hash key
      then Inl errBadHandshake else Inr (header_get h ''Sec-Websocket-Protocol''))"

section \<open>The program's own handshake\<close>

lemma canonical_names:
  "canonical True ''Upgrade'' = ''Upgrade''" "canonical True ''Connection'' = ''Connection''"
  "canonical True ''Sec-WebSocket-Key'' = ''Sec-Websocket-Key''" "canonical True ''Sec-WebSocket-Version'' = ''Sec-Websocket-Version''"
  "canonical True ''Sec-WebSocket-Protocol'' = ''Sec-Websocket-Protocol''"
  "canonical True ''Sec-WebSocket-Accept'' = ''Sec-Websocket-Accept''"
  by code_simp+

lemma program_tokens:
  "token_in ''upgrade'' ''Upgrade''" "token_in ''websocket'' ''websocket''" "token_in ''13'' ''13''"
  by code_simp+

lemma program_folds: "EqualFold ''websocket'' ''websocket''" "EqualFold ''Upgrade'' ''upgrade''"
  by code_simp+

lemma takeWhile_name: "list_all P h \<Longrightarrow> \<not> P c \<Longrightarrow> takeWhile P (h @ c # r) = h \<and> dropWhile P (h @ c # r) = c # r"
  by (induction h) auto

text \<open>A server name that a URL can carry: a host name or an IPv4 address, without a port.\<close>

definition url_name :: "string \<Rightarrow> bool" where
  "url_name h \<longleftrightarrow> list_all (\<lambda>c. host_octet c \<and> c \<notin> {CHR '':'', CHR ''[''}) h"

lemma unescape_name: "list_all host_octet h \<Longrightarrow> unescape_host z h = Some h"
  by (induction h) (auto simp: host_octet_def Let_def)

lemma escapes_ok_plain: "CHR ''%'' \<notin> set p \<Longrightarrow> escapes_ok p"
  by (induction p) auto

lemma parseHost_name:
  assumes "url_name h"
  shows "parseHost h = Some h"
proof -
  have "CHR '':'' \<notin> set h" "\<not> hasPrefix h ''[''" using assms by (cases h; force simp: url_name_def list_all_iff)+
  moreover have "list_all host_octet h" using assms by (auto simp: url_name_def list_all_iff)
  ultimately show ?thesis by (simp add: parseHost_def unescape_name flip: last_index_byte_None)
qed

definition no_control :: "string \<Rightarrow> bool" where
  "no_control s \<longleftrightarrow> list_all (\<lambda>c. 32 \<le> (of_char c :: nat) \<and> of_char c \<noteq> (127::nat)) s"

lemma takeWhile_through: "c \<notin> set h \<Longrightarrow> takeWhile (\<lambda>x. x \<noteq> c) (h @ r) = h @ takeWhile (\<lambda>x. x \<noteq> c) r"
  by (induction h) auto

lemma dropWhile_through: "c \<notin> set h \<Longrightarrow> dropWhile (\<lambda>x. x \<noteq> c) (h @ r) = dropWhile (\<lambda>x. x \<noteq> c) r"
  by (induction h) auto

lemma While_all: "c \<notin> set p \<Longrightarrow> takeWhile (\<lambda>x. x \<noteq> c) p = p" "c \<notin> set p \<Longrightarrow> dropWhile (\<lambda>x. x \<noteq> c) p = []"
  by (induction p) auto

lemma name_octets:
  assumes "list_all host_octet h"
  shows "CHR ''#'' \<notin> set h" "CHR ''?'' \<notin> set h" "CHR ''/'' \<notin> set h" "CHR ''@'' \<notin> set h" "no_control h"
proof -
  have "\<not> host_octet CHR ''#''" "\<not> host_octet CHR ''?''" "\<not> host_octet CHR ''/''" "\<not> host_octet CHR ''@''"
    by (simp_all add: host_octet_def Let_def)
  then show "CHR ''#'' \<notin> set h" "CHR ''?'' \<notin> set h" "CHR ''/'' \<notin> set h" "CHR ''@'' \<notin> set h"
    using assms by (metis list_all_iff)+
  have "32 \<le> (of_char c :: nat) \<and> of_char c \<noteq> (127::nat)" if "host_octet c" for c
    using that by (auto simp: host_octet_def Let_def)
  then show "no_control h" using assms by (auto simp: no_control_def list_all_iff)
qed

text \<open>The URL of a client: its path starts with a slash.\<close>

lemma url_host_program:
  assumes "list_all host_octet h"
  shows "url_host (''wss://'' @ h @ CHR ''/'' # path) =
     (if no_control (takeWhile (\<lambda>c. c \<noteq> CHR ''#'') path) \<and> escapes_ok (dropWhile (\<lambda>c. c \<noteq> CHR ''#'') path)
         \<and> escapes_ok (takeWhile (\<lambda>c. c \<noteq> CHR ''?'') (takeWhile (\<lambda>c. c \<noteq> CHR ''#'') path))
      then (case parseHost h of None \<Rightarrow> Inl errURL | Some x \<Rightarrow> Inr x) else Inl errURL)"
  using name_octets [OF assms]
  by (auto simp: url_host_def Let_def takeWhile_through dropWhile_through no_control_def list_all_iff list_ex_iff not_le split: option.splits)

lemma client_url:
  assumes "NewClient c r = (Inr cl, c', r')"
  obtains p where "wssURL cl = ''wss://'' @ ClientConfig.ServerName c' @ CHR ''/'' # p"
    "ClientConfig.WSSPath c = CHR ''/'' # p \<or> ClientConfig.WSSPath c = p"
    "ws_Subprotocols (wsDialer cl) = [if ClientConfig.EnableMux c then websocketSubprotocolSmuxON else websocketSubprotocolSmuxOFF]"
  using assms by (auto simp: NewClient_defs hasPrefix_slash split: sum.splits if_splits)


text \<open>
  C24: A client without a server name cannot open a WebSocket to a server it knows by an IPv6 address. \<^verbatim>\<open>NewClient\<close> takes the name from the
  remote address and puts it into the URL without its brackets, so that what follows the last colon is read as a port:
  unless that is a decimal number, \<^verbatim>\<open>url.Parse\<close> refuses the URL at every dial.
\<close>

theorem ipv6_wss_never_dials:
  assumes "NewClient c r = (Inr cl, c', r')" "ClientConfig.ServerName c = []" "ClientConfig.RemoteAddr c = JoinHostPort h port"
    and "clean_host h" "clean_port port" "h = g @ CHR '':'' # t" "CHR '':'' \<notin> set t" "\<not> list_all is_digit t" "list_all host_octet h"
  shows "dial_request key (wsDialer cl) (wssURL cl) = Inl errURL"
proof -
  have name: "ClientConfig.ServerName c' = h"
    using NewClient_result [OF assms(1)] assms(2-5) SplitHostPort_JoinHostPort [of h port] by auto
  obtain p where url: "wssURL cl = ''wss://'' @ h @ CHR ''/'' # p" using client_url [OF assms(1)] name by metis
  have i: "last_index_byte CHR '':'' h = Some (length g)"
    using assms(6,7) by (simp add: last_index_byte_append)
  have "\<not> hasPrefix h ''[''" using assms(4) by (cases h) (auto simp: clean_host_def)
  moreover have "\<not> validOptionalPort (drop (length g) h)" using assms(6,8) by (simp add: validOptionalPort_def)
  ultimately have "parseHost h = None" by (simp add: parseHost_def i)
  then have "url_host (wssURL cl) = Inl errURL" unfolding url url_host_program [OF assms(9)] by simp
  then show ?thesis by (simp add: dial_request_def)
qed

section \<open>Two clients\<close>


lemma ipv6_wss_never_dials_witness:
  "\<exists>cl c' r'. NewClient (sample_client\<lparr>ClientConfig.RemoteAddr := ''[2001:db8::a]:443''\<rparr>) None = (Inr cl, c', r')
    \<and> dial_request ''key'' (wsDialer cl) (wssURL cl) = Inl errURL"
proof -
  let ?c = "sample_client\<lparr>ClientConfig.RemoteAddr := ''[2001:db8::a]:443''\<rparr>" and ?h = "''2001:db8::a''"
  have clean: "clean_host ?h" "clean_port ''443''" by (simp_all add: clean_host_def clean_port_def)
  have j: "''[2001:db8::a]:443'' = JoinHostPort ?h ''443''" by (simp add: JoinHostPort_def)
  have "SplitHostPort ''[2001:db8::a]:443'' = Inr (?h, ''443'')" unfolding j by (rule SplitHostPort_JoinHostPort [OF clean])
  then obtain cl c' r' where new: "NewClient ?c None = (Inr cl, c', r')"
    by (simp add: NewClient_defs sample_client_def sample_client_addresses defaultSmuxMaxStream_def hasPrefix_def)
  have "ClientConfig.ServerName ?c = []" "ClientConfig.RemoteAddr ?c = JoinHostPort ?h ''443''"
    by (simp_all add: sample_client_def j)
  from ipv6_wss_never_dials [OF new this clean, of "''2001:db8:''" "''a''" "''key''"] new show ?thesis
    by (simp add: is_digit_def host_octet_def)
qed

end
