(* ===== verification/MuJson.thy ===== *)
theory MuJson
  imports MuServer GoText
begin

text \<open>
  How the controller of the multi-user server reads a command: \<^verbatim>\<open>json.Unmarshal\<close> of package \<^verbatim>\<open>encoding/json\<close>
  (Go 1.13) into a fresh \<^verbatim>\<open>MUCmd\<close>, which is the parameter \<open>unmarshal\<close> of \<open>MuServer\<close>. The text is parsed into a
  value of type \<open>json\<close>, or refused; the value is then stored into the struct field by field.
\<close>

section \<open>Lexical elements\<close>

definition json_space :: "char \<Rightarrow> bool" where
  "json_space c \<longleftrightarrow> of_char c \<in> {9, 10, 13, 32 :: nat}"

definition skip_space :: "string \<Rightarrow> string" where
  "skip_space s = dropWhile json_space s"

text \<open>\<^verbatim>\<open>getu4\<close>: the value of \<^verbatim>\<open>\uXXXX\<close> at the head of the text.\<close>

definition hex4 :: "string \<Rightarrow> nat option" where
  "hex4 s =
     (if length s < 4 then None
      else (case (hex_val (s ! 0), hex_val (s ! 1), hex_val (s ! 2), hex_val (s ! 3)) of
          (Some a, Some b, Some c, Some d) \<Rightarrow> Some (((a * 16 + b) * 16 + c) * 16 + d)
        | _ \<Rightarrow> None))"

definition getu4 :: "string \<Rightarrow> nat option" where
  "getu4 s = (if take 2 s = [CHR 0x5C, CHR ''u''] then hex4 (drop 2 s) else None)"

definition simple_escape :: "char \<Rightarrow> char option" where
  "simple_escape c =
     (if c = CHR 0x22 \<or> c = CHR 0x5C \<or> c = CHR ''/'' then Some c
      else if c = CHR ''b'' then Some (char_of (8::nat)) else if c = CHR ''f'' then Some (char_of (12::nat))
      else if c = CHR ''n'' then Some (char_of (10::nat)) else if c = CHR ''r'' then Some (char_of (13::nat))
      else if c = CHR ''t'' then Some (char_of (9::nat)) else None)"

text \<open>
  The rest of a string literal, after its opening quote, and what follows it. A surrogate that is not the first of
  a pair, and a byte that is not part of a well-formed character, become the replacement character.
\<close>

definition surrogate :: "nat \<Rightarrow> bool" where
  "surrogate n \<longleftrightarrow> 55296 \<le> n \<and> n < 57344"

definition pair_rune :: "nat \<Rightarrow> nat option \<Rightarrow> nat option" where
  "pair_rune n m =
     (case m of
        Some k \<Rightarrow> if n < 56320 \<and> 56320 \<le> k \<and> k < 57344 then Some ((n - 55296) * 1024 + (k - 56320) + 65536) else None
      | None \<Rightarrow> None)"

definition prefix_str :: "string \<Rightarrow> (string \<times> string) option \<Rightarrow> (string \<times> string) option" where
  "prefix_str t = map_option (\<lambda>(u, r). (t @ u, r))"

function json_str :: "string \<Rightarrow> (string \<times> string) option" where
  "json_str [] = None"
| "json_str (c # s) =
     (if c = CHR 0x22 then Some ([], s)
      else if c = CHR 0x5C then
        (case getu4 (c # s) of
           Some n \<Rightarrow>
             (if \<not> surrogate n then prefix_str (EncodeRune n) (json_str (drop 5 s))
              else (case pair_rune n (getu4 (drop 5 s)) of
                  Some k \<Rightarrow> prefix_str (EncodeRune k) (json_str (drop 11 s))
                | None \<Rightarrow> prefix_str (EncodeRune RuneError) (json_str (drop 5 s))))
         | None \<Rightarrow>
             (case s of [] \<Rightarrow> None
              | e # s1 \<Rightarrow> (case simple_escape e of Some d \<Rightarrow> prefix_str [d] (json_str s1) | None \<Rightarrow> None)))
      else if of_char c < (32::nat) then None
      else if of_char c < (128::nat) then prefix_str [c] (json_str s)
      else if rune_len (c # s) = 0 then prefix_str (EncodeRune RuneError) (json_str s)
      else prefix_str (take (rune_len (c # s)) (c # s)) (json_str (drop (rune_len (c # s) - 1) s)))"
  by pat_completeness auto
termination
  by (relation "measure length") auto

declare json_str.simps(2) [simp del]

text \<open>A number literal, with its sign, fraction and exponent.\<close>

definition span_digits :: "string \<Rightarrow> string \<times> string" where
  "span_digits s = (takeWhile is_digit s, dropWhile is_digit s)"

definition num_sign :: "string \<Rightarrow> string \<times> string" where
  "num_sign s = (if s \<noteq> [] \<and> hd s = CHR ''-'' then ([hd s], tl s) else ([], s))"

definition num_int :: "string \<Rightarrow> string \<times> string" where
  "num_int s = (if s \<noteq> [] \<and> hd s = CHR ''0'' then ([hd s], tl s) else span_digits s)"

definition num_frac :: "string \<Rightarrow> (string \<times> string) option" where
  "num_frac s =
     (if s \<noteq> [] \<and> hd s = CHR ''.'' then
        (case span_digits (tl s) of (d, r) \<Rightarrow> if d = [] then None else Some (hd s # d, r))
      else Some ([], s))"

definition num_exp :: "string \<Rightarrow> (string \<times> string) option" where
  "num_exp s =
     (if s \<noteq> [] \<and> (hd s = CHR ''e'' \<or> hd s = CHR ''E'') then
        (let (g, r) = (if tl s \<noteq> [] \<and> (hd (tl s) = CHR ''+'' \<or> hd (tl s) = CHR ''-'') then ([hd (tl s)], tl (tl s)) else ([], tl s));
             (d, r1) = span_digits r in
         if d = [] then None else Some (hd s # g @ d, r1))
      else Some ([], s))"

definition json_num :: "string \<Rightarrow> (string \<times> string) option" where
  "json_num s =
     (let (g, r) = num_sign s; (i, r1) = num_int r in
      if i = [] then None
      else (case num_frac r1 of None \<Rightarrow> None
        | Some (f, r2) \<Rightarrow> (case num_exp r2 of None \<Rightarrow> None | Some (e, r3) \<Rightarrow> Some (g @ i @ f @ e, r3))))"

section \<open>Values\<close>

datatype json =
    JNull
  | JBool bool
  | JNum string
  | JStr string
  | JArr "json list"
  | JObj "(string \<times> json) list"

definition literal :: "string \<Rightarrow> (json \<times> string) option" where
  "literal s =
     (if hasPrefix s ''null'' then Some (JNull, drop 4 s)
      else if hasPrefix s ''true'' then Some (JBool True, drop 4 s)
      else if hasPrefix s ''false'' then Some (JBool False, drop 5 s)
      else map_option (\<lambda>(l, r). (JNum l, r)) (json_num s))"

definition starts :: "char \<Rightarrow> string \<Rightarrow> bool" where
  "starts c s \<longleftrightarrow> s \<noteq> [] \<and> hd s = c"

lemma skip_space_length: "length (skip_space s) \<le> length s"
  by (simp add: skip_space_def length_dropWhile_le)

lemma skip_tl: "skip_space s \<noteq> [] \<Longrightarrow> Suc (2 * length (skip_space (tl (skip_space s)))) < 2 * length s"
  using skip_space_length [of s] skip_space_length [of "tl (skip_space s)"] by (cases "skip_space s") auto

lemma skip_less:
  "length b < length s \<Longrightarrow> length (skip_space b) - Suc 0 < length s"
  "length b < length s \<Longrightarrow> 2 * (length (skip_space b) - Suc 0) < Suc (2 * length s)"
  using skip_space_length [of b] by linarith+

text \<open>
  A value, the elements of an array up to its bracket, the members of an object up to its brace. What is
  left is always shorter; the tests for that are never false and only serve the recursion.
\<close>

function pvalue :: "string \<Rightarrow> (json \<times> string) option"
  and pelems :: "string \<Rightarrow> (json list \<times> string) option"
  and pmembers :: "string \<Rightarrow> ((string \<times> json) list \<times> string) option" where
  "pvalue s =
     (let t = skip_space s; r = skip_space (tl t) in
      if t = [] then None
      else if hd t = CHR ''{'' then
        (if starts CHR ''}'' r then Some (JObj [], tl r) else map_option (\<lambda>(m, r1). (JObj m, r1)) (pmembers r))
      else if hd t = CHR ''['' then
        (if starts CHR '']'' r then Some (JArr [], tl r) else map_option (\<lambda>(v, r1). (JArr v, r1)) (pelems r))
      else if hd t = CHR 0x22 then map_option (\<lambda>(u, r1). (JStr u, r1)) (json_str (tl t))
      else literal t)"
| "pelems s =
     (case pvalue s of None \<Rightarrow> None
      | Some (v, r) \<Rightarrow>
          (let t = skip_space r in
           if \<not> length r < length s then None
           else if starts CHR '']'' t then Some ([v], tl t)
           else if starts CHR '','' t then map_option (\<lambda>(vs, r1). (v # vs, r1)) (pelems (tl t)) else None))"
| "pmembers s =
     (let t = skip_space s in
      if \<not> starts CHR 0x22 t then None
      else (case json_str (tl t) of None \<Rightarrow> None
        | Some (k, r) \<Rightarrow>
            (let t1 = skip_space r in
             if \<not> starts CHR '':'' t1 \<or> \<not> length r < length s then None
             else (case pvalue (tl t1) of None \<Rightarrow> None
               | Some (v, r1) \<Rightarrow>
                   (let t2 = skip_space r1 in
                    if \<not> length r1 < length s then None
                    else if starts CHR ''}'' t2 then Some ([(k, v)], tl t2)
                    else if starts CHR '','' t2 then map_option (\<lambda>(m, r2). ((k, v) # m, r2)) (pmembers (tl t2))
                    else None)))))"
  by pat_completeness auto

termination
  by (relation "measure (\<lambda>x. case x of Inl s \<Rightarrow> 2 * length s | Inr (Inl s) \<Rightarrow> 2 * length s + 1 | Inr (Inr s) \<Rightarrow> 2 * length s + 1)")
    (auto simp: skip_tl skip_less)

declare pvalue.simps [simp del] pelems.simps [simp del] pmembers.simps [simp del]

section \<open>Storing a value\<close>

text \<open>
  The field a key names: its own name, or one that differs from it in case only. In a name with an \<^verbatim>\<open>s\<close> the
  letter \<^verbatim>\<open>U+017F\<close> (a long s) also counts as \<^verbatim>\<open>s\<close>. No two fields of one struct match the same key.
\<close>

fun equal_fold :: "string \<Rightarrow> string \<Rightarrow> bool" where
  "equal_fold [] t = (t = [])"
| "equal_fold (c # s) t =
     (case t of [] \<Rightarrow> False
      | d # t1 \<Rightarrow>
          if d = c \<or> of_char c - 32 = (of_char d :: nat) \<and> 97 \<le> (of_char c :: nat) \<and> of_char c \<le> (122::nat) then equal_fold s t1
          else c = CHR ''s'' \<and> take 2 t = [char_of (197::nat), char_of (191::nat)] \<and> equal_fold s (drop 2 t))"

text \<open>\<^verbatim>\<open>strconv.ParseInt(s, 10, 64)\<close> of a number literal; a fraction or an exponent is an error.\<close>

definition parse_decimal :: "string \<Rightarrow> int option" where
  "parse_decimal l =
     (let (g, d) = num_sign l; n = (if g = [] then int (undigits d) else - int (undigits d)) in
      if d \<noteq> [] \<and> list_all is_digit d \<and> - (2 ^ 63) \<le> n \<and> n < 2 ^ 63 then Some n else None)"

text \<open>
  Each function stores a value over the old one; \<open>None\<close> is an \<^verbatim>\<open>UnmarshalTypeError\<close>, which becomes the result of the whole call. A
  \<^verbatim>\<open>null\<close> leaves a number, a string or a struct as it is.
\<close>

definition put_int :: "json \<Rightarrow> int \<Rightarrow> int option" where
  "put_int v old = (case v of JNull \<Rightarrow> Some old | JNum l \<Rightarrow> parse_decimal l | _ \<Rightarrow> None)"

definition put_string :: "json \<Rightarrow> string \<Rightarrow> string option" where
  "put_string v old = (case v of JNull \<Rightarrow> Some old | JStr s \<Rightarrow> Some s | _ \<Rightarrow> None)"

fun put_members :: "('a \<Rightarrow> string \<Rightarrow> json \<Rightarrow> 'a option) \<Rightarrow> (string \<times> json) list \<Rightarrow> 'a \<Rightarrow> 'a option" where
  "put_members f [] a = Some a"
| "put_members f ((k, v) # ms) a = (case f a k v of None \<Rightarrow> None | Some b \<Rightarrow> put_members f ms b)"

definition put_struct :: "('a \<Rightarrow> string \<Rightarrow> json \<Rightarrow> 'a option) \<Rightarrow> json \<Rightarrow> 'a \<Rightarrow> 'a option" where
  "put_struct f v a = (case v of JNull \<Rightarrow> Some a | JObj ms \<Rightarrow> put_members f ms a | _ \<Rightarrow> None)"

definition Args_field :: "Args \<Rightarrow> string \<Rightarrow> json \<Rightarrow> Args option" where
  "Args_field a k v =
     (if equal_fold ''path'' k then map_option (\<lambda>s. a\<lparr>Path := s\<rparr>) (put_string v (Path a))
      else if equal_fold ''dst'' k then map_option (\<lambda>s. a\<lparr>Dst := s\<rparr>) (put_string v (Dst a))
      else Some a)"

text \<open>
  A slice is the array behind it, as far as it was ever written, and its length. An array is stored element by element
  over what is there, so that a second \<^verbatim>\<open>args_bunch\<close> in a command changes the elements of the first; \<^verbatim>\<open>null\<close> and the empty array
  drop them.
\<close>

definition no_args :: Args where
  "no_args = \<lparr>Path = [], Dst = []\<rparr>"

fun put_elems :: "json list \<Rightarrow> Args list \<Rightarrow> Args list option" where
  "put_elems [] as = Some as"
| "put_elems (v # vs) as =
     (case put_struct Args_field v (if as = [] then no_args else hd as) of None \<Rightarrow> None
      | Some a \<Rightarrow> map_option ((#) a) (put_elems vs (tl as)))"

definition put_slice :: "json \<Rightarrow> Args list \<times> nat \<Rightarrow> (Args list \<times> nat) option" where
  "put_slice v old =
     (case v of
        JNull \<Rightarrow> Some ([], 0)
      | JArr vs \<Rightarrow> (if vs = [] then Some ([], 0) else map_option (\<lambda>as. (as, length vs)) (put_elems vs (fst old)))
      | _ \<Rightarrow> None)"

type_synonym cmd_state = "int \<times> (Args list \<times> nat)"

definition MUCmd_field :: "cmd_state \<Rightarrow> string \<Rightarrow> json \<Rightarrow> cmd_state option" where
  "MUCmd_field c k v =
     (if equal_fold ''opt'' k then map_option (\<lambda>n. (n, snd c)) (put_int v (fst c))
      else if equal_fold ''args_bunch'' k then map_option (\<lambda>sl. (fst c, sl)) (put_slice v (snd c))
      else Some c)"

section \<open>json.Unmarshal\<close>

definition text_of :: "byte list \<Rightarrow> string" where
  "text_of bs = map (\<lambda>b. char_of (unat b)) bs"

definition errSyntax :: gerror where "errSyntax = NewError ''invalid JSON''"
definition errType :: gerror where "errType = NewError ''cannot unmarshal into Go value''"

definition parse_json :: "string \<Rightarrow> json option" where
  "parse_json s = (case pvalue s of None \<Rightarrow> None | Some (v, r) \<Rightarrow> if skip_space r = [] then Some v else None)"

definition unmarshal_MUCmd :: "byte list \<Rightarrow> MUCmd res" where
  "unmarshal_MUCmd bs =
     (case parse_json (text_of bs) of
        None \<Rightarrow> Inl errSyntax
      | Some v \<Rightarrow>
          (case put_struct MUCmd_field v (0, [], 0) of
             None \<Rightarrow> Inl errType
           | Some (n, as, k) \<Rightarrow> Inr \<lparr>Opt = n, ArgsBunch = take k as\<rparr>))"

text \<open>The handler of the controller.\<close>

definition Controller_ServeHTTP :: "request \<Rightarrow> mux \<Rightarrow> mux \<times> string option" where
  "Controller_ServeHTTP = MU_ServeHTTP unmarshal_MUCmd"

section \<open>Reading what was written\<close>

text \<open>
  A value as text, with any white space between the tokens. Numbers are integers, strings are in ASCII
  and escaped as \<open>json_string\<close> does it.
\<close>

definition ascii :: "string \<Rightarrow> bool" where
  "ascii s \<longleftrightarrow> list_all (\<lambda>c. of_char c < (128::nat)) s"

definition comma_list :: "string list \<Rightarrow> string" where
  "comma_list = join_with CHR '',''"

fun show_json :: "string \<Rightarrow> json \<Rightarrow> string" where
  "show_json w JNull = ''null''"
| "show_json w (JBool b) = (if b then ''true'' else ''false'')"
| "show_json w (JNum l) = l"
| "show_json w (JStr s) = json_string s"
| "show_json w (JArr vs) = ''['' @ comma_list (map (\<lambda>v. w @ show_json w v @ w) vs) @ '']''"
| "show_json w (JObj ms) = ''{'' @ comma_list (map (\<lambda>(k, v). w @ json_string k @ w @ '':'' @ w @ show_json w v @ w) ms) @ ''}''"

fun plain :: "json \<Rightarrow> bool" where
  "plain (JNum l) \<longleftrightarrow> (\<exists>i. l = itoa i)"
| "plain (JStr s) \<longleftrightarrow> ascii s"
| "plain (JArr vs) \<longleftrightarrow> (\<forall>v \<in> set vs. plain v)"
| "plain (JObj ms) \<longleftrightarrow> (\<forall>(k, v) \<in> set ms. ascii k \<and> plain v)"
| "plain v \<longleftrightarrow> True"

lemma prefix_str_Some [simp]: "prefix_str t (Some (u, r)) = Some (t @ u, r)"
  by (simp add: prefix_str_def)

text \<open>Strings.\<close>

lemma hex_val_digit: "n < 16 \<Longrightarrow> hex_val (hex_digit n) = Some n"
  by (auto simp: hex_val_def hex_digit_def Let_def)

lemma json_char_read:
  assumes "of_char c < (128::nat)"
  shows "json_str (json_char c @ r) = prefix_str [c] (json_str r)"
proof -
  let ?n = "of_char c :: nat"
  have self: "char_of ?n = c" by simp
  consider "c = CHR 0x22 \<or> c = CHR 0x5C" | "?n = 10" | "?n = 13" | "?n = 9"
    | "c \<noteq> CHR 0x22" "c \<noteq> CHR 0x5C" "?n \<noteq> 10" "?n \<noteq> 13" "?n \<noteq> 9" "?n < 32 \<or> c = CHR ''<'' \<or> c = CHR ''>'' \<or> c = CHR ''&''"
    | "c \<noteq> CHR 0x22" "c \<noteq> CHR 0x5C" "?n \<noteq> 10" "?n \<noteq> 13" "?n \<noteq> 9" "\<not> (?n < 32 \<or> c = CHR ''<'' \<or> c = CHR ''>'' \<or> c = CHR ''&'')"
    by blast
  then show ?thesis
  proof cases
    case 1
    then show ?thesis by (auto simp: json_char_def Let_def json_str.simps(2) getu4_def simple_escape_def)
  next
    case 2
    then have "char_of (10::nat) = c" using self by simp
    with 2 show ?thesis by (auto simp: json_char_def Let_def json_str.simps(2) getu4_def simple_escape_def)
  next
    case 3
    then have "char_of (13::nat) = c" using self by simp
    with 3 show ?thesis by (auto simp: json_char_def Let_def json_str.simps(2) getu4_def simple_escape_def)
  next
    case 4
    then have "char_of (9::nat) = c" using self by simp
    with 4 show ?thesis by (auto simp: json_char_def Let_def json_str.simps(2) getu4_def simple_escape_def)
  next
    case 5
    have h: "?n div 16 < 16" "?n mod 16 < 16" using assms by simp_all
    have n: "(?n div 16) * 16 + ?n mod 16 = ?n" by simp
    have u: "getu4 (json_char c @ r) = Some ?n"
      using 5 h n by (auto simp: json_char_def Let_def getu4_def hex4_def hex_val_digit hex_val_def [of "CHR ''0''"] numeral_2_eq_2 numeral_3_eq_3)
    have "EncodeRune ?n = [c]" using assms by (simp add: EncodeRune_def)
    moreover have "\<not> surrogate ?n" using assms by (simp add: surrogate_def)
    moreover have "json_char c = [CHR 0x5C] @ ''u00'' @ [hex_digit (?n div 16), hex_digit (?n mod 16)]"
      using 5 by (auto simp: json_char_def Let_def)
    ultimately show ?thesis using u by (simp add: json_str.simps(2))
  next
    case 6
    then have "json_char c = [c]" by (auto simp: json_char_def Let_def)
    with 6 assms show ?thesis by (simp add: json_str.simps(2))
  qed
qed

lemma json_string_read: "ascii s \<Longrightarrow> json_str (concat (map json_char s) @ CHR 0x22 # r) = Some (s, r)"
proof (induction s)
  case Nil
  then show ?case by (simp add: json_str.simps(2))
next
  case (Cons c s)
  then show ?case by (simp add: ascii_def json_char_read)
qed

text \<open>Numbers.\<close>

definition ends :: "string \<Rightarrow> bool" where
  "ends r \<longleftrightarrow> r = [] \<or> \<not> is_digit (hd r) \<and> hd r \<notin> {CHR ''.'', CHR ''e'', CHR ''E''}"

lemma span_digits_append: "list_all is_digit d \<Longrightarrow> r = [] \<or> \<not> is_digit (hd r) \<Longrightarrow> span_digits (d @ r) = (d, r)"
  by (induction d) (auto simp: span_digits_def takeWhile_eq_Nil_iff dropWhile_eq_self_iff)

lemma digits_zero: "digits 0 = ''0''"
  by code_simp

lemma digits_read: "ends r \<Longrightarrow> num_int (digits n @ r) = (digits n, r)"
proof (cases "n = 0")
  case True
  then show ?thesis by (simp add: num_int_def digits_zero)
next
  case False
  assume "ends r"
  with False digits_no_leading_zero [of n] digits_digit [of n] show ?thesis
    by (auto simp: num_int_def ends_def intro!: span_digits_append)
qed

lemma digits_head: "is_digit (hd (digits n @ r))"
  using digits_digit [of n] by (cases "digits n") auto

lemma itoa_head: "itoa i \<noteq> []" "hd (itoa i) = CHR ''-'' \<or> is_digit (hd (itoa i))"
  using digits_head [of "nat i" "[]"] by (simp_all add: itoa_def)

lemma json_num_itoa:
  assumes "ends r"
  shows "json_num (itoa i @ r) = Some (itoa i, r)"
proof -
  have "hd (digits (nat i) @ r) \<noteq> CHR ''-''" using digits_head [of "nat i" r] by (auto simp: is_digit_def)
  then have "num_sign (itoa i @ r) = (if i < 0 then (''-'', digits (nat (- i)) @ r) else ([], digits (nat i) @ r))"
    by (simp add: num_sign_def itoa_def)
  moreover have "num_frac r = Some ([], r)" "num_exp r = Some ([], r)"
    using assms by (auto simp: num_frac_def num_exp_def ends_def)
  ultimately show ?thesis
    by (simp add: json_num_def digits_read [OF assms] itoa_def)
qed

lemma literal_itoa:
  assumes "ends r"
  shows "literal (itoa i @ r) = Some (JNum (itoa i), r)"
proof -
  obtain c s where c: "itoa i = c # s" "c = CHR ''-'' \<or> is_digit c"
    using itoa_head [of i] by (cases "itoa i") auto
  then have "c \<noteq> CHR ''n''" "c \<noteq> CHR ''t''" "c \<noteq> CHR ''f''" by (auto simp: is_digit_def)
  then have "\<not> hasPrefix (itoa i @ r) ''null''" "\<not> hasPrefix (itoa i @ r) ''true''" "\<not> hasPrefix (itoa i @ r) ''false''"
    by (simp_all add: c(1))
  then show ?thesis by (simp add: literal_def json_num_itoa [OF assms])
qed

lemma parse_decimal_itoa: "- (2 ^ 63) \<le> i \<Longrightarrow> i < 2 ^ 63 \<Longrightarrow> parse_decimal (itoa i) = Some i"
proof -
  assume i: "- (2 ^ 63) \<le> i" "i < 2 ^ 63"
  have "hd (digits (nat i)) \<noteq> CHR ''-''" using digits_head [of "nat i" "[]"] by (auto simp: is_digit_def)
  then have "num_sign (itoa i) = (if i < 0 then (''-'', digits (nat (- i))) else ([], digits (nat i)))"
    by (simp add: num_sign_def itoa_def)
  with i show ?thesis by (cases "i < 0") (simp_all add: parse_decimal_def digits_digit nat_le_iff nat_less_iff)
qed

text \<open>White space.\<close>

definition spaces :: "string \<Rightarrow> bool" where
  "spaces w \<longleftrightarrow> list_all json_space w"

lemma skip_spaces: "spaces w \<Longrightarrow> skip_space (w @ s) = skip_space s"
  by (simp add: spaces_def skip_space_def dropWhile_append list_all_iff)

lemma skip_solid: "s \<noteq> [] \<Longrightarrow> \<not> json_space (hd s) \<Longrightarrow> skip_space s = s"
  by (cases s) (simp_all add: skip_space_def)

lemma skip_Cons: "\<not> json_space c \<Longrightarrow> skip_space (c # s) = c # s"
  by (simp add: skip_solid)

lemma not_space [simp]:
  "\<not> json_space CHR ''{''" "\<not> json_space CHR ''}''" "\<not> json_space CHR ''[''" "\<not> json_space CHR '']''" "\<not> json_space CHR '',''"
  "\<not> json_space CHR '':''" "\<not> json_space CHR 0x22" "\<not> json_space CHR ''n''" "\<not> json_space CHR ''t''"
  "\<not> json_space CHR ''f''"
  by (simp_all add: json_space_def)

lemma ends_spaces: "spaces w \<Longrightarrow> c \<in> {CHR '','', CHR '']'', CHR ''}''} \<Longrightarrow> ends (w @ c # r)"
  by (cases w) (auto simp: ends_def spaces_def json_space_def is_digit_def)

text \<open>The first character of a value.\<close>

lemma show_head:
  assumes "plain v"
  shows "show_json w v \<noteq> []" "\<not> json_space (hd (show_json w v))" "hd (show_json w v) \<notin> {CHR '']'', CHR ''}''}"
proof -
  have "show_json w v \<noteq> [] \<and> \<not> json_space (hd (show_json w v)) \<and> hd (show_json w v) \<notin> {CHR '']'', CHR ''}''}"
  proof (cases v)
    case (JNum l)
    with assms obtain i where i: "show_json w v = itoa i" by auto
    with itoa_head [of i] show ?thesis by (auto simp: is_digit_def json_space_def)
  qed (simp_all add: json_string_def json_space_def)
  then show "show_json w v \<noteq> []" "\<not> json_space (hd (show_json w v))" "hd (show_json w v) \<notin> {CHR '']'', CHR ''}''}"
    by auto
qed

text \<open>Arrays and objects: the text of their elements, from the first on.\<close>

definition more_elems :: "string \<Rightarrow> json list \<Rightarrow> string" where
  "more_elems w vs = concat (map (\<lambda>v. '','' @ w @ show_json w v @ w) vs)"

definition member :: "string \<Rightarrow> string \<times> json \<Rightarrow> string" where
  "member w m = json_string (fst m) @ w @ '':'' @ w @ show_json w (snd m) @ w"

definition more_members :: "string \<Rightarrow> (string \<times> json) list \<Rightarrow> string" where
  "more_members w ms = concat (map (\<lambda>m. '','' @ w @ member w m) ms)"

lemma comma_list_elems:
  "comma_list (map (\<lambda>v. w @ show_json w v @ w) (v # vs)) = w @ show_json w v @ w @ more_elems w vs"
  by (induction vs arbitrary: v) (simp_all add: comma_list_def more_elems_def)

lemma comma_list_members:
  "comma_list (map (\<lambda>(k, v). w @ json_string k @ w @ '':'' @ w @ show_json w v @ w) (m # ms)) = w @ member w m @ more_members w ms"
  by (induction ms arbitrary: m) (simp_all add: comma_list_def more_members_def member_def case_prod_beta)

text \<open>How the parser meets a value, given that it reads the value itself.\<close>

definition reads :: "string \<Rightarrow> json \<Rightarrow> bool" where
  "reads w v \<longleftrightarrow> (\<forall>w1 r. spaces w1 \<longrightarrow> ends r \<longrightarrow> pvalue (w1 @ show_json w v @ r) = Some (v, r))"

lemma readsD: "reads w v \<Longrightarrow> spaces w1 \<Longrightarrow> ends r \<Longrightarrow> pvalue (w1 @ show_json w v @ r) = Some (v, r)"
  by (simp add: reads_def)

lemma pelems_read:
  assumes "spaces w" "\<forall>v \<in> set (v # vs). plain v \<and> reads w v" "spaces w1"
  shows "pelems (w1 @ show_json w v @ w @ more_elems w vs @ '']'' @ r) = Some (v # vs, r)"
  using assms(2,3)
proof (induction vs arbitrary: v w1)
  case Nil
  then have "pvalue (w1 @ show_json w v @ w @ '']'' @ r) = Some (v, w @ '']'' @ r)"
    using ends_spaces [OF assms(1)] by (intro readsD) simp_all
  then show ?case
    using Nil show_head(1) [of v w]
    by (subst pelems.simps) (simp add: more_elems_def Let_def skip_spaces [OF assms(1)] skip_Cons starts_def)
next
  case (Cons v2 vs)
  let ?t = "w @ show_json w v2 @ w @ more_elems w vs @ '']'' @ r"
  have m: "more_elems w (v2 # vs) @ '']'' @ r = CHR '','' # ?t" by (simp add: more_elems_def)
  have "pvalue (w1 @ show_json w v @ w @ CHR '','' # ?t) = Some (v, w @ CHR '','' # ?t)"
    using Cons.prems ends_spaces [OF assms(1)] by (intro readsD) simp_all
  moreover have "pelems ?t = Some (v2 # vs, r)" using Cons.prems assms(1) by (intro Cons.IH) auto
  ultimately show ?case
    unfolding m using Cons.prems show_head(1) [of v w]
    by (subst pelems.simps) (simp add: Let_def skip_spaces [OF assms(1)] skip_Cons starts_def)
qed

lemma json_string_head [simp]: "json_string k \<noteq> []" "hd (json_string k) = CHR 0x22"
  by (simp_all add: json_string_def)

lemma json_str_quoted: "ascii k \<Longrightarrow> json_str (tl (json_string k) @ r) = Some (k, r)"
  by (simp add: json_string_def json_string_read)

lemma starts_quoted: "starts CHR 0x22 (json_string k @ r)" "skip_space (json_string k @ r) = json_string k @ r"
  by (simp_all add: starts_def json_string_def skip_Cons)

lemma pmembers_value:
  assumes "spaces w" "spaces w1" "ascii k" "pvalue (w @ show_json w v @ w @ t) = Some (v, w @ t)" "show_json w v \<noteq> []"
    and "skip_space t = t"
  shows "pmembers (w1 @ member w (k, v) @ t) =
     (if starts CHR ''}'' t then Some ([(k, v)], tl t)
      else if starts CHR '','' t then map_option (\<lambda>(m, r). ((k, v) # m, r)) (pmembers (tl t)) else None)"
  using assms
  by (subst pmembers.simps)
    (simp add: member_def Let_def skip_spaces starts_quoted json_str_quoted skip_Cons starts_def [of "CHR '':''"])

lemma pmembers_read:
  assumes "spaces w" "\<forall>(k, v) \<in> set (m # ms). ascii k \<and> plain v \<and> reads w v" "spaces w1"
  shows "pmembers (w1 @ member w m @ more_members w ms @ ''}'' @ r) = Some (m # ms, r)"
  using assms(2,3)
proof (induction ms arbitrary: m w1)
  case Nil
  obtain k v where m: "m = (k, v)" by (cases m)
  have "pvalue (w @ show_json w v @ w @ ''}'' @ r) = Some (v, w @ ''}'' @ r)"
    using Nil(1) assms(1) ends_spaces [OF assms(1)] by (intro readsD) (simp_all add: m)
  with pmembers_value [OF assms(1) Nil(2), of k v "''}'' @ r"] Nil(1) show_head(1) [of v w] show ?case
    by (simp add: m more_members_def skip_Cons starts_def)
next
  case (Cons m2 ms)
  obtain k v where m: "m = (k, v)" by (cases m)
  let ?t = "w @ member w m2 @ more_members w ms @ ''}'' @ r"
  have t: "more_members w (m2 # ms) @ ''}'' @ r = CHR '','' # ?t" by (simp add: more_members_def)
  have "pvalue (w @ show_json w v @ w @ CHR '','' # ?t) = Some (v, w @ CHR '','' # ?t)"
    using Cons.prems assms(1) ends_spaces [OF assms(1)] by (intro readsD) (auto simp: m)
  moreover have "pmembers ?t = Some (m2 # ms, r)" using Cons.prems assms(1) by (intro Cons.IH) auto
  ultimately show ?case
    using pmembers_value [OF assms(1) Cons.prems(2), of k v "CHR '','' # ?t"] Cons.prems show_head(1) [of v w]
    unfolding t by (simp add: m skip_Cons starts_def)
qed

lemma pvalue_head:
  "spaces w1 \<Longrightarrow> s \<noteq> [] \<Longrightarrow> \<not> json_space (hd s) \<Longrightarrow> skip_space (w1 @ s) = s"
  by (simp add: skip_spaces skip_solid)

lemma reads_value:
  assumes "spaces w"
  shows "plain v \<Longrightarrow> reads w v"
proof (induction v)
  case (JNum l)
  then obtain i where i: "l = itoa i" by auto
  have n: "hd (itoa i) \<notin> {CHR ''{'', CHR ''['', CHR 0x22}" "\<not> json_space (hd (itoa i))"
    using itoa_head [of i] by (auto simp: is_digit_def json_space_def)
  show ?case
    unfolding reads_def i
  proof (intro allI impI)
    fix w1 r assume "spaces w1" "ends r"
    then show "pvalue (w1 @ show_json w (JNum (itoa i)) @ r) = Some (JNum (itoa i), r)"
      using n itoa_head(1) [of i] literal_itoa [of r i]
      by (subst pvalue.simps) (simp add: Let_def pvalue_head)
  qed
next
  case (JStr s)
  then show ?case
    by (auto simp: reads_def Let_def pvalue.simps [of "_ @ _"] skip_spaces starts_quoted json_str_quoted)
next
  case (JArr vs)
  show ?case
  proof (cases vs)
    case Nil
    then show ?thesis
      by (auto simp: reads_def Let_def pvalue.simps [of "_ @ _"] skip_spaces skip_Cons starts_def comma_list_def)
  next
    case (Cons v us)
    have e: "pelems ([] @ show_json w v @ w @ more_elems w us @ '']'' @ r) = Some (v # us, r)" for r
      using JArr Cons by (intro pelems_read [OF assms]) (auto simp: spaces_def)
    have "skip_space (w @ show_json w v @ r) = show_json w v @ r" "\<not> starts CHR '']'' (show_json w v @ r)" for r
      using show_head [of v w] JArr(2) Cons by (simp_all add: pvalue_head [OF assms] starts_def)
    with e show ?thesis
      unfolding reads_def Cons show_json.simps comma_list_elems
      by (auto simp: Let_def pvalue.simps [of "_ @ _"] skip_spaces skip_Cons)
  qed
next
  case (JObj ms)
  show ?case
  proof (cases ms)
    case Nil
    then show ?thesis
      by (auto simp: reads_def Let_def pvalue.simps [of "_ @ _"] skip_spaces skip_Cons starts_def comma_list_def)
  next
    case (Cons m us)
    have e: "pmembers ([] @ member w m @ more_members w us @ ''}'' @ r) = Some (m # us, r)" for r
      using JObj Cons by (intro pmembers_read [OF assms]) (fastforce simp: spaces_def)+
    have "skip_space (w @ member w m @ r) = member w m @ r" "\<not> starts CHR ''}'' (member w m @ r)" for r
      by (simp_all add: skip_spaces [OF assms] member_def starts_quoted) (simp add: starts_def json_string_def)
    with e show ?thesis
      unfolding reads_def Cons show_json.simps comma_list_members
      by (auto simp: Let_def pvalue.simps [of "_ @ _"] skip_spaces skip_Cons)
  qed
qed (auto simp: reads_def Let_def pvalue.simps [of "_ @ _"] skip_spaces literal_def skip_Cons)

section \<open>What is left is shorter\<close>

lemma json_str_shorter: "json_str s = Some (u, r) \<Longrightarrow> length r < length s"
proof (induction s arbitrary: u r rule: measure_induct_rule [where f = length])
  case (less s)
  show ?case
  proof (cases s)
    case (Cons c t)
    have rest: "length r < length s" if "prefix_str x (json_str y) = Some (u, r)" "length y \<le> length t" for x y
    proof -
      from that(1) obtain v where "json_str y = Some (v, r)" by (auto simp: prefix_str_def)
      with less.IH [of y v r] that(2) Cons show ?thesis by simp
    qed
    from less.prems show ?thesis
      unfolding Cons json_str.simps(2)
      by (auto split: if_splits option.splits list.splits dest!: rest simp: Cons)
  qed (use less.prems in simp)
qed

lemma dropWhile_shorter: "length (dropWhile P s) \<le> length s"
  by (rule length_dropWhile_le)

lemma json_num_shorter: "json_num s = Some (l, r) \<Longrightarrow> length r < length s"
proof -
  assume a: "json_num s = Some (l, r)"
  obtain g r0 where g: "num_sign s = (g, r0)" by (cases "num_sign s")
  obtain i r1 where i: "num_int r0 = (i, r1)" by (cases "num_int r0")
  from a g i obtain f r2 e where n: "i \<noteq> []" "num_frac r1 = Some (f, r2)" "num_exp r2 = Some (e, r)"
    by (auto simp: json_num_def split: if_splits option.splits)
  have "length r0 \<le> length s" using g by (auto simp: num_sign_def split: if_splits)
  moreover have "length r1 < length r0"
    using i n(1) by (cases r0) (auto simp: num_int_def span_digits_def le_imp_less_Suc [OF dropWhile_shorter] split: if_splits)
  moreover have "length r2 \<le> length r1"
    using n(2) dropWhile_shorter [of is_digit "tl r1"] by (auto simp: num_frac_def span_digits_def split: if_splits)
  moreover have "length r \<le> length r2"
    using n(3) dropWhile_shorter [of is_digit "tl r2"] dropWhile_shorter [of is_digit "tl (tl r2)"]
    by (auto simp: num_exp_def span_digits_def Let_def split: if_splits)
  ultimately show "length r < length s" by simp
qed

lemma hasPrefix_length: "hasPrefix s p \<Longrightarrow> length p \<le> length s"
  by (metis hasPrefix_def length_take min.cobounded1)

lemma literal_shorter: "literal s = Some (v, r) \<Longrightarrow> length r < length s"
  using json_num_shorter by (auto simp: literal_def dest: hasPrefix_length split: if_splits)

lemma tl_skip: "length (tl (skip_space s)) \<le> length s"
  using skip_space_length [of s] by (cases "skip_space s") auto

text \<open>So the tests in the parser are superfluous, as said there.\<close>

lemma tl_skip_less: "length r < length s \<Longrightarrow> length (tl (skip_space r)) < length s"
  using tl_skip [of r] by simp

lemma skip_tl_less: "skip_space s \<noteq> [] \<Longrightarrow> length (skip_space (tl (skip_space s))) < length s"
  using skip_tl [of s] by simp

lemma tl_skip_skip_less: "skip_space s \<noteq> [] \<Longrightarrow> length (tl (skip_space (tl (skip_space s)))) < length s"
  using skip_tl [of s] by simp

lemma tl_less: "skip_space s \<noteq> [] \<Longrightarrow> length r < length (tl (skip_space s)) \<Longrightarrow> length r < length s"
  using tl_skip [of s] by simp

lemma parser_shorter:
  "pvalue s = Some (v, r) \<Longrightarrow> length r < length s"
  "pelems s1 = Some (vs, r1) \<Longrightarrow> length r1 < length s1"
  "pmembers s2 = Some (ms, r2) \<Longrightarrow> length r2 < length s2"
proof (induction s and s1 and s2 arbitrary: v r and vs r1 and ms r2 rule: pvalue_pelems_pmembers.induct)
  case (1 s)
  let ?t = "skip_space s" and ?r = "skip_space (tl (skip_space s))"
  show ?case
  proof (cases "?t = []")
    case False
    have l: "length ?r < length s" by (rule skip_tl_less [OF False])
    have ih: "hd ?t = CHR ''['' \<Longrightarrow> \<not> starts CHR '']'' ?r \<Longrightarrow> pelems ?r = Some (a, x) \<Longrightarrow> length x < length ?r" for a x
      using 1(2) [OF refl refl False] by simp
    from 1(3) [unfolded pvalue.simps [of s] Let_def] False l show ?thesis
      by (auto split: if_splits dest!: ih 1(1) [OF refl refl False] json_str_shorter literal_shorter intro: tl_less less_le_trans [OF _ skip_space_length])
  qed (use 1 in \<open>simp add: pvalue.simps [of s]\<close>)
next
  case (2 s)
  have ih: "pvalue s = Some (x, y) \<Longrightarrow> length y < length s \<Longrightarrow> \<not> starts CHR '']'' (skip_space y) \<Longrightarrow> starts CHR '','' (skip_space y)
      \<Longrightarrow> pelems (tl (skip_space y)) = Some (z, q) \<Longrightarrow> length q < length s" for x y z q
    using 2(2) [of "(x, y)" x y "skip_space y" z q] tl_skip_less [of y s] by simp
  from 2(3) [unfolded pelems.simps [of s] Let_def] show ?case
    by (auto simp: skip_less split: if_splits option.splits dest: ih)
next
  case (3 s)
  have ih: "pvalue (tl (skip_space p)) = Some (x, y) \<Longrightarrow> starts CHR 0x22 (skip_space s) \<Longrightarrow> json_str (tl (skip_space s)) = Some (k, p)
      \<Longrightarrow> starts CHR '':'' (skip_space p) \<Longrightarrow> length p < length s
      \<Longrightarrow> length y < length s \<Longrightarrow> \<not> starts CHR ''}'' (skip_space y) \<Longrightarrow> starts CHR '','' (skip_space y)
      \<Longrightarrow> pmembers (tl (skip_space y)) = Some (z, q) \<Longrightarrow> length q < length s" for k p x y z q
    using 3(2) [of "skip_space s" "(k, p)" k p "skip_space p" "(x, y)" x y "skip_space y" z q] tl_skip_less [of y s] by simp
  from 3(3) [unfolded pmembers.simps [of s] Let_def] show ?case
    by (auto simp: skip_less split: if_splits option.splits) (rule ih; assumption)
qed

section \<open>Commands\<close>

text \<open>A command as a JSON value and, with white space \<open>w\<close> between its tokens, as the body of a request.\<close>

definition bytes_of :: "string \<Rightarrow> byte list" where
  "bytes_of s = map (\<lambda>c. of_nat (of_char c)) s"

definition Args_json :: "Args \<Rightarrow> json" where
  "Args_json a = JObj [(''path'', JStr (Path a)), (''dst'', JStr (Dst a))]"

definition MUCmd_json :: "MUCmd \<Rightarrow> json" where
  "MUCmd_json c = JObj [(''opt'', JNum (itoa (Opt c))), (''args_bunch'', JArr (map Args_json (ArgsBunch c)))]"

definition post :: "string \<Rightarrow> json \<Rightarrow> request" where
  "post w v = \<lparr>Method = ''POST'', body = bytes_of (w @ show_json w v @ w), body_err = None\<rparr>"

definition ascii_cmd :: "MUCmd \<Rightarrow> bool" where
  "ascii_cmd c \<longleftrightarrow> - (2 ^ 63) \<le> Opt c \<and> Opt c < 2 ^ 63 \<and> (\<forall>a \<in> set (ArgsBunch c). ascii (Path a) \<and> ascii (Dst a))"

lemma text_of_bytes [simp]: "text_of (bytes_of s) = s"
proof -
  have "char_of (unat (of_nat (of_char c) :: byte)) = c" for c
    by (simp add: unat_of_nat take_bit_nat_eq_self)
  then show ?thesis by (simp add: text_of_def bytes_of_def comp_def map_idI)
qed

lemma parse_show:
  assumes "plain v" "spaces w"
  shows "parse_json (w @ show_json w v @ w) = Some v"
proof -
  have "ends w" using assms(2) by (cases w) (auto simp: ends_def spaces_def json_space_def is_digit_def)
  from readsD [OF reads_value [OF assms(2,1)] assms(2) this] show ?thesis
    using skip_spaces [OF assms(2), of "[]"] by (simp add: parse_json_def) (simp add: skip_space_def)
qed

lemma equal_fold_names:
  "equal_fold ''opt'' ''opt''" "\<not> equal_fold ''opt'' ''args_bunch''" "equal_fold ''args_bunch'' ''args_bunch''"
  "equal_fold ''path'' ''path''" "\<not> equal_fold ''path'' ''dst''" "equal_fold ''dst'' ''dst''"
  by simp_all

lemma put_Args: "put_struct Args_field (Args_json a) b = Some a"
  by (simp add: put_struct_def Args_json_def Args_field_def put_string_def equal_fold_names)

lemma put_Args_list: "put_elems (map Args_json as) [] = Some as"
  by (induction as) (simp_all add: put_Args)

lemma unmarshal_show:
  assumes "ascii_cmd c" "spaces w"
  shows "unmarshal_MUCmd (bytes_of (w @ show_json w (MUCmd_json c) @ w)) = Inr c"
proof -
  have "plain (MUCmd_json c)" using assms(1) by (auto simp: MUCmd_json_def Args_json_def ascii_cmd_def ascii_def)
  moreover have "put_struct MUCmd_field (MUCmd_json c) (0, [], 0) = Some (Opt c, ArgsBunch c, length (ArgsBunch c))"
    using assms(1)
    by (simp add: put_struct_def MUCmd_json_def MUCmd_field_def equal_fold_names put_int_def put_slice_def parse_decimal_itoa
        ascii_cmd_def put_Args_list)
  ultimately show ?thesis using assms(2) by (simp add: unmarshal_MUCmd_def parse_show)
qed

text \<open>
  C16: A command posted as JSON is carried out. Whatever white space stands between the tokens and whatever characters of ASCII
  the paths and destinations have, the handler of the controller decodes the very command that was written and answers it, as long
  as the body stays below the limit of 2 MiB.
\<close>

theorem posted_command_runs:
  assumes "ascii_cmd c" "spaces w" "length (body (post w (MUCmd_json c))) < maxControlBodySize"
  shows "Controller_ServeHTTP (post w (MUCmd_json c)) m = (fst (run_cmd c m), Some (snd (run_cmd c m)))"
proof -
  have "read_limited (post w (MUCmd_json c)) = (bytes_of (w @ show_json w (MUCmd_json c) @ w), None)"
    using assms(3) by (simp add: read_limited_def post_def)
  then show ?thesis
    using assms(3) unmarshal_show [OF assms(1,2)]
    by (simp add: Controller_ServeHTTP_def MU_ServeHTTP_def post_def split_beta)
qed

lemma posted_command_runs_witness:
  "mux_get (fst (Controller_ServeHTTP (post [CHR 0x0A, CHR 0x20] (MUCmd_json add_two)) (newMux False 60))) ''/a'' = Some ''h:3''"
proof -
  let ?w = "[CHR 0x0A, CHR 0x20]"
  have c: "ascii_cmd add_two" by (simp add: ascii_cmd_def ascii_def add_two_def)
  have w: "spaces ?w" by (simp add: spaces_def json_space_def)
  have "length (body (post ?w (MUCmd_json add_two))) < 2000"
    by (simp add: post_def bytes_of_def MUCmd_json_def Args_json_def add_two_def comma_list_def json_string_def json_char_def
        itoa_def digits_small Let_def)
  then have "length (body (post ?w (MUCmd_json add_two))) < maxControlBodySize" by (simp add: maxControlBodySize_def)
  from posted_command_runs [OF c w this] show ?thesis
    by (simp add: run_cmd_def add_two_def opt_defs mux_add_def newMux_def mux_get_def)
qed

text \<open>
  The controller does not require a path. An add whose user has no path is accepted and adds a user with
  the empty path, although the documentation requires both members.
\<close>

theorem path_is_not_required:
  "Controller_ServeHTTP (post [] (JObj [(''opt'', JNum ''1''), (''args_bunch'', JArr [JObj [(''dst'', JStr ''h:1'')]])])) (newMux b t) =
     (mux_add [\<lparr>Path = [], Dst = ''h:1''\<rparr>] (newMux b t), Some (sendMURes ResOK 0 []))"
proof -
  let ?v = "JObj [(''opt'', JNum ''1''), (''args_bunch'', JArr [JObj [(''dst'', JStr ''h:1'')]])]"
  have one: "itoa 1 = ''1''" by (simp add: itoa_def digits_small)
  then have "plain ?v" by (auto simp: ascii_def intro: exI [of _ "1::int"])
  then have p: "parse_json (show_json [] ?v) = Some ?v" using parse_show [of ?v "[]"] by (simp add: spaces_def)
  have "parse_decimal ''1'' = Some 1" using parse_decimal_itoa [of 1] one by simp
  then have "put_struct MUCmd_field ?v (0, [], 0) = Some (1, [\<lparr>Path = [], Dst = ''h:1''\<rparr>], 1)"
    by (simp add: put_struct_def MUCmd_field_def equal_fold_names put_int_def put_slice_def Args_field_def put_string_def no_args_def)
  with p have "unmarshal_MUCmd (body (post [] ?v)) = Inr \<lparr>Opt = 1, ArgsBunch = [\<lparr>Path = [], Dst = ''h:1''\<rparr>]\<rparr>"
    by (simp add: unmarshal_MUCmd_def post_def)
  moreover have "length (body (post [] ?v)) < 2000"
    by (simp add: post_def bytes_of_def comma_list_def json_string_def json_char_def Let_def)
  then have "length (body (post [] ?v)) < maxControlBodySize" by (simp add: maxControlBodySize_def)
  ultimately show ?thesis
    by (simp add: Controller_ServeHTTP_def MU_ServeHTTP_def read_limited_def post_def run_cmd_def opt_defs)
qed

end
