(* ===== verification/Spec2Isabelle.thy ===== *)
theory Spec2Isabelle
  imports ClientPool DummyListener Dialling IdleTimeout Processes MuxNet SmuxShaper WsClose WsTunnel
    WsHandshake MuJson
begin

text \<open>
  mos-tls-tunnel carries TCP connections through TLS, optionally inside WebSocket messages, and
  optionally many of them as streams of one multiplexed session. A client (\<^verbatim>\<open>mtt-client\<close>) accepts local
  connections and forwards each one; a server (\<^verbatim>\<open>mtt-server\<close>) joins what arrives with one destination; a
  multi-user server (\<^verbatim>\<open>mtt-mu-server\<close>) picks the destination by the path of the WebSocket request, from
  a table that a controller edits over HTTP. Client and server also run as SIP003 plugins. This
  library models the Go code of \<^verbatim>\<open>src/internal/core\<close> and \<^verbatim>\<open>src/cmd\<close>, and the parts of the vendored
  packages smux and gorilla/websocket and of the Go 1.13 standard library on which it depends.

  \<^bold>\<open>How code is rendered.\<close> A struct is a record with the struct's field names, an error a value of \<open>gerror\<close>,
  and \<open>'a res\<close> a result with an error. A call that may block or race returns the list of its
  possible results now; the empty list means that it blocks. Goroutines are program counters moved one
  statement at a time (\<open>Tunnel\<close>, \<open>AcceptLoop\<close>, \<open>WsClose\<close>), or atomic transitions between which anything
  may happen (\<open>SmuxSession\<close>, \<open>SmuxStream\<close>). Fields named as history (\<open>tcp_recvd\<close>, \<open>got\<close>, \<open>ws_sent\<close> and
  others) record traffic and are read by no operation. What a handler does to the outside is a list
  of \<open>action\<close>s. Loops are structural or have a measure; nothing uses fuel.

  \<^bold>\<open>Foundations.\<close> \<open>Prelude\<close>: bytes, errors, strings, association lists. \<open>NetAddr\<close>, \<open>GoFlag\<close>, \<open>GoNumbers\<close> and
  \<open>ServeMux\<close>: the functions of \<^verbatim>\<open>net\<close>, \<^verbatim>\<open>flag\<close>, \<^verbatim>\<open>strconv\<close>, \<^verbatim>\<open>time\<close> and \<^verbatim>\<open>net/http\<close> the code calls.
  \<open>GoText\<close>: UTF-8. \<open>NetConn\<close>: the interface \<^verbatim>\<open>net.Conn\<close> as the locales \<open>net_conn\<close> and \<open>recording_conn\<close>, and a socket.

  \<^bold>\<open>Tunnel\<close> (\<^verbatim>\<open>common.go\<close>). \<open>Tunnel\<close> has \<^verbatim>\<open>openTunnel\<close>, \<^verbatim>\<open>openOneWayTunnel\<close>, \<^verbatim>\<open>copyBuffer\<close>, \<^verbatim>\<open>firstErr\<close> and the buffer
  pool over any connection; \<open>Conns\<close> instantiates it with sockets, smux streams and the client's
  streams. Each destination receives, in order, a prefix of what its source sent; the result is the
  first error reported; once one direction ends both connections are closed and the other
  direction ends within a bounded number of its own steps. \<open>IdleTimeout\<close> adds deadlines to the interface
  (the locale \<open>timed_conn\<close>): no call of a tunnel outlasts the timeout, and a tunnel whose peers fall silent
  makes a bounded number of steps. \<open>EndToEnd\<close> puts the tunnels of a client and of a server in a row.

  \<^bold>\<open>Multiplexing\<close> (vendored smux, version 1, with \<^verbatim>\<open>cmux.go\<close>). \<open>SmuxFrame\<close>: frames and their bytes. \<open>SmuxSession\<close>
  and \<open>SmuxStream\<close>: sessions, streams, the receive loop, deadlines. \<open>SmuxInvariant\<close>: the session
  invariant, preserved by every transition; received and unread data stay within the budget plus one
  frame; a client's stream ids rise. \<open>SmuxEffect\<close>: what each transition sends and does to the data of the streams.
  \<open>SmuxLink\<close>: a client's and a server's session over one connection; every stream's data arrives in order on the
  stream of the same id, and the data that is lost when a reply overtakes \<^verbatim>\<open>OpenStream\<close>. \<open>ShaperHeap\<close> and \<open>SmuxShaper\<close>: the goroutines
  that write frames. The queue of \<^verbatim>\<open>shaper.go\<close> is an interpretation of the locale \<open>prio_queue\<close>; a caller none of whose writes
  failed has its frames written in order and whole, which is what the one-step writes of \<open>SmuxSession\<close> stand for; and in one run a
  write that timed out later sends bytes of another tunnel. \<open>MuxTunnel\<close> and \<open>MuxNet\<close>: any number of tunnels at both ends of such a connection, as one
  system; each carries its own data in order. \<open>CMux\<close>: \<^verbatim>\<open>muxStream\<close> and the limit of streams per session.
  \<open>AcceptLoop\<close>: \<^verbatim>\<open>handleClientMuxConn\<close>, its bound on handled streams, and the run in which a client
  that keeps its limit is nevertheless cut off.

  \<^bold>\<open>WebSocket\<close> (\<^verbatim>\<open>websocket.go\<close> over gorilla's \<^verbatim>\<open>conn.go\<close> and \<^verbatim>\<open>mask.go\<close>). \<open>WsFrame\<close>: headers, and masking by words
  against masking by bytes. \<open>WebSocket\<close>: the wrapper, messages, control frames, and the
  interpretation of \<open>recording_conn\<close>. \<open>WsStream\<close>: what one side writes the other side reads, for any framing,
  arrival and read sizes; every end of the stream is an error to the tunnel. \<open>WsLink\<close>: both directions of
  one connection at once, with control frames, failures and closes. \<open>WsTunnel\<close>: a client's and a server's
  tunnel joined by such a connection, four goroutines and two kernels, from the application to the destination
  and back. \<open>WsHandshake\<close>: the handshake of gorilla's \<^verbatim>\<open>client.go\<close>, \<^verbatim>\<open>server.go\<close> and \<^verbatim>\<open>util.go\<close>; the program's own always
  succeeds for a server name that fits into a URL, and never for certain IPv6 addresses. \<open>WsClose\<close>: concurrent calls; the panic a \<^verbatim>\<open>Close\<close> during a \<^verbatim>\<open>Write\<close> causes, and its absence when
  calls do not overlap.

  \<^bold>\<open>Client\<close> (\<^verbatim>\<open>client.go\<close>). \<open>ClientConf\<close>: \<^verbatim>\<open>NewClient\<close> and \<^verbatim>\<open>Start\<close>. \<open>ClientPool\<close>: the pool of sessions,
  \<^verbatim>\<open>getMuxStream\<close>, and \<^verbatim>\<open>ForwardConn\<close>, proved against the locale of a session and interpreted with \<open>CMux\<close>.

  \<^bold>\<open>Server\<close> (\<^verbatim>\<open>server.go\<close>). \<open>ServerCert\<close>: the self-signed certificate. \<open>ServerConf\<close>: \<^verbatim>\<open>NewServer\<close>, \<^verbatim>\<open>Start\<close>,
  \<^verbatim>\<open>ActiveAndServe\<close> and the handlers. \<open>Listening\<close> and \<open>DummyListener\<close>: listeners and the accept loop
  (\<^verbatim>\<open>common.go\<close>, \<^verbatim>\<open>tcp*.go\<close>, \<^verbatim>\<open>dummy_conn.go\<close>). \<open>CoreConfig\<close>: constants and socket options (\<^verbatim>\<open>config.go\<close>,
  \<^verbatim>\<open>tcp*.go\<close>) and the choice of the subprotocol.

  \<^bold>\<open>Multi-user server\<close> (\<^verbatim>\<open>multi_user_server.go\<close>, \<^verbatim>\<open>multi_user_http_mux.go\<close>). \<open>MuServer\<close>: the table of users under its
  lock, the request handler, the controller and its JSON replies; the controller refines operations on a
  finite map. \<open>MuJson\<close>: the JSON decoder its commands go through, and that a command that was written is the one that is
  read. \<open>MuConf\<close>: configuration and start-up.

  \<^bold>\<open>Commands\<close> (\<^verbatim>\<open>src/cmd\<close>). \<open>Sip003\<close>: the plugin environment and options. \<open>CmdFlags\<close>, \<open>CmdClient\<close>, \<open>CmdServer\<close> and
  \<open>CmdMuServer\<close>: flags, defaults and the configurations made of them. \<open>Processes\<close>: the goroutines of the
  running commands and the signals that end them. \<open>Deployment\<close>: a client and a server together.
  \<open>Dialling\<close>: the functions between these parts, and the system calls of \<^verbatim>\<open>sendFdToBypass\<close>
  (\<^verbatim>\<open>tcp_android.go\<close>).
\<close>

text \<open>
  \<^bold>\<open>Parameters.\<close> Cryptography and TLS (certificates are fields of a record of functions, a TLS connection
  is a connection like a socket), files, the random source, the hash of the WebSocket handshake, the
  operating system's answers to \<^verbatim>\<open>Dial\<close>, \<^verbatim>\<open>Listen\<close> and socket options, and the rounding of fractions
  in \<^verbatim>\<open>time.ParseDuration\<close> are arguments of the definitions that use them.

  \<^bold>\<open>Not modelled.\<close> Logging; smux protocol version 2 and
  \<^verbatim>\<open>WriteTo\<close>; in gorilla, compression, prepared messages, proxies and cookies, the panic after
  1000 reads of a failed connection, and the text of a close error; percent-encoding of URLs. A
  socket write is accepted whole or not at all before its deadline.

  \<^bold>\<open>Bounds of the WebSocket model.\<close> Everywhere but in \<open>WsClose\<close> a call of \<^verbatim>\<open>Write\<close> or \<^verbatim>\<open>Close\<close> is one step, and an
  answer to a ping is sent when the read that met it returns. Calls that overlap are the subject
  of \<open>WsClose\<close>, for the server's side, where a message is one frame. Since they can panic, \<open>WsTunnel\<close> is about
  the runs in which they do not overlap.

  \<^bold>\<open>Bounds of the smux model.\<close> But in \<open>SmuxShaper\<close>, a frame is written in the step of its call or never. A call of \<^verbatim>\<open>OpenStream\<close> is one step, but for the last section of \<open>SmuxLink\<close>, and so
  are the calls of \<^verbatim>\<open>Write\<close> and \<^verbatim>\<open>Close\<close>.
\<close>

end
